(* ===== verification/Kvs_Prelude.thy ===== *)
theory Kvs_Prelude
  imports Main "HOL-Library.Multiset"
begin

section \<open>Prelude: results, machine integers and shared list facts\<close>

text \<open>
  What every component theory shares. A call that can end in an exception, an abort or
  an access the C++ language leaves undefined returns a \<open>result\<close>; \<open>bindE\<close> sequences
  such calls, \<open>assertE\<close> is a live \<^verbatim>\<open>assert()\<close>, \<open>nthE\<close> an unchecked
  \<^verbatim>\<open>operator[]\<close>, and \<open>foldE\<close> a range \<^verbatim>\<open>for\<close> whose body may fail. Unsigned machine
  integers are naturals with the wrap-around written out (\<open>u32\<close>, \<open>u64\<close>, \<open>sub64\<close>).
  The collection \<open>result_simps\<close> holds the equations that take a successful sequence of
  calls apart; the collection \<open>kvs_word\<close> those that remove a wrap-around that cannot
  happen.
\<close>

named_theorems result_simps \<open>inversion and evaluation of sequenced results\<close>
named_theorems kvs_word \<open>wrap-around that cannot happen\<close>

subsection \<open>Results\<close>

datatype error =
    Fatal string nat              \<comment> \<open>\<^verbatim>\<open>fatal(what, id)\<close>: message and abort\<close>
  | InvalidArgument string        \<comment> \<open>\<^verbatim>\<open>throw std::invalid_argument\<close>\<close>
  | BadAlloc                      \<comment> \<open>\<^verbatim>\<open>throw std::bad_alloc\<close>\<close>
  | AssertionFailed string        \<comment> \<open>a live \<^verbatim>\<open>assert()\<close>\<close>
  | UndefinedBehaviour string     \<comment> \<open>out-of-range index, null or dangling pointer\<close>

type_synonym 'a result = "error + 'a"

definition bindE :: "'a result \<Rightarrow> ('a \<Rightarrow> 'b result) \<Rightarrow> 'b result" where
  "bindE m f = (case m of Inl e \<Rightarrow> Inl e | Inr x \<Rightarrow> f x)"

definition assertE :: "bool \<Rightarrow> string \<Rightarrow> unit result" where
  "assertE b what = (if b then Inr () else Inl (AssertionFailed what))"

definition nthE :: "'a list \<Rightarrow> nat \<Rightarrow> 'a result" where
  "nthE xs i = (if i < length xs then Inr (xs ! i) else Inl (UndefinedBehaviour ''index''))"

definition okE :: "'a result \<Rightarrow> bool" where
  "okE r = (case r of Inl _ \<Rightarrow> False | Inr _ \<Rightarrow> True)"

fun foldE :: "('a \<Rightarrow> 's \<Rightarrow> 's result) \<Rightarrow> 'a list \<Rightarrow> 's \<Rightarrow> 's result" where
  "foldE f [] s = Inr s"
| "foldE f (x # xs) s = bindE (f x s) (foldE f xs)"

lemma bindE_Inr [simp]: "bindE (Inr x) f = f x"
  by (simp add: bindE_def)

lemma bindE_Inl [simp]: "bindE (Inl e) f = Inl e"
  by (simp add: bindE_def)

lemma bindE_eq_Inr [result_simps]:
  "bindE m f = Inr y \<longleftrightarrow> (\<exists>x. m = Inr x \<and> f x = Inr y)"
  by (cases m) auto

lemma assertE_eq_Inr [simp]: "assertE b w = Inr u \<longleftrightarrow> b"
  by (simp add: assertE_def)

lemma assertE_True [simp]: "assertE True w = Inr ()"
  by (simp add: assertE_def)

lemma nthE_eq_Inr [result_simps]: "nthE xs i = Inr x \<longleftrightarrow> i < length xs \<and> x = xs ! i"
  by (auto simp: nthE_def)

lemma nthE_in [simp]: "i < length xs \<Longrightarrow> nthE xs i = Inr (xs ! i)"
  by (simp add: nthE_def)

lemma okE_iff: "okE r \<longleftrightarrow> (\<exists>x. r = Inr x)"
  by (cases r) (auto simp: okE_def)

lemma foldE_append: "foldE f (xs @ ys) s = bindE (foldE f xs s) (foldE f ys)"
proof (induction xs arbitrary: s)
  case Nil
  then show ?case by simp
next
  case (Cons x xs)
  then show ?case by (cases "f x s") auto
qed

text \<open>An invariant kept by every successful iteration is kept by the loop.\<close>

lemma foldE_invariant:
  assumes "foldE f xs s = Inr s'" and "P s"
    and "\<And>x s s'. x \<in> set xs \<Longrightarrow> P s \<Longrightarrow> f x s = Inr s' \<Longrightarrow> P s'"
  shows "P s'"
  using assms
proof (induction xs arbitrary: s)
  case Nil
  then show ?case by simp
next
  case (Cons x xs)
  from Cons.prems(1) obtain s1 where s1: "f x s = Inr s1" "foldE f xs s1 = Inr s'"
    by (auto simp: result_simps)
  have "P s1" using Cons.prems s1(1) by (meson list.set_intros(1))
  then show ?case using Cons.IH [OF s1(2)] Cons.prems(3) by (meson list.set_intros(2))
qed

subsection \<open>Machine integers\<close>

definition u32 :: "nat \<Rightarrow> nat" where
  "u32 n = n mod 2 ^ 32"

definition u64 :: "nat \<Rightarrow> nat" where
  "u64 n = n mod 2 ^ 64"

definition sub64 :: "nat \<Rightarrow> nat \<Rightarrow> nat" where
  "sub64 a b = (a + (2 ^ 64 - b mod 2 ^ 64)) mod 2 ^ 64"

lemma u32_small [kvs_word]: "n < 2 ^ 32 \<Longrightarrow> u32 n = n"
  by (simp add: u32_def)

lemma u64_small [kvs_word]: "n < 2 ^ 64 \<Longrightarrow> u64 n = n"
  by (simp add: u64_def)

lemma u32_less [simp]: "u32 n < 2 ^ 32"
  by (simp add: u32_def)

lemma u64_less [simp]: "u64 n < 2 ^ 64"
  by (simp add: u64_def)

lemma u64_le: "n \<le> c \<Longrightarrow> u64 n \<le> c"
  using mod_less_eq_dividend [of n "2 ^ 64"] by (simp add: u64_def)

lemma u64_add_u64 [simp]: "u64 (u64 a + b) = u64 (a + b)" "u64 (a + u64 b) = u64 (a + b)"
  by (simp_all add: u64_def mod_simps)

lemma u64_Suc_u64 [simp]: "u64 (Suc (u64 a)) = u64 (Suc a)"
  by (simp add: u64_def mod_Suc_eq)

lemma mod_sub_wrap:
  fixes a b M :: nat
  assumes "0 < M" and "b \<le> a"
  shows "(a mod M + (M - b mod M)) mod M = (a - b) mod M"
proof -
  have le: "b mod M \<le> M" using assms(1) by (simp add: less_imp_le)
  have split: "b = b div M * M + b mod M" by simp
  have "(a mod M + (M - b mod M)) mod M = (a + (M - b mod M)) mod M"
    by (rule mod_add_left_eq)
  also have "a + (M - b mod M) = (a - b) + (b div M * M + M)"
    using assms(2) le split by linarith
  also have "\<dots> = (a - b) + (b div M + 1) * M" by simp
  also have "\<dots> mod M = (a - b) mod M" by (rule mod_mult_self1)
  finally show ?thesis .
qed

lemma sub64_u64 [kvs_word]: "b \<le> a \<Longrightarrow> sub64 (u64 a) b = u64 (a - b)"
  unfolding sub64_def u64_def by (rule mod_sub_wrap) simp_all

subsection \<open>Lists as vectors\<close>

text \<open>\<^verbatim>\<open>back()\<close>/\<^verbatim>\<open>pop_back()\<close> act on the end of a list.\<close>

lemma mset_butlast_last: "xs \<noteq> [] \<Longrightarrow> mset xs = add_mset (last xs) (mset (butlast xs))"
  by (metis append_butlast_last_id mset_append mset_single_iff_right union_mset_add_mset_right
      add_mset_add_single)

lemma distinct_butlast_last: "distinct xs \<Longrightarrow> xs \<noteq> [] \<Longrightarrow> last xs \<notin> set (butlast xs)"
  by (metis append_butlast_last_id distinct_append disjoint_insert(1) list.set(2))

lemma set_butlast_last: "xs \<noteq> [] \<Longrightarrow> set xs = insert (last xs) (set (butlast xs))"
  by (metis append_butlast_last_id empty_set list.simps(15) set_append sup_bot.right_neutral
      Un_insert_right)

lemma mset_take_drop: "mset (take k xs) + mset (drop k xs) = mset xs"
  by (metis append_take_drop_id mset_append)

text \<open>The multiset of a list after one cell is written.\<close>

lemma mset_list_update:
  "i < length xs \<Longrightarrow> add_mset (xs ! i) (mset (xs[i := v])) = add_mset v (mset xs)"
  by (simp add: mset_update)

lemma distinct_count: "(\<And>b. count (mset xs) b \<le> 1) \<Longrightarrow> distinct xs"
proof (induction xs)
  case (Cons x xs)
  have "count (mset xs) b \<le> 1" for b by (rule order_trans [OF _ Cons.prems [of b]]) simp
  moreover have "x \<notin> set xs" using Cons.prems [of x] by (simp add: count_eq_zero_iff)
  ultimately show ?case using Cons.IH by simp
qed simp

end
