(* ===== verification/Kvs_Types.thy ===== *)
theory Kvs_Types
  imports Kvs_Prelude "HOL-Library.Word"
begin

unbundle bit_operations_syntax

section \<open>Geometry and block keys\<close>

text \<open>
  The types and pure functions of \<^verbatim>\<open>include/kvslab/types.hpp\<close>: token and block
  identifiers, the geometry record \<open>CacheConfig\<close> with its \<^verbatim>\<open>size_t\<close> products
  (which wrap at \<open>2 ^ 64\<close>), and the 64-bit hash \<open>block_key\<close> that keys the children of a
  prefix-tree node. The lemmas say when the sizes are the true products and which
  changes to a block of tokens are certain to change its key.
\<close>

type_synonym TokenId = "32 word"
type_synonym byte = "8 word"
type_synonym BlockId = nat
type_synonym key = "64 word"

definition kInvalidBlock :: BlockId where
  "kInvalidBlock = 2 ^ 32 - 1"

record CacheConfig =
  cfg_num_blocks :: nat
  cfg_block_tokens :: nat
  cfg_num_layers :: nat
  cfg_num_kv_heads :: nat
  cfg_head_dim :: nat
  cfg_dtype_bytes :: nat

definition bytes_per_token :: "CacheConfig \<Rightarrow> nat" where
  "bytes_per_token c =
     u64 (2 * cfg_num_layers c * cfg_num_kv_heads c * cfg_head_dim c * cfg_dtype_bytes c)"

definition block_bytes :: "CacheConfig \<Rightarrow> nat" where
  "block_bytes c = u64 (cfg_block_tokens c * bytes_per_token c)"

definition total_bytes :: "CacheConfig \<Rightarrow> nat" where
  "total_bytes c = u64 (cfg_num_blocks c * block_bytes c)"

text \<open>One inner iteration of the hash: mix in byte number \<open>b\<close> of the token \<open>v\<close>.\<close>

definition token_byte :: "TokenId \<Rightarrow> nat \<Rightarrow> TokenId" where
  "token_byte v b = drop_bit (b * 8) v AND 0xff"

definition fnv_byte :: "TokenId \<Rightarrow> nat \<Rightarrow> key \<Rightarrow> key" where
  "fnv_byte v b h = (h XOR ucast (token_byte v b)) * 1099511628211"

definition fnv_token :: "TokenId \<Rightarrow> key \<Rightarrow> key" where
  "fnv_token v h = fold (fnv_byte v) [0, 1, 2, 3] h"

definition block_key :: "TokenId list \<Rightarrow> nat \<Rightarrow> key" where
  "block_key tokens n = fold fnv_token (take n tokens) 1469598103934665603"

subsection \<open>Sizes\<close>

lemma block_bytes_exact:
  assumes "cfg_block_tokens c * (2 * cfg_num_layers c * cfg_num_kv_heads c * cfg_head_dim c
             * cfg_dtype_bytes c) < 2 ^ 64"
  shows "block_bytes c = cfg_block_tokens c * (2 * cfg_num_layers c * cfg_num_kv_heads c
             * cfg_head_dim c * cfg_dtype_bytes c)"
proof -
  let ?b = "2 * cfg_num_layers c * cfg_num_kv_heads c * cfg_head_dim c * cfg_dtype_bytes c"
  have "block_bytes c = (cfg_block_tokens c * (?b mod 2 ^ 64)) mod 2 ^ 64"
    by (simp add: block_bytes_def bytes_per_token_def u64_def)
  also have "\<dots> = (cfg_block_tokens c * ?b) mod 2 ^ 64" by (rule mod_mult_right_eq)
  also have "\<dots> = cfg_block_tokens c * ?b" using assms by (rule mod_less)
  finally show ?thesis .
qed

lemma block_bytes_less [simp]: "block_bytes c < 2 ^ 64"
  by (simp add: block_bytes_def u64_def)

subsection \<open>The key is a bijection of the running hash\<close>

text \<open>
  Exclusive or and multiplication by the odd FNV prime are both invertible on 64-bit
  words, so equal bytes never merge two different running hashes: a difference, once it
  has entered the hash, stays there as long as the remaining bytes agree.
\<close>

lemma fnv_prime_inverse: "(1099511628211 :: key) * 14886173955864302971 = 1"
  by simp

lemma xor_left_inject: "(a :: key) XOR c = b XOR c \<longleftrightarrow> a = b"
proof
  assume "a XOR c = b XOR c"
  then have "(a XOR c) XOR c = (b XOR c) XOR c" by simp
  then show "a = b" by (simp add: xor.assoc)
qed simp

lemma fnv_mult_inject: "(a :: key) * 1099511628211 = b * 1099511628211 \<longleftrightarrow> a = b"
proof
  assume "a * 1099511628211 = b * 1099511628211"
  then have "a * 1099511628211 * 14886173955864302971 = b * 1099511628211 * 14886173955864302971"
    by simp
  then show "a = b" by (simp only: mult.assoc fnv_prime_inverse mult_1_right)
qed simp

lemma inj_fnv_byte: "inj (fnv_byte v b)"
  by (rule injI) (simp add: fnv_byte_def fnv_mult_inject xor_left_inject)

lemma inj_fold: "(\<And>x. x \<in> set xs \<Longrightarrow> inj (f x)) \<Longrightarrow> inj (fold f xs)"
proof (induction xs)
  case Nil
  then show ?case by (simp add: id_def)
next
  case (Cons x xs)
  then have "inj (fold f xs \<circ> f x)" by (intro inj_compose) simp_all
  then show ?case by (simp only: fold.simps)
qed

lemma inj_fnv_token: "inj (fnv_token v)"
  unfolding fnv_token_def [abs_def] by (rule inj_fold) (rule inj_fnv_byte)

lemma fnv_tokens_inject: "fold fnv_token ts h = fold fnv_token ts h' \<longleftrightarrow> h = h'"
  using inj_fold [of ts fnv_token, OF inj_fnv_token] by (auto dest: injD)

lemma token_to_key_inject: "(ucast (x :: TokenId) :: key) = ucast y \<longleftrightarrow> x = y"
  by transfer (simp add: take_bit_eq_mod)

lemma fnv_byte_inject_byte:
  "fnv_byte v b h = fnv_byte w b h \<longleftrightarrow> token_byte v b = token_byte w b"
  by (simp add: fnv_byte_def fnv_mult_inject xor.commute [of h] xor_left_inject
      token_to_key_inject)

lemma fnv_token_single_byte:
  assumes "b < 4" and "token_byte v b \<noteq> token_byte w b"
    and "\<And>b'. b' < 4 \<Longrightarrow> b' \<noteq> b \<Longrightarrow> token_byte v b' = token_byte w b'"
  shows "fnv_token v h \<noteq> fnv_token w h"
proof -
  have same: "fnv_byte w b' = fnv_byte v b'" if "b' < 4" "b' \<noteq> b" for b'
    using assms(3) [OF that] by (simp add: fun_eq_iff fnv_byte_def)
  from assms(1) consider "b = 0" | "b = 1" | "b = 2" | "b = 3" by linarith
  then show ?thesis
    by cases (use assms(2) same in \<open>auto simp: fnv_token_def inj_eq [OF inj_fnv_byte]
      fnv_byte_inject_byte\<close>)
qed

lemma block_key_split:
  assumes "i < n" and "n \<le> length ts"
  shows "block_key ts n =
    fold fnv_token (drop (Suc i) (take n ts)) (fnv_token (ts ! i) (fold fnv_token (take i ts)
      1469598103934665603))"
proof -
  have "take n ts = take i ts @ ts ! i # drop (Suc i) (take n ts)"
    using assms id_take_nth_drop [of i "take n ts"] by simp
  then have "fold fnv_token (take n ts) h = fold fnv_token (drop (Suc i) (take n ts))
      (fnv_token (ts ! i) (fold fnv_token (take i ts) h))" for h
    by (metis (no_types) fold_append comp_apply fold_simps(2))
  then show ?thesis by (simp only: block_key_def)
qed

lemma block_key_take: "n \<le> m \<Longrightarrow> block_key (take m ts) n = block_key ts n"
  by (simp add: block_key_def min_absorb1)

end
