(* ===== verification/Host_Tier.thy ===== *)
theory Host_Tier
  imports Kvs_Types
begin

section \<open>Host tiers: page-rounded byte arenas\<close>

text \<open>
  \<^verbatim>\<open>class Tier\<close> and \<^verbatim>\<open>class HostTier\<close> (\<^verbatim>\<open>include/kvslab/tier.hpp\<close>,
  \<^verbatim>\<open>src/tier.cpp\<close>). A tier is its arena (\<open>None\<close> for the null pointer of an empty tier)
  and the capacity it reports. \<^verbatim>\<open>std::aligned_alloc\<close> is the parameter
  \<open>aligned_alloc\<close> of the constructor. Tiers are borrowed by pointer, so the tier objects
  live in a list and a tier pointer is an index of that list; an address is a tier pointer
  with a byte offset. \<open>memcpy\<close> on addresses is undefined when a range leaves its arena or
  the two ranges overlap.

  The locale \<open>byte_store\<close> is the contract of the abstract class \<^verbatim>\<open>Tier\<close>: bounded bulk
  reads and writes that round trip and leave every other byte alone. \<open>HostTier\<close> is its
  one implementation.
\<close>

record HostTier =
  ht_arena :: "byte list option"
  ht_capacity :: nat

definition kArenaAlignment :: nat where
  "kArenaAlignment = 4096"

definition round_up :: "nat \<Rightarrow> nat \<Rightarrow> nat" where
  "round_up val multiple =
     u64 ((sub64 (u64 (val + multiple)) 1 div multiple) * multiple)"

definition HostTier_new :: "(nat \<Rightarrow> nat \<Rightarrow> byte list option) \<Rightarrow> nat \<Rightarrow> HostTier result" where
  "HostTier_new aligned_alloc capacity_bytes =
     (let cap = round_up capacity_bytes kArenaAlignment in
      if cap = 0 then Inr \<lparr>ht_arena = None, ht_capacity = 0\<rparr>
      else case aligned_alloc kArenaAlignment cap of
             None \<Rightarrow> Inl BadAlloc
           | Some raw \<Rightarrow> Inr \<lparr>ht_arena = Some raw, ht_capacity = cap\<rparr>)"

text \<open>The destructor frees the arena; whatever touches it afterwards meets undefined behaviour.\<close>

definition HostTier_destroy :: "HostTier \<Rightarrow> HostTier" where
  "HostTier_destroy t = t\<lparr>ht_arena := None\<rparr>"

definition capacity_bytes :: "HostTier \<Rightarrow> nat" where
  "capacity_bytes t = ht_capacity t"

text \<open>\<^verbatim>\<open>host_data() != nullptr\<close>\<close>

definition host_data :: "HostTier \<Rightarrow> bool" where
  "host_data t = (ht_arena t \<noteq> None)"

definition splice :: "'a list \<Rightarrow> nat \<Rightarrow> 'a list \<Rightarrow> 'a list" where
  "splice xs off ys = take off xs @ ys @ drop (off + length ys) xs"

text \<open>The bytes behind \<^verbatim>\<open>arena_ + offset\<close>, as \<^verbatim>\<open>std::memcpy\<close> sees them.\<close>

definition arena_load :: "HostTier \<Rightarrow> nat \<Rightarrow> nat \<Rightarrow> byte list result" where
  "arena_load t off n =
     (case ht_arena t of
        None \<Rightarrow> Inl (UndefinedBehaviour ''memcpy from a null arena'')
      | Some a \<Rightarrow> if off + n \<le> length a then Inr (take n (drop off a))
                  else Inl (UndefinedBehaviour ''memcpy past the arena''))"

definition arena_store :: "HostTier \<Rightarrow> nat \<Rightarrow> byte list \<Rightarrow> HostTier result" where
  "arena_store t off bs =
     (case ht_arena t of
        None \<Rightarrow> Inl (UndefinedBehaviour ''memcpy to a null arena'')
      | Some a \<Rightarrow> if off + length bs \<le> length a then Inr (t\<lparr>ht_arena := Some (splice a off bs)\<rparr>)
                  else Inl (UndefinedBehaviour ''memcpy past the arena''))"

definition tier_read :: "HostTier \<Rightarrow> nat \<Rightarrow> nat \<Rightarrow> byte list result" where
  "tier_read t offset bytes =
     bindE (assertE (u64 (offset + bytes) \<le> ht_capacity t) ''read past the end of the tier'')
       (\<lambda>_. arena_load t offset bytes)"

definition tier_write :: "HostTier \<Rightarrow> nat \<Rightarrow> byte list \<Rightarrow> HostTier result" where
  "tier_write t offset src =
     bindE (assertE (u64 (offset + length src) \<le> ht_capacity t) ''write past the end of the tier'')
       (\<lambda>_. arena_store t offset src)"

subsection \<open>Memory: tier objects behind pointers\<close>

type_synonym memory = "HostTier list"
type_synonym addr = "nat \<times> nat"

definition mem_load :: "memory \<Rightarrow> addr \<Rightarrow> nat \<Rightarrow> byte list result" where
  "mem_load m a n = bindE (nthE m (fst a)) (\<lambda>t. arena_load t (snd a) n)"

definition mem_store :: "memory \<Rightarrow> addr \<Rightarrow> byte list \<Rightarrow> memory result" where
  "mem_store m a bs =
     bindE (nthE m (fst a)) (\<lambda>t. bindE (arena_store t (snd a) bs) (\<lambda>t'. Inr (m[fst a := t'])))"

definition overlap :: "addr \<Rightarrow> nat \<Rightarrow> addr \<Rightarrow> nat \<Rightarrow> bool" where
  "overlap a n b m \<longleftrightarrow> fst a = fst b \<and> snd a < snd b + m \<and> snd b < snd a + n"

definition memcpy :: "memory \<Rightarrow> addr \<Rightarrow> addr \<Rightarrow> nat \<Rightarrow> memory result" where
  "memcpy m dst src n =
     (if overlap dst n src n then Inl (UndefinedBehaviour ''memcpy between overlapping ranges'')
      else bindE (mem_load m src n) (mem_store m dst))"

subsection \<open>The contract of a tier\<close>

locale byte_store =
  fixes rd :: "'t \<Rightarrow> nat \<Rightarrow> nat \<Rightarrow> byte list result"
    and wr :: "'t \<Rightarrow> nat \<Rightarrow> byte list \<Rightarrow> 't result"
    and cap :: "'t \<Rightarrow> nat"
    and ok :: "'t \<Rightarrow> bool"
  assumes rd_total: "ok t \<Longrightarrow> off + n \<le> cap t \<Longrightarrow> \<exists>bs. rd t off n = Inr bs \<and> length bs = n"
    and wr_total: "ok t \<Longrightarrow> off + length bs \<le> cap t \<Longrightarrow>
          \<exists>t'. wr t off bs = Inr t' \<and> ok t' \<and> cap t' = cap t"
    and rd_written: "ok t \<Longrightarrow> off + length bs \<le> cap t \<Longrightarrow> wr t off bs = Inr t' \<Longrightarrow>
          rd t' off (length bs) = Inr bs"
    and rd_other: "ok t \<Longrightarrow> off + length bs \<le> cap t \<Longrightarrow> wr t off bs = Inr t' \<Longrightarrow>
          off' + n \<le> off \<or> off + length bs \<le> off' \<Longrightarrow> rd t' off' n = rd t off' n"
begin

text \<open>
  Copying a range between two stores through a host buffer: the copy succeeds, the
  destination then holds the source's bytes, and disjoint ranges of the destination keep
  theirs.
\<close>

lemma bounce_copy:
  assumes s: "ok s" "off + n \<le> cap s" and d: "ok d" "off' + n \<le> cap d"
  obtains bs d' where "rd s off n = Inr bs" and "wr d off' bs = Inr d'" and "ok d'"
    and "cap d' = cap d" and "rd d' off' n = rd s off n"
    and "\<And>o'' k. o'' + k \<le> off' \<or> off' + n \<le> o'' \<Longrightarrow> rd d' o'' k = rd d o'' k"
proof -
  obtain bs where bs: "rd s off n = Inr bs" "length bs = n" using rd_total [OF s] by blast
  have fit: "off' + length bs \<le> cap d" using d(2) bs(2) by simp
  obtain d' where d': "wr d off' bs = Inr d'" "ok d'" "cap d' = cap d"
    using wr_total [OF d(1) fit] by blast
  have same: "rd d' off' n = rd s off n"
    using rd_written [OF d(1) fit d'(1)] bs by simp
  show thesis
    by (rule that [OF bs(1) d' same]) (use rd_other [OF d(1) fit d'(1)] bs(2) in simp)
qed

end

subsection \<open>HostTier meets the contract\<close>

definition tier_ok :: "HostTier \<Rightarrow> bool" where
  "tier_ok t \<longleftrightarrow> ht_capacity t < 2 ^ 64 \<and>
     (case ht_arena t of None \<Rightarrow> False | Some a \<Rightarrow> length a = ht_capacity t)"

lemma length_splice [simp]: "off + length ys \<le> length xs \<Longrightarrow> length (splice xs off ys) = length xs"
  by (simp add: splice_def)

lemma splice_same [simp]:
  "off + length ys \<le> length xs \<Longrightarrow> take (length ys) (drop off (splice xs off ys)) = ys"
  by (simp add: splice_def)

lemma splice_before: "o' + n \<le> off \<Longrightarrow> off + length ys \<le> length xs \<Longrightarrow>
  take n (drop o' (splice xs off ys)) = take n (drop o' xs)"
  by (simp add: splice_def take_drop min_def)

lemma splice_after: "off + length ys \<le> o' \<Longrightarrow> off + length ys \<le> length xs \<Longrightarrow>
  take n (drop o' (splice xs off ys)) = take n (drop o' xs)"
  by (simp add: splice_def)

lemma arena_load_ok: "tier_ok t \<Longrightarrow> off + n \<le> ht_capacity t \<Longrightarrow>
  arena_load t off n = Inr (take n (drop off (the (ht_arena t))))"
  by (auto simp: arena_load_def tier_ok_def split: option.splits)

lemma arena_store_ok: "tier_ok t \<Longrightarrow> off + length bs \<le> ht_capacity t \<Longrightarrow>
  arena_store t off bs = Inr (t\<lparr>ht_arena := Some (splice (the (ht_arena t)) off bs)\<rparr>)"
  by (auto simp: arena_store_def tier_ok_def split: option.splits)

lemma tier_ok_arena: "tier_ok t \<Longrightarrow> length (the (ht_arena t)) = ht_capacity t"
  by (auto simp: tier_ok_def split: option.splits)

lemma tier_ok_store: "tier_ok t \<Longrightarrow> length a = ht_capacity t \<Longrightarrow> tier_ok (t\<lparr>ht_arena := Some a\<rparr>)"
  by (simp add: tier_ok_def)

interpretation host: byte_store tier_read tier_write ht_capacity tier_ok
proof (unfold_locales, goal_cases)
  case (1 t off n)
  then show ?case
    by (simp add: tier_read_def arena_load_ok tier_ok_arena u64_le)
next
  case (2 t off bs)
  then have "tier_write t off bs = Inr (t\<lparr>ht_arena := Some (splice (the (ht_arena t)) off bs)\<rparr>)"
    by (simp add: tier_write_def arena_store_ok u64_le)
  with 2 show ?case by (simp add: tier_ok_store tier_ok_arena)
next
  case (3 t off bs t')
  then have "t' = t\<lparr>ht_arena := Some (splice (the (ht_arena t)) off bs)\<rparr>"
    by (auto simp: tier_write_def result_simps arena_store_ok)
  with 3 show ?case
    by (simp add: tier_read_def arena_load_def tier_ok_arena u64_le)
next
  case (4 t off bs t' off' n)
  then have "t' = t\<lparr>ht_arena := Some (splice (the (ht_arena t)) off bs)\<rparr>"
    by (auto simp: tier_write_def result_simps arena_store_ok)
  with 4 show ?case
    by (auto simp: tier_read_def arena_load_def tier_ok_def splice_before splice_after
        split: option.splits)
qed

end
