(* ===== verification/Block_Pool.thy ===== *)
theory Block_Pool
  imports Host_Tier
begin

section \<open>The block pool: state and operations\<close>

text \<open>
  \<^verbatim>\<open>class BlockPool\<close> (\<^verbatim>\<open>include/kvslab/block_pool.hpp\<close>, \<^verbatim>\<open>src/block_pool.cpp\<close>). The
  record \<open>BlockPool\<close> has the class's fields (\<open>bp_jobs\<close> is \<^verbatim>\<open>jobs_\<close> and so on) and the
  tier objects it borrows (\<open>bp_mem\<close>). A vector is a list whose end is \<^verbatim>\<open>back()\<close>; the
  deque of owned jobs is the list of the job objects, each with the pointer
  (\<open>job_ptr\<close>) under which \<^verbatim>\<open>migrating_\<close> and the workers name it; \<^verbatim>\<open>migrating_\<close> is an
  association list. A worker thread is its program counter in \<^verbatim>\<open>worker_loop()\<close>.
  \<open>bp_hw\<close> is the value of \<^verbatim>\<open>std::thread::hardware_concurrency()\<close>.

  Every operation of the scheduler thread is a function that returns the new pool, or the
  error with which the code aborts. The steps of the worker threads and the interleaving of
  the two are in theory \<open>Pool_Workers\<close>, the invariants in \<open>Pool_Invariant\<close>.
\<close>

subsection \<open>State\<close>

record Location =
  loc_tier :: nat
  loc_slot :: nat

record TierSpec =
  spec_tier :: "nat option"
  spec_num_blocks :: nat

record TierState =
  ts_tier :: nat
  ts_num_blocks :: nat
  ts_free :: "nat list"

record MigrationJob =
  job_ptr :: nat
  job_id :: BlockId
  job_dst_tier :: nat
  job_dst_slot :: nat
  job_src :: addr
  job_dst :: addr
  job_bytes :: nat
  job_done :: bool
  job_cancelled :: bool

text \<open>
  The program counter of a worker: asleep or about to look for a job; holding a job whose
  \<^verbatim>\<open>cancelled\<close> flag it has not read yet; inside \<^verbatim>\<open>memcpy\<close> with the first \<open>k\<close> bytes copied;
  past the copy with \<^verbatim>\<open>done\<close> not stored yet; returned.
\<close>

datatype worker = Waiting | Claimed nat | Copying nat nat | Finishing nat | Exited

record BlockPool =
  bp_cfg :: CacheConfig
  bp_mem :: memory
  bp_tiers :: "TierState list"
  bp_location :: "Location list"
  bp_refcount :: "nat list"
  bp_free_ids :: "BlockId list"
  bp_bounce :: "byte list"
  bp_jobs :: "MigrationJob list"
  bp_migrating :: "(BlockId \<times> nat) list"
  bp_workers :: "worker list"
  bp_next_unclaimed :: nat
  bp_stopping :: bool
  bp_hw :: nat
  bp_next_ptr :: nat

subsection \<open>Construction\<close>

definition init_tier :: "CacheConfig \<Rightarrow> memory \<Rightarrow> TierSpec \<Rightarrow> TierState list \<times> nat
    \<Rightarrow> (TierState list \<times> nat) result" where
  "init_tier c m spec acc =
     (case spec_tier spec of
        None \<Rightarrow> Inl (InvalidArgument ''kvslab: null tier in pool spec'')
      | Some ptr \<Rightarrow> bindE (nthE m ptr) (\<lambda>t.
          if capacity_bytes t < u64 (spec_num_blocks spec * block_bytes c)
          then Inl (InvalidArgument ''kvslab: tier is too small for the requested pool'')
          else Inr (fst acc @ [\<lparr>ts_tier = ptr, ts_num_blocks = spec_num_blocks spec,
                                 ts_free = map u32 (rev [0..<spec_num_blocks spec])\<rparr>],
                    u64 (snd acc + spec_num_blocks spec))))"

definition pool_init :: "nat \<Rightarrow> memory \<Rightarrow> CacheConfig \<Rightarrow> TierSpec list \<Rightarrow> BlockPool result" where
  "pool_init hw m c specs =
     (if specs = [] then Inl (InvalidArgument ''kvslab: a pool needs at least one tier'')
      else bindE (foldE (init_tier c m) specs ([], 0)) (\<lambda>(ts, total).
        Inr \<lparr>bp_cfg = c, bp_mem = m, bp_tiers = ts,
             bp_location = replicate total \<lparr>loc_tier = 0, loc_slot = 0\<rparr>,
             bp_refcount = replicate total 0,
             bp_free_ids = map u32 (rev [0..<total]),
             bp_bounce = replicate (block_bytes c) 0,
             bp_jobs = [], bp_migrating = [], bp_workers = [], bp_next_unclaimed = 0,
             bp_stopping = False, bp_hw = hw, bp_next_ptr = 0\<rparr>))"

text \<open>The three constructors: an owned tier, one borrowed tier, several borrowed tiers.\<close>

definition BlockPool_owning ::
    "(nat \<Rightarrow> nat \<Rightarrow> byte list option) \<Rightarrow> nat \<Rightarrow> CacheConfig \<Rightarrow> BlockPool result" where
  "BlockPool_owning aligned_alloc hw c =
     bindE (HostTier_new aligned_alloc (total_bytes c)) (\<lambda>t.
       pool_init hw [t] c [\<lparr>spec_tier = Some 0, spec_num_blocks = cfg_num_blocks c\<rparr>])"

definition BlockPool_on :: "nat \<Rightarrow> memory \<Rightarrow> nat \<Rightarrow> CacheConfig \<Rightarrow> BlockPool result" where
  "BlockPool_on hw m ptr c =
     pool_init hw m c [\<lparr>spec_tier = Some ptr, spec_num_blocks = cfg_num_blocks c\<rparr>]"

definition BlockPool_tiered ::
    "nat \<Rightarrow> memory \<Rightarrow> TierSpec list \<Rightarrow> CacheConfig \<Rightarrow> BlockPool result" where
  "BlockPool_tiered hw m specs c = pool_init hw m c specs"

subsection \<open>Queries\<close>

definition locate :: "BlockPool \<Rightarrow> BlockId \<Rightarrow> Location result" where
  "locate p bid =
     (if bid \<ge> length (bp_location p) then Inl (Fatal ''access to an out-of-range block'' bid)
      else bindE (nthE (bp_refcount p) bid) (\<lambda>r.
        if r = 0 then Inl (Fatal ''access to a block that is not allocated'' bid)
        else nthE (bp_location p) bid))"

definition refcount :: "BlockPool \<Rightarrow> BlockId \<Rightarrow> nat result" where
  "refcount p bid =
     (if bid \<ge> length (bp_location p) then Inl (Fatal ''refcount of an out-of-range block'' bid)
      else nthE (bp_refcount p) bid)"

definition block_tier :: "BlockPool \<Rightarrow> BlockId \<Rightarrow> nat result" where
  "block_tier p bid = bindE (locate p bid) (\<lambda>loc. Inr (loc_tier loc))"

definition block_offset :: "BlockPool \<Rightarrow> BlockId \<Rightarrow> nat result" where
  "block_offset p bid =
     bindE (locate p bid) (\<lambda>loc. Inr (u64 (loc_slot loc * block_bytes (bp_cfg p))))"

definition block_data :: "BlockPool \<Rightarrow> BlockId \<Rightarrow> addr option result" where
  "block_data p bid =
     bindE (locate p bid) (\<lambda>loc.
     bindE (nthE (bp_tiers p) (loc_tier loc)) (\<lambda>ts.
     bindE (nthE (bp_mem p) (ts_tier ts)) (\<lambda>t.
       if \<not> host_data t then Inr None
       else Inr (Some (ts_tier ts, u64 (loc_slot loc * block_bytes (bp_cfg p)))))))"

definition num_tiers :: "BlockPool \<Rightarrow> nat" where
  "num_tiers p = length (bp_tiers p)"

definition tier_free :: "BlockPool \<Rightarrow> nat \<Rightarrow> nat result" where
  "tier_free p idx = bindE (nthE (bp_tiers p) idx) (\<lambda>ts. Inr (length (ts_free ts)))"

definition tier_blocks :: "BlockPool \<Rightarrow> nat \<Rightarrow> nat result" where
  "tier_blocks p idx = bindE (nthE (bp_tiers p) idx) (\<lambda>ts. Inr (ts_num_blocks ts))"

definition num_free :: "BlockPool \<Rightarrow> nat result" where
  "num_free p = tier_free p 0"

definition num_blocks :: "BlockPool \<Rightarrow> nat" where
  "num_blocks p = length (bp_location p)"

definition num_used :: "BlockPool \<Rightarrow> nat" where
  "num_used p = sub64 (length (bp_location p)) (length (bp_free_ids p))"

subsection \<open>Allocation and reference counts\<close>

definition push_free :: "TierState list \<Rightarrow> nat \<Rightarrow> nat \<Rightarrow> TierState list result" where
  "push_free tss t slot =
     bindE (nthE tss t) (\<lambda>ts. Inr (tss[t := ts\<lparr>ts_free := ts_free ts @ [slot]\<rparr>]))"

definition pop_free :: "TierState list \<Rightarrow> nat \<Rightarrow> TierState list" where
  "pop_free tss t = tss[t := (tss ! t)\<lparr>ts_free := butlast (ts_free (tss ! t))\<rparr>]"

definition allocate :: "BlockPool \<Rightarrow> (BlockId \<times> BlockPool) result" where
  "allocate p =
     (if bp_free_ids p = [] then Inr (kInvalidBlock, p)
      else bindE (nthE (bp_tiers p) 0) (\<lambda>ts.
        if ts_free ts = [] then Inr (kInvalidBlock, p)
        else let bid = last (bp_free_ids p) in
          bindE (nthE (bp_refcount p) bid) (\<lambda>r.
          bindE (assertE (r = 0) ''refcount_[id] == 0'') (\<lambda>_.
          bindE (nthE (bp_location p) bid) (\<lambda>_.
            Inr (bid, p\<lparr>bp_free_ids := butlast (bp_free_ids p),
                       bp_location := (bp_location p)[bid := \<lparr>loc_tier = 0,
                                                             loc_slot = last (ts_free ts)\<rparr>],
                       bp_tiers := pop_free (bp_tiers p) 0,
                       bp_refcount := (bp_refcount p)[bid := 1]\<rparr>))))))"

definition incref :: "BlockPool \<Rightarrow> BlockId \<Rightarrow> BlockPool result" where
  "incref p bid =
     (if bid \<ge> length (bp_location p) then Inl (Fatal ''incref of an out-of-range block'' bid)
      else bindE (nthE (bp_refcount p) bid) (\<lambda>r.
        if r = 0 then Inl (Fatal ''incref of a block that is already free'' bid)
        else Inr (p\<lparr>bp_refcount := (bp_refcount p)[bid := u32 (r + 1)]\<rparr>)))"

subsection \<open>Migration jobs\<close>

definition migrating :: "BlockPool \<Rightarrow> BlockId \<Rightarrow> bool" where
  "migrating p bid = (map_of (bp_migrating p) bid \<noteq> None)"

definition job_at :: "BlockPool \<Rightarrow> nat \<Rightarrow> MigrationJob result" where
  "job_at p ptr =
     (case find (\<lambda>j. job_ptr j = ptr) (bp_jobs p) of
        None \<Rightarrow> Inl (UndefinedBehaviour ''dangling job pointer'')
      | Some j \<Rightarrow> Inr j)"

definition upd_job :: "nat \<Rightarrow> (MigrationJob \<Rightarrow> MigrationJob) \<Rightarrow> MigrationJob list
    \<Rightarrow> MigrationJob list" where
  "upd_job ptr f js = map (\<lambda>j. if job_ptr j = ptr then f j else j) js"

definition migration_target :: "BlockPool \<Rightarrow> BlockId \<Rightarrow> nat result" where
  "migration_target p bid =
     (case map_of (bp_migrating p) bid of
        None \<Rightarrow> Inl (Fatal ''migration_target of a block not migrating'' bid)
      | Some ptr \<Rightarrow> bindE (job_at p ptr) (\<lambda>j. Inr (job_dst_tier j)))"

definition pending_departures :: "BlockPool \<Rightarrow> nat \<Rightarrow> nat result" where
  "pending_departures p t =
     foldE (\<lambda>(bid, ptr) count.
        bindE (nthE (bp_location p) bid) (\<lambda>loc.
        bindE (job_at p ptr) (\<lambda>j.
          Inr (if loc_tier loc = t \<and> job_dst_tier j \<noteq> t then count + 1 else count))))
       (bp_migrating p) 0"

definition pending_migrations :: "BlockPool \<Rightarrow> nat" where
  "pending_migrations p = length (bp_migrating p)"

definition cancel_migration :: "BlockPool \<Rightarrow> BlockId \<Rightarrow> BlockPool result" where
  "cancel_migration p bid =
     (case map_of (bp_migrating p) bid of
        None \<Rightarrow> Inr p
      | Some ptr \<Rightarrow> bindE (job_at p ptr) (\<lambda>_.
          Inr (p\<lparr>bp_jobs := upd_job ptr (\<lambda>j. j\<lparr>job_cancelled := True\<rparr>) (bp_jobs p),
                 bp_migrating := filter (\<lambda>e. fst e \<noteq> bid) (bp_migrating p)\<rparr>)))"

definition decref :: "BlockPool \<Rightarrow> BlockId \<Rightarrow> (bool \<times> BlockPool) result" where
  "decref p bid =
     (if bid \<ge> length (bp_location p) then Inl (Fatal ''decref of an out-of-range block'' bid)
      else bindE (nthE (bp_refcount p) bid) (\<lambda>r.
        if r = 0 then Inl (Fatal ''decref of a block that is already free'' bid)
        else let p1 = p\<lparr>bp_refcount := (bp_refcount p)[bid := r - 1]\<rparr> in
          if r - 1 = 0 then
            bindE (cancel_migration p1 bid) (\<lambda>p2.
            bindE (nthE (bp_location p2) bid) (\<lambda>loc.
            bindE (push_free (bp_tiers p2) (loc_tier loc) (loc_slot loc)) (\<lambda>tss.
              Inr (True, p2\<lparr>bp_tiers := tss, bp_free_ids := bp_free_ids p2 @ [bid]\<rparr>))))
          else Inr (False, p1)))"

subsection \<open>Synchronous migration\<close>

definition copy_block :: "BlockPool \<Rightarrow> addr \<Rightarrow> addr \<Rightarrow> nat \<Rightarrow> BlockPool result" where
  "copy_block p src dst bytes =
     bindE (nthE (bp_mem p) (fst src)) (\<lambda>src_tier.
     bindE (nthE (bp_mem p) (fst dst)) (\<lambda>dst_tier.
       if host_data src_tier \<and> host_data dst_tier then
         bindE (memcpy (bp_mem p) dst src bytes) (\<lambda>m. Inr (p\<lparr>bp_mem := m\<rparr>))
       else
         bindE (tier_read src_tier (snd src) bytes) (\<lambda>bs.
         bindE (tier_write dst_tier (snd dst) bs) (\<lambda>t.
           Inr (p\<lparr>bp_bounce := bs, bp_mem := (bp_mem p)[fst dst := t]\<rparr>)))))"

definition migrate :: "BlockPool \<Rightarrow> BlockId \<Rightarrow> nat \<Rightarrow> (bool \<times> BlockPool) result" where
  "migrate p0 bid dst =
     bindE (cancel_migration p0 bid) (\<lambda>p.
     bindE (locate p bid) (\<lambda>loc.
       if dst \<ge> length (bp_tiers p) then Inl (Fatal ''migrate to an out-of-range tier'' bid)
       else if loc_tier loc = dst then Inr (True, p)
       else if ts_free (bp_tiers p ! dst) = [] then Inr (False, p)
       else bindE (nthE (bp_tiers p) (loc_tier loc)) (\<lambda>src_ts.
         let dst_ts = bp_tiers p ! dst;
             bytes = block_bytes (bp_cfg p);
             dst_slot = last (ts_free dst_ts);
             src = (ts_tier src_ts, u64 (loc_slot loc * bytes));
             dst_a = (ts_tier dst_ts, u64 (dst_slot * bytes))
         in bindE (copy_block (p\<lparr>bp_tiers := pop_free (bp_tiers p) dst\<rparr>) src dst_a bytes) (\<lambda>p1.
            bindE (push_free (bp_tiers p1) (loc_tier loc) (loc_slot loc)) (\<lambda>tss.
              Inr (True, p1\<lparr>bp_tiers := tss,
                     bp_location := (bp_location p1)[bid := \<lparr>loc_tier = dst,
                                                            loc_slot = dst_slot\<rparr>]\<rparr>))))))"

subsection \<open>Asynchronous migration\<close>

definition ensure_worker :: "BlockPool \<Rightarrow> BlockPool" where
  "ensure_worker p =
     (if bp_workers p \<noteq> [] then p
      else p\<lparr>bp_workers := replicate (if bp_hw p \<ge> 4 then 3 else 1) Waiting\<rparr>)"

definition migrate_async :: "BlockPool \<Rightarrow> BlockId \<Rightarrow> nat \<Rightarrow> (bool \<times> BlockPool) result" where
  "migrate_async p bid dst =
     bindE (locate p bid) (\<lambda>loc.
       if dst \<ge> length (bp_tiers p) then Inl (Fatal ''async migrate to an out-of-range tier'' bid)
       else if loc_tier loc = dst then Inr (False, p)
       else if migrating p bid then Inr (False, p)
       else if ts_free (bp_tiers p ! dst) = [] then Inr (False, p)
       else bindE (nthE (bp_tiers p) (loc_tier loc)) (\<lambda>src_ts.
            bindE (nthE (bp_mem p) (ts_tier src_ts)) (\<lambda>src_tier.
            bindE (nthE (bp_mem p) (ts_tier (bp_tiers p ! dst))) (\<lambda>dst_tier.
              if \<not> host_data src_tier \<or> \<not> host_data dst_tier then Inr (False, p)
              else let bytes = block_bytes (bp_cfg p);
                       dst_ts = bp_tiers p ! dst;
                       slot = last (ts_free dst_ts);
                       job = \<lparr>job_ptr = bp_next_ptr p, job_id = bid, job_dst_tier = dst,
                              job_dst_slot = slot,
                              job_src = (ts_tier src_ts, u64 (loc_slot loc * bytes)),
                              job_dst = (ts_tier dst_ts, u64 (slot * bytes)),
                              job_bytes = bytes, job_done = False, job_cancelled = False\<rparr>
                   in Inr (True, ensure_worker
                        (p\<lparr>bp_tiers := pop_free (bp_tiers p) dst,
                           bp_migrating := (bid, bp_next_ptr p) # bp_migrating p,
                           bp_jobs := bp_jobs p @ [job],
                           bp_next_ptr := bp_next_ptr p + 1\<rparr>))))))"

text \<open>The body of the second loop of \<^verbatim>\<open>drain_migrations()\<close>, for one finished job.\<close>

definition drain_one :: "MigrationJob \<Rightarrow> BlockPool \<Rightarrow> BlockPool result" where
  "drain_one job p =
     (if job_cancelled job then
        bindE (push_free (bp_tiers p) (job_dst_tier job) (job_dst_slot job)) (\<lambda>tss.
          Inr (p\<lparr>bp_tiers := tss\<rparr>))
      else
        bindE (nthE (bp_location p) (job_id job)) (\<lambda>loc.
        bindE (push_free (bp_tiers p) (loc_tier loc) (loc_slot loc)) (\<lambda>tss.
          Inr (p\<lparr>bp_tiers := tss,
                 bp_location := (bp_location p)[job_id job := \<lparr>loc_tier = job_dst_tier job,
                                                              loc_slot = job_dst_slot job\<rparr>],
                 bp_migrating := filter (\<lambda>e. fst e \<noteq> job_id job) (bp_migrating p)\<rparr>))))"

definition drain_migrations :: "BlockPool \<Rightarrow> BlockPool result" where
  "drain_migrations p =
     (if bp_jobs p = [] then Inr p
      else let finished = takeWhile job_done (bp_jobs p) in
        foldE drain_one finished
          (p\<lparr>bp_jobs := dropWhile job_done (bp_jobs p),
             bp_next_unclaimed := sub64 (bp_next_unclaimed p) (length finished)\<rparr>))"

end
