(* ===== verification/Pool_Invariant.thy ===== *)
theory Pool_Invariant
  imports Block_Pool
begin

section \<open>The block pool: bookkeeping invariant\<close>

text \<open>
  The invariant \<open>pool_inv\<close> of the scheduler thread's bookkeeping, and that every operation
  keeps it. Its centre is slot conservation (\<open>slots_inv\<close>): in every tier the free slots,
  the slots of allocated blocks and the slots reserved by queued jobs are together exactly
  the slots \<open>0, \<dots>, n - 1\<close> of the tier, each once. Two blocks can therefore never share
  storage, a queued copy never writes into storage a block or the free list owns, and no
  slot is ever lost. The other parts say that the free identifiers are those with reference
  count zero (\<open>ids_inv\<close>), that tiers named by blocks and jobs exist (\<open>range_inv\<close>), and that
  \<^verbatim>\<open>migrating_\<close> names exactly the queued jobs that are not cancelled (\<open>mig_inv\<close>), that such
  a job's block is allocated and not yet at its destination (\<open>flight_inv\<close>), and that only
  claimed jobs are finished (\<open>queue_inv\<close>).
\<close>

subsection \<open>Definition\<close>

definition live :: "BlockPool \<Rightarrow> BlockId \<Rightarrow> bool" where
  "live p b \<longleftrightarrow> b < length (bp_location p) \<and> bp_refcount p ! b > 0"

definition live_slots :: "nat list \<Rightarrow> Location list \<Rightarrow> nat \<Rightarrow> nat multiset" where
  "live_slots refs locs t =
     image_mset (\<lambda>e. loc_slot (snd e))
       (filter_mset (\<lambda>e. 0 < fst e \<and> loc_tier (snd e) = t) (mset (zip refs locs)))"

definition job_slots :: "MigrationJob list \<Rightarrow> nat \<Rightarrow> nat multiset" where
  "job_slots js t = image_mset job_dst_slot (filter_mset (\<lambda>j. job_dst_tier j = t) (mset js))"

definition tier_slots :: "BlockPool \<Rightarrow> nat \<Rightarrow> nat multiset" where
  "tier_slots p t = mset (ts_free (bp_tiers p ! t))
     + live_slots (bp_refcount p) (bp_location p) t + job_slots (bp_jobs p) t"

definition slots_inv :: "BlockPool \<Rightarrow> bool" where
  "slots_inv p \<longleftrightarrow> (\<forall>t < length (bp_tiers p). tier_slots p t = mset [0..<ts_num_blocks (bp_tiers p ! t)])
     \<and> sum_list (map ts_num_blocks (bp_tiers p)) = length (bp_location p)
     \<and> length (bp_location p) < 2 ^ 32"

definition ids_inv :: "BlockPool \<Rightarrow> bool" where
  "ids_inv p \<longleftrightarrow> length (bp_refcount p) = length (bp_location p)
     \<and> distinct (bp_free_ids p)
     \<and> (\<forall>b. b \<in> set (bp_free_ids p) \<longleftrightarrow> b < length (bp_location p) \<and> bp_refcount p ! b = 0)
     \<and> (\<forall>b < length (bp_location p). bp_refcount p ! b < 2 ^ 32)"

definition range_inv :: "BlockPool \<Rightarrow> bool" where
  "range_inv p \<longleftrightarrow> bp_tiers p \<noteq> []
     \<and> (\<forall>b. live p b \<longrightarrow> loc_tier (bp_location p ! b) < length (bp_tiers p))
     \<and> (\<forall>j \<in> set (bp_jobs p). job_dst_tier j < length (bp_tiers p))
     \<and> (bp_jobs p \<noteq> [] \<longrightarrow> 1 < length (bp_tiers p))"

definition mig_inv :: "BlockPool \<Rightarrow> bool" where
  "mig_inv p \<longleftrightarrow> distinct (map job_ptr (bp_jobs p))
     \<and> (\<forall>j \<in> set (bp_jobs p). job_ptr j < bp_next_ptr p)
     \<and> distinct (map fst (bp_migrating p))
     \<and> (\<forall>b q. (b, q) \<in> set (bp_migrating p) \<longleftrightarrow>
           (\<exists>j \<in> set (bp_jobs p). job_ptr j = q \<and> job_id j = b \<and> \<not> job_cancelled j))"

definition flight_inv :: "BlockPool \<Rightarrow> bool" where
  "flight_inv p \<longleftrightarrow> (\<forall>j \<in> set (bp_jobs p). \<not> job_cancelled j \<longrightarrow>
           live p (job_id j) \<and> loc_tier (bp_location p ! job_id j) \<noteq> job_dst_tier j)"

definition queue_inv :: "BlockPool \<Rightarrow> bool" where
  "queue_inv p \<longleftrightarrow> bp_next_unclaimed p \<le> length (bp_jobs p)
     \<and> (\<forall>i. bp_next_unclaimed p \<le> i \<longrightarrow> i < length (bp_jobs p) \<longrightarrow> \<not> job_done (bp_jobs p ! i))"

definition pool_inv :: "BlockPool \<Rightarrow> bool" where
  "pool_inv p \<longleftrightarrow> slots_inv p \<and> ids_inv p \<and> range_inv p \<and> mig_inv p
     \<and> flight_inv p \<and> queue_inv p"

lemmas pool_inv_defs =
  pool_inv_def slots_inv_def ids_inv_def range_inv_def mig_inv_def flight_inv_def queue_inv_def

subsection \<open>Slot accounting\<close>

definition slot_at :: "nat \<Rightarrow> Location \<Rightarrow> nat \<Rightarrow> nat multiset" where
  "slot_at r l t = (if 0 < r \<and> loc_tier l = t then {#loc_slot l#} else {#})"

lemma live_slots_update:
  assumes "b < length locs" and "length refs = length locs"
  shows "live_slots (refs[b := r]) (locs[b := l]) t + slot_at (refs ! b) (locs ! b) t
       = live_slots refs locs t + slot_at r l t"
proof -
  let ?z = "zip refs locs"
  let ?F = "\<lambda>M. image_mset (\<lambda>e. loc_slot (snd e))
              (filter_mset (\<lambda>e. 0 < fst e \<and> loc_tier (snd e) = t) M)"
  have "add_mset (?z ! b) (mset (?z[b := (r, l)])) = add_mset (r, l) (mset ?z)"
    using assms by (intro mset_list_update) simp
  then have "?F (add_mset (?z ! b) (mset (?z[b := (r, l)]))) = ?F (add_mset (r, l) (mset ?z))"
    by (rule arg_cong)
  moreover have "?F (add_mset e M) = ?F M + slot_at (fst e) (snd e) t" for e M
    by (simp add: slot_at_def)
  ultimately have "?F (mset (?z[b := (r, l)])) + slot_at (fst (?z ! b)) (snd (?z ! b)) t
      = ?F (mset ?z) + slot_at r l t"
    by (simp only: fst_conv snd_conv)
  then show ?thesis
    using assms by (simp add: live_slots_def update_zip)
qed

lemma live_slots_update_ref:
  assumes "b < length locs" and "length refs = length locs"
  shows "live_slots (refs[b := r]) locs t + slot_at (refs ! b) (locs ! b) t
       = live_slots refs locs t + slot_at r (locs ! b) t"
  using live_slots_update [OF assms, of r "locs ! b" t] by simp

lemma live_slots_update_loc:
  assumes "b < length locs" and "length refs = length locs"
  shows "live_slots refs (locs[b := l]) t + slot_at (refs ! b) (locs ! b) t
       = live_slots refs locs t + slot_at (refs ! b) l t"
  using live_slots_update [OF assms, of "refs ! b" l t] assms by simp

lemma job_slots_Cons [simp]:
  "job_slots (j # js) t = (if job_dst_tier j = t then {#job_dst_slot j#} else {#}) + job_slots js t"
  by (simp add: job_slots_def)

lemma job_slots_append [simp]: "job_slots (js @ ks) t = job_slots js t + job_slots ks t"
  by (simp add: job_slots_def)

lemma job_slots_Nil [simp]: "job_slots [] t = {#}"
  by (simp add: job_slots_def)

lemma job_slots_map:
  assumes "\<And>j. j \<in> set js \<Longrightarrow> job_dst_tier (f j) = job_dst_tier j \<and> job_dst_slot (f j) = job_dst_slot j"
  shows "job_slots (map f js) t = job_slots js t"
  using assms by (induction js) auto

text \<open>A live block's slot is counted in its tier.\<close>

lemma live_slot_mem:
  assumes "b < length locs" and "length refs = length locs" and "0 < refs ! b"
  shows "loc_slot (locs ! b) \<in># live_slots refs locs (loc_tier (locs ! b))"
proof -
  have "(refs ! b, locs ! b) \<in> set (zip refs locs)"
    using assms(1,2) by (auto simp: in_set_conv_nth)
  then show ?thesis
    using assms(3) by (auto simp: live_slots_def intro!: image_eqI [where x = "(refs ! b, locs ! b)"])
qed


subsection \<open>Consequences\<close>

lemma count_mset_upto: "count (mset [0..<n]) s = (if s < n then 1 else 0)"
  by (simp add: count_mset_0_iff distinct_count_atmost_1)

lemma pool_invD:
  assumes "pool_inv p"
  shows "length (bp_refcount p) = length (bp_location p)"
    and "bp_tiers p \<noteq> []"
    and "live p b \<Longrightarrow> loc_tier (bp_location p ! b) < length (bp_tiers p)"
    and "t < length (bp_tiers p) \<Longrightarrow> tier_slots p t = mset [0..<ts_num_blocks (bp_tiers p ! t)]"
    and "length (bp_location p) < 2 ^ 32"
    and "b \<in> set (bp_free_ids p) \<longleftrightarrow> b < length (bp_location p) \<and> bp_refcount p ! b = 0"
    and "j \<in> set (bp_jobs p) \<Longrightarrow> job_dst_tier j < length (bp_tiers p)"
    and "bp_jobs p \<noteq> [] \<Longrightarrow> 1 < length (bp_tiers p)"
  using assms by (auto simp: pool_inv_defs)

text \<open>Every slot of a tier has at most one owner.\<close>

lemma tier_slots_count:
  "pool_inv p \<Longrightarrow> t < length (bp_tiers p) \<Longrightarrow>
     count (tier_slots p t) s = (if s < ts_num_blocks (bp_tiers p ! t) then 1 else 0)"
  by (simp add: pool_invD(4) count_mset_upto)


subsection \<open>Free lists\<close>

definition pushed :: "TierState list \<Rightarrow> nat \<Rightarrow> nat \<Rightarrow> TierState list" where
  "pushed tss t s = tss[t := (tss ! t)\<lparr>ts_free := ts_free (tss ! t) @ [s]\<rparr>]"

lemma push_free_eq: "t < length tss \<Longrightarrow> push_free tss t s = Inr (pushed tss t s)"
  by (simp add: push_free_def pushed_def)

lemma length_pushed [simp]: "length (pushed tss t s) = length tss"
  by (simp add: pushed_def)

lemma length_pop_free [simp]: "length (pop_free tss t) = length tss"
  by (simp add: pop_free_def)

lemma pushed_Nil_iff [simp]: "pushed tss t s = [] \<longleftrightarrow> tss = []"
  by (simp add: pushed_def)

lemma pop_free_Nil_iff [simp]: "pop_free tss t = [] \<longleftrightarrow> tss = []"
  by (simp add: pop_free_def)

lemma map_update_same: "f y = f (xs ! i) \<Longrightarrow> map f (xs[i := y]) = map f xs"
  by (cases "i < length xs") (simp_all add: map_update list_update_beyond list_update_same_conv)

lemma pushed_static [simp]:
  "map ts_num_blocks (pushed tss t s) = map ts_num_blocks tss"
  "map ts_tier (pushed tss t s) = map ts_tier tss"
  by (simp_all add: pushed_def map_update_same)

lemma pop_free_static [simp]:
  "map ts_num_blocks (pop_free tss t) = map ts_num_blocks tss"
  "map ts_tier (pop_free tss t) = map ts_tier tss"
  by (simp_all add: pop_free_def map_update_same)

lemma static_nth:
  "map f xs = map f ys \<Longrightarrow> i < length ys \<Longrightarrow> f (xs ! i) = f (ys ! i)"
  by (metis length_map nth_map)

lemma free_pushed:
  "t < length tss \<Longrightarrow> mset (ts_free (pushed tss t s ! t')) =
     mset (ts_free (tss ! t')) + (if t' = t then {#s#} else {#})"
  by (simp add: pushed_def nth_list_update)

lemma free_pop_free:
  "t < length tss \<Longrightarrow> ts_free (tss ! t) \<noteq> [] \<Longrightarrow>
     mset (ts_free (tss ! t')) = mset (ts_free (pop_free tss t ! t'))
       + (if t' = t then {#last (ts_free (tss ! t))#} else {#})"
  by (simp add: pop_free_def nth_list_update mset_butlast_last)

lemma ts_free_pop_free:
  "t < length tss \<Longrightarrow> ts_free (pop_free tss t ! t') =
     (if t' = t then butlast (ts_free (tss ! t)) else ts_free (tss ! t'))"
  by (simp add: pop_free_def nth_list_update)

lemma ts_free_pushed:
  "t < length tss \<Longrightarrow> ts_free (pushed tss t s ! t') =
     (if t' = t then ts_free (tss ! t) @ [s] else ts_free (tss ! t'))"
  by (simp add: pushed_def nth_list_update)


lemma pool_inv_slots: "pool_inv p \<Longrightarrow> slots_inv p"
  by (simp add: pool_inv_def)

lemma slots_invI:
  assumes "slots_inv p"
    and "map ts_num_blocks (bp_tiers p') = map ts_num_blocks (bp_tiers p)"
    and "length (bp_location p') = length (bp_location p)"
    and "\<And>t. t < length (bp_tiers p) \<Longrightarrow> tier_slots p' t = tier_slots p t"
  shows "slots_inv p'"
proof -
  have len: "length (bp_tiers p') = length (bp_tiers p)"
    using assms(2) by (metis length_map)
  have "tier_slots p' t = mset [0..<ts_num_blocks (bp_tiers p' ! t)]"
    if "t < length (bp_tiers p')" for t
    using assms(1) assms(4) [of t] that len static_nth [OF assms(2), of t]
    by (simp add: slots_inv_def)
  with assms(1,2,3) show ?thesis by (simp add: slots_inv_def)
qed

subsection \<open>Queries and the free list of identifiers\<close>

lemma locate_live [simp]:
  "pool_inv p \<Longrightarrow> live p b \<Longrightarrow> locate p b = Inr (bp_location p ! b)"
  by (simp add: locate_def live_def pool_invD(1))

lemma locate_not_live: "pool_inv p \<Longrightarrow> \<not> live p b \<Longrightarrow>
   locate p b = Inl (Fatal (if b \<ge> length (bp_location p) then ''access to an out-of-range block''
                            else ''access to a block that is not allocated'') b)"
  by (auto simp: locate_def live_def pool_invD(1))

lemma block_tier_live [simp]:
  "pool_inv p \<Longrightarrow> live p b \<Longrightarrow> block_tier p b = Inr (loc_tier (bp_location p ! b))"
  by (simp add: block_tier_def)

lemma refcount_live [simp]:
  "pool_inv p \<Longrightarrow> b < length (bp_location p) \<Longrightarrow> refcount p b = Inr (bp_refcount p ! b)"
  by (simp add: refcount_def pool_invD(1))

subsection \<open>incref\<close>

lemma incref_eq:
  "pool_inv p \<Longrightarrow> live p b \<Longrightarrow>
     incref p b = Inr (p\<lparr>bp_refcount := (bp_refcount p)[b := u32 (bp_refcount p ! b + 1)]\<rparr>)"
  by (simp add: incref_def live_def pool_invD(1))

text \<open>Changing a positive reference count to another positive value.\<close>

lemma pool_inv_ref:
  assumes inv: "pool_inv p" and b: "live p b" and r: "0 < r" "r < 2 ^ 32"
  shows "pool_inv (p\<lparr>bp_refcount := (bp_refcount p)[b := r]\<rparr>)" (is "pool_inv ?p")
proof -
  note len = pool_invD(1) [OF inv]
  have bl: "b < length (bp_location p)" "0 < bp_refcount p ! b" using b by (auto simp: live_def)
  have live: "live ?p c \<longleftrightarrow> live p c" for c
    using bl r len by (auto simp: live_def nth_list_update)
  have "tier_slots ?p t = tier_slots p t" for t
    using live_slots_update_ref [OF bl(1) len, of r t] bl(2) r(1)
    by (simp add: tier_slots_def slot_at_def split: if_splits)
  then have "slots_inv ?p"
    by (intro slots_invI [OF pool_inv_slots [OF inv]]) simp_all
  moreover have "ids_inv ?p"
    using inv bl r len by (auto simp: pool_inv_def ids_inv_def nth_list_update)
  moreover have "range_inv ?p" "flight_inv ?p" "mig_inv ?p" "queue_inv ?p"
    using inv live
    by (auto simp: pool_inv_def range_inv_def flight_inv_def mig_inv_def queue_inv_def)
  ultimately show ?thesis by (simp add: pool_inv_def)
qed

subsection \<open>allocate\<close>

lemma allocate_eq:
  assumes inv: "pool_inv p" and "bp_free_ids p \<noteq> []" and "ts_free (bp_tiers p ! 0) \<noteq> []"
  shows "allocate p = Inr (last (bp_free_ids p),
     p\<lparr>bp_free_ids := butlast (bp_free_ids p),
       bp_location := (bp_location p)[last (bp_free_ids p) :=
          \<lparr>loc_tier = 0, loc_slot = last (ts_free (bp_tiers p ! 0))\<rparr>],
       bp_tiers := pop_free (bp_tiers p) 0,
       bp_refcount := (bp_refcount p)[last (bp_free_ids p) := 1]\<rparr>)"
proof -
  have "last (bp_free_ids p) \<in> set (bp_free_ids p)" using assms(2) by simp
  then show ?thesis
    using assms pool_invD(1,2) [OF inv] pool_invD(6) [OF inv, of "last (bp_free_ids p)"]
    by (simp add: allocate_def Let_def)
qed

lemma pool_inv_allocate:
  assumes inv: "pool_inv p" and ids: "bp_free_ids p \<noteq> []" and free: "ts_free (bp_tiers p ! 0) \<noteq> []"
    and res: "allocate p = Inr (b, p')"
  shows "pool_inv p'" and "b = last (bp_free_ids p)" and "live p' b" and "\<not> live p b"
    and "live p' c \<longleftrightarrow> live p c \<or> c = b"
    and "bp_refcount p' ! b = 1" and "c \<noteq> b \<Longrightarrow> bp_refcount p' ! c = bp_refcount p ! c"
    and "bp_location p' ! b = \<lparr>loc_tier = 0, loc_slot = last (ts_free (bp_tiers p ! 0))\<rparr>"
    and "c \<noteq> b \<Longrightarrow> bp_location p' ! c = bp_location p ! c"
proof -
  note len = pool_invD(1) [OF inv]
  let ?l = "\<lparr>loc_tier = 0, loc_slot = last (ts_free (bp_tiers p ! 0))\<rparr>"
  have pb: "b = last (bp_free_ids p)"
    and p': "p' = p\<lparr>bp_free_ids := butlast (bp_free_ids p), bp_location := (bp_location p)[b := ?l],
       bp_tiers := pop_free (bp_tiers p) 0, bp_refcount := (bp_refcount p)[b := 1]\<rparr>"
    using allocate_eq [OF inv ids free] res by auto
  have bf: "b \<in> set (bp_free_ids p)" using ids pb by simp
  then have bl: "b < length (bp_location p)" "bp_refcount p ! b = 0"
    using pool_invD(6) [OF inv] by auto
  have live: "live p' c \<longleftrightarrow> live p c \<or> c = b" for c
    using bl len by (auto simp: p' live_def nth_list_update)
  have t0: "0 < length (bp_tiers p)" using pool_invD(2) [OF inv] by simp
  have "tier_slots p' t = tier_slots p t" for t
    using live_slots_update [OF bl(1) len, of 1 ?l t] free_pop_free [OF t0 free, of t] bl(2)
    by (simp add: p' tier_slots_def slot_at_def)
  then have "slots_inv p'"
    using inv by (intro slots_invI [OF pool_inv_slots [OF inv]]) (simp_all add: p')
  moreover have "ids_inv p'"
    using inv bl len ids distinct_butlast_last [of "bp_free_ids p"] set_butlast_last [OF ids]
    by (auto simp: pool_inv_def ids_inv_def p' nth_list_update distinct_butlast pb [symmetric])
  moreover have "range_inv p'" "flight_inv p'" "mig_inv p'" "queue_inv p'"
    using inv live t0 bl len
    by (auto simp: pool_inv_def range_inv_def flight_inv_def mig_inv_def queue_inv_def p'
        nth_list_update live_def)
  ultimately show "pool_inv p'" by (simp add: pool_inv_def)
  show "b = last (bp_free_ids p)" by (rule pb)
  show "live p' c \<longleftrightarrow> live p c \<or> c = b" "live p' b" by (simp_all add: live)
  show "\<not> live p b" using bl by (simp add: live_def)
  show "bp_refcount p' ! b = 1" "bp_location p' ! b = ?l" using bl len by (simp_all add: p')
  show "c \<noteq> b \<Longrightarrow> bp_refcount p' ! c = bp_refcount p ! c"
    "c \<noteq> b \<Longrightarrow> bp_location p' ! c = bp_location p ! c"
    by (simp_all add: p')
qed

subsection \<open>Counting: identifiers and slots\<close>

lemma sum_size_filter:
  fixes f :: "'a \<Rightarrow> nat"
  assumes "\<And>e. e \<in># M \<Longrightarrow> P e \<Longrightarrow> f e < n"
  shows "(\<Sum>t<n. size (filter_mset (\<lambda>e. P e \<and> f e = t) M)) = size (filter_mset P M)"
  using assms
proof (induction M)
  case empty
  then show ?case by simp
next
  case (add x M)
  have "(\<Sum>t<n. size (filter_mset (\<lambda>e. P e \<and> f e = t) (add_mset x M)))
      = (\<Sum>t<n. (if P x \<and> f x = t then 1 else 0) + size (filter_mset (\<lambda>e. P e \<and> f e = t) M))"
    by (rule sum.cong) simp_all
  also have "\<dots> = (\<Sum>t<n. if P x \<and> f x = t then 1 else 0) + size (filter_mset P M)"
    using add.IH add.prems by (simp add: sum.distrib)
  also have "(\<Sum>t<n. if P x \<and> f x = t then 1 else 0) = (if P x then 1 else (0::nat))"
  proof (cases "P x")
    case True
    then have "f x < n" using add.prems by simp
    with True show ?thesis by simp
  qed simp
  finally show ?case by simp
qed

lemma sum_job_slots:
  assumes "\<And>j. j \<in> set js \<Longrightarrow> job_dst_tier j < n"
  shows "(\<Sum>t<n. size (job_slots js t)) = length js"
  using sum_size_filter [of "mset js" "\<lambda>_. True" job_dst_tier n] assms
  by (simp add: job_slots_def)

lemma sum_live_slots:
  assumes "pool_inv p"
  shows "(\<Sum>t<length (bp_tiers p). size (live_slots (bp_refcount p) (bp_location p) t))
       = length (filter (\<lambda>r. 0 < r) (bp_refcount p))"
proof -
  let ?M = "mset (zip (bp_refcount p) (bp_location p))"
  have "loc_tier (snd e) < length (bp_tiers p)" if "e \<in># ?M" "0 < fst e" for e
  proof -
    from that(1) obtain b where "b < length (bp_location p)" "e = (bp_refcount p ! b, bp_location p ! b)"
      using pool_invD(1) [OF assms] by (auto simp: set_zip)
    with that(2) show ?thesis using pool_invD(3) [OF assms, of b] by (simp add: live_def)
  qed
  then have "(\<Sum>t<length (bp_tiers p). size (live_slots (bp_refcount p) (bp_location p) t))
      = size (filter_mset (\<lambda>e. 0 < fst e) ?M)"
    using sum_size_filter [of ?M "\<lambda>e. 0 < fst e" "\<lambda>e. loc_tier (snd e)"]
    by (simp add: live_slots_def)
  also have "\<dots> = length (filter (\<lambda>r. 0 < r) (map fst (zip (bp_refcount p) (bp_location p))))"
    by (simp add: filter_map o_def flip: mset_filter)
  finally show ?thesis using pool_invD(1) [OF assms] by simp
qed

lemma length_free_ids:
  assumes "pool_inv p"
  shows "length (bp_free_ids p) = length (filter (\<lambda>r. r = 0) (bp_refcount p))"
proof -
  have "set (bp_free_ids p) = {b. b < length (bp_refcount p) \<and> bp_refcount p ! b = 0}"
    using assms pool_invD(1,6) [OF assms] by auto
  then have "card (set (bp_free_ids p)) = length (filter (\<lambda>r. r = 0) (bp_refcount p))"
    by (simp add: length_filter_conv_card)
  then show ?thesis using assms by (simp add: pool_inv_defs distinct_card)
qed

text \<open>Every unused identifier is matched by a slot that is free or reserved by a job.\<close>

lemma free_ids_eq_slots:
  assumes "pool_inv p"
  shows "length (bp_free_ids p) =
     (\<Sum>t<length (bp_tiers p). length (ts_free (bp_tiers p ! t))) + length (bp_jobs p)"
proof -
  let ?n = "length (bp_tiers p)"
  have "(\<Sum>t<?n. size (tier_slots p t)) = (\<Sum>t<?n. ts_num_blocks (bp_tiers p ! t))"
    using pool_invD(4) [OF assms] by simp
  also have "\<dots> = sum_list (map ts_num_blocks (bp_tiers p))"
    by (simp add: sum_list_sum_nth atLeast0LessThan)
  also have "\<dots> = length (bp_refcount p)"
    using assms pool_invD(1) [OF assms] by (simp add: pool_inv_defs)
  also have "\<dots> = length (filter (\<lambda>r. r = 0) (bp_refcount p))
      + length (filter (\<lambda>r. 0 < r) (bp_refcount p))"
    using sum_length_filter_compl [of "\<lambda>r. r = 0" "bp_refcount p"] by simp
  finally have "(\<Sum>t<?n. size (tier_slots p t)) = length (bp_free_ids p)
      + length (filter (\<lambda>r. 0 < r) (bp_refcount p))"
    by (simp add: length_free_ids [OF assms])
  moreover have "(\<Sum>t<?n. size (tier_slots p t)) =
      (\<Sum>t<?n. length (ts_free (bp_tiers p ! t))) + length (filter (\<lambda>r. 0 < r) (bp_refcount p))
      + length (bp_jobs p)"
    using sum_live_slots [OF assms] sum_job_slots [of "bp_jobs p" ?n] pool_invD(7) [OF assms]
    by (simp add: tier_slots_def sum.distrib)
  ultimately show ?thesis by simp
qed

lemma free_slot_has_id:
  assumes "pool_inv p" and "t < length (bp_tiers p)"
  shows "length (ts_free (bp_tiers p ! t)) + length (bp_jobs p) \<le> length (bp_free_ids p)"
proof -
  have "length (ts_free (bp_tiers p ! t)) \<le> (\<Sum>t<length (bp_tiers p). length (ts_free (bp_tiers p ! t)))"
    using assms(2) by (intro member_le_sum) simp_all
  then show ?thesis using free_ids_eq_slots [OF assms(1)] by simp
qed

lemma num_used_eq:
  assumes "pool_inv p"
  shows "num_used p = card {b. live p b}"
proof -
  let ?pos = "length (filter (\<lambda>r. 0 < r) (bp_refcount p))"
  have len: "length (bp_location p) = length (bp_free_ids p) + ?pos"
    using sum_length_filter_compl [of "\<lambda>r. r = 0" "bp_refcount p"] pool_invD(1) [OF assms]
    by (simp add: length_free_ids [OF assms])
  have "{b. live p b} = {b. b < length (bp_refcount p) \<and> 0 < bp_refcount p ! b}"
    using pool_invD(1) [OF assms] by (auto simp: live_def)
  then have "card {b. live p b} = ?pos" by (simp add: length_filter_conv_card)
  moreover have "length (bp_location p) < 2 ^ 64" using pool_invD(5) [OF assms] by simp
  then have "num_used p = length (bp_location p) - length (bp_free_ids p)"
    using len by (metis num_used_def le_add1 sub64_u64 u64_small diff_le_self le_less_trans)
  ultimately show ?thesis using len by simp
qed

lemma jobs_bounded: "pool_inv p \<Longrightarrow> length (bp_jobs p) < 2 ^ 64"
proof -
  assume inv: "pool_inv p"
  have "length (bp_jobs p) \<le> length (bp_free_ids p)"
    using free_ids_eq_slots [OF inv] by simp
  also have "\<dots> \<le> length (bp_refcount p)" by (simp add: length_free_ids [OF inv])
  finally show ?thesis using pool_invD(1,5) [OF inv] by simp
qed

text \<open>\<^verbatim>\<open>allocate()\<close> fails exactly when the compute tier is full.\<close>

lemma allocate_full:
  "pool_inv p \<Longrightarrow> ts_free (bp_tiers p ! 0) = [] \<Longrightarrow> allocate p = Inr (kInvalidBlock, p)"
  by (simp add: allocate_def pool_invD(2))

lemma free_slot_free_id:
  "pool_inv p \<Longrightarrow> ts_free (bp_tiers p ! 0) \<noteq> [] \<Longrightarrow> bp_free_ids p \<noteq> []"
  using free_slot_has_id [of p 0] pool_invD(2) [of p] by (cases "bp_free_ids p") auto

end
