(* ===== verification/Pool_Migration.thy ===== *)
theory Pool_Migration
  imports Pool_Invariant
begin

section \<open>The block pool: migration keeps the bookkeeping invariant\<close>

text \<open>
  Cancelling, releasing, migrating and draining. Each operation is first given in closed
  form under the invariant (so it cannot abort), then shown to keep \<open>pool_inv\<close>.
\<close>

subsection \<open>cancel_migration\<close>

definition cancel_id :: "BlockId \<Rightarrow> MigrationJob \<Rightarrow> MigrationJob" where
  "cancel_id b j = (if job_id j = b then j\<lparr>job_cancelled := True\<rparr> else j)"

definition cancelled_pool :: "BlockPool \<Rightarrow> BlockId \<Rightarrow> BlockPool" where
  "cancelled_pool p b =
     p\<lparr>bp_jobs := map (cancel_id b) (bp_jobs p),
       bp_migrating := filter (\<lambda>e. fst e \<noteq> b) (bp_migrating p)\<rparr>"

lemma cancel_id_simps [simp]:
  "job_ptr (cancel_id b j) = job_ptr j" "job_id (cancel_id b j) = job_id j"
  "job_dst_tier (cancel_id b j) = job_dst_tier j" "job_dst_slot (cancel_id b j) = job_dst_slot j"
  "job_src (cancel_id b j) = job_src j" "job_dst (cancel_id b j) = job_dst j"
  "job_bytes (cancel_id b j) = job_bytes j" "job_done (cancel_id b j) = job_done j"
  "job_cancelled (cancel_id b j) \<longleftrightarrow> job_cancelled j \<or> job_id j = b"
  by (simp_all add: cancel_id_def)

lemma cancelled_pool_simps [simp]:
  "bp_tiers (cancelled_pool p b) = bp_tiers p" "bp_location (cancelled_pool p b) = bp_location p"
  "bp_refcount (cancelled_pool p b) = bp_refcount p" "bp_free_ids (cancelled_pool p b) = bp_free_ids p"
  "bp_mem (cancelled_pool p b) = bp_mem p" "bp_cfg (cancelled_pool p b) = bp_cfg p"
  "bp_next_unclaimed (cancelled_pool p b) = bp_next_unclaimed p"
  "bp_next_ptr (cancelled_pool p b) = bp_next_ptr p"
  "bp_workers (cancelled_pool p b) = bp_workers p"
  "bp_stopping (cancelled_pool p b) = bp_stopping p"
  "bp_jobs (cancelled_pool p b) = map (cancel_id b) (bp_jobs p)"
  "bp_migrating (cancelled_pool p b) = filter (\<lambda>e. fst e \<noteq> b) (bp_migrating p)"
  by (simp_all add: cancelled_pool_def)

lemma live_cancelled_pool [simp]: "live (cancelled_pool p b) c \<longleftrightarrow> live p c"
  by (simp add: live_def)

lemma find_job:
  "distinct (map job_ptr js) \<Longrightarrow> j \<in> set js \<Longrightarrow> find (\<lambda>k. job_ptr k = job_ptr j) js = Some j"
  by (induction js) (auto simp: rev_image_eqI)

lemma migrating_mem: "mig_inv p \<Longrightarrow> map_of (bp_migrating p) b = Some q \<longleftrightarrow> (b, q) \<in> set (bp_migrating p)"
  by (simp add: mig_inv_def map_of_eq_Some_iff)

lemma migrating_job:
  assumes "mig_inv p" and "map_of (bp_migrating p) b = Some q"
  obtains j where "j \<in> set (bp_jobs p)" "job_ptr j = q" "job_id j = b" "\<not> job_cancelled j"
    and "job_at p q = Inr j"
proof -
  from assms have "(b, q) \<in> set (bp_migrating p)" by (simp add: migrating_mem)
  then obtain j where j: "j \<in> set (bp_jobs p)" "job_ptr j = q" "job_id j = b" "\<not> job_cancelled j"
    using assms(1) unfolding mig_inv_def by blast
  have "job_at p q = Inr j"
    using assms(1) find_job [of "bp_jobs p" j] j by (simp add: job_at_def mig_inv_def)
  with j show thesis by (rule that)
qed

lemma migrating_iff:
  assumes "mig_inv p"
  shows "migrating p b \<longleftrightarrow> (\<exists>j \<in> set (bp_jobs p). job_id j = b \<and> \<not> job_cancelled j)"
proof
  assume "migrating p b"
  then obtain q where "map_of (bp_migrating p) b = Some q" by (auto simp: migrating_def)
  then show "\<exists>j \<in> set (bp_jobs p). job_id j = b \<and> \<not> job_cancelled j"
    using migrating_job [OF assms] by metis
next
  assume "\<exists>j \<in> set (bp_jobs p). job_id j = b \<and> \<not> job_cancelled j"
  then obtain q where "(b, q) \<in> set (bp_migrating p)" using assms unfolding mig_inv_def by blast
  then show "migrating p b" using assms by (simp add: migrating_def flip: migrating_mem)
qed

lemma uncancelled_unique:
  assumes "mig_inv p" "j \<in> set (bp_jobs p)" "k \<in> set (bp_jobs p)" "job_id j = job_id k"
    "\<not> job_cancelled j" "\<not> job_cancelled k"
  shows "j = k"
proof -
  have mem: "map_of (bp_migrating p) (job_id i) = Some (job_ptr i)"
    if "i \<in> set (bp_jobs p)" "\<not> job_cancelled i" for i
  proof -
    have "(job_id i, job_ptr i) \<in> set (bp_migrating p)"
      using assms(1) that unfolding mig_inv_def by blast
    then show ?thesis by (simp add: migrating_mem [OF assms(1)])
  qed
  have ptr: "job_ptr j = job_ptr k"
    using mem [OF assms(2,5)] mem [OF assms(3,6)] unfolding assms(4) by simp
  have d: "distinct (map job_ptr (bp_jobs p))" using assms(1) by (simp add: mig_inv_def)
  show ?thesis
    using find_job [OF d assms(2)] find_job [OF d assms(3)] unfolding ptr by simp
qed

lemma cancel_migration_eq:
  assumes "mig_inv p"
  shows "cancel_migration p b = Inr (cancelled_pool p b)"
proof (cases "map_of (bp_migrating p) b")
  case None
  then have key: "b \<notin> fst ` set (bp_migrating p)" by (simp add: map_of_eq_None_iff)
  then have "filter (\<lambda>e. fst e \<noteq> b) (bp_migrating p) = bp_migrating p"
    by (force simp: filter_id_conv)
  moreover have "map (cancel_id b) (bp_jobs p) = bp_jobs p"
  proof (rule map_idI)
    fix j assume "j \<in> set (bp_jobs p)"
    then have "job_id j = b \<Longrightarrow> job_cancelled j"
      using migrating_iff [OF assms, of b] None by (auto simp: migrating_def)
    then show "cancel_id b j = j" by (simp add: cancel_id_def)
  qed
  ultimately show ?thesis using None by (simp add: cancel_migration_def cancelled_pool_def)
next
  case (Some q)
  obtain j where j: "j \<in> set (bp_jobs p)" "job_ptr j = q" "job_id j = b" "\<not> job_cancelled j"
    "job_at p q = Inr j"
    using migrating_job [OF assms Some] .
  have "(if job_ptr k = q then k\<lparr>job_cancelled := True\<rparr> else k) = cancel_id b k"
    if "k \<in> set (bp_jobs p)" for k
  proof (cases "job_cancelled k")
    case True
    then show ?thesis by (simp add: cancel_id_def)
  next
    case False
    have "distinct (map job_ptr (bp_jobs p))" using assms by (simp add: mig_inv_def)
    then have "job_ptr k = q \<Longrightarrow> k = j"
      using find_job [OF _ that] find_job [OF _ j(1)] j(2) by simp
    then have "job_ptr k = q \<longleftrightarrow> job_id k = b"
      using uncancelled_unique [OF assms that j(1)] j False by auto
    then show ?thesis by (simp add: cancel_id_def)
  qed
  then show ?thesis
    using Some j by (simp add: cancel_migration_def upd_job_def cancelled_pool_def)
qed


lemma mig_inv_cancelled: "mig_inv p \<Longrightarrow> mig_inv (cancelled_pool p b)"
proof -
  assume m: "mig_inv p"
  have "(c, q) \<in> set (bp_migrating (cancelled_pool p b)) \<longleftrightarrow>
      (\<exists>j \<in> set (bp_jobs (cancelled_pool p b)). job_ptr j = q \<and> job_id j = c \<and> \<not> job_cancelled j)"
    for c q
  proof -
    have "(c, q) \<in> set (bp_migrating p) \<longleftrightarrow>
        (\<exists>j \<in> set (bp_jobs p). job_ptr j = q \<and> job_id j = c \<and> \<not> job_cancelled j)"
      using m by (simp add: mig_inv_def)
    then show ?thesis by auto
  qed
  moreover have "distinct (map fst (bp_migrating (cancelled_pool p b)))"
    using m by (simp add: mig_inv_def distinct_map_filter)
  moreover have "map job_ptr (bp_jobs (cancelled_pool p b)) = map job_ptr (bp_jobs p)"
    by simp
  ultimately show ?thesis using m by (auto simp: mig_inv_def o_def)
qed

lemma tier_slots_cancelled [simp]: "tier_slots (cancelled_pool p b) t = tier_slots p t"
  by (simp add: tier_slots_def job_slots_map)

lemma pool_inv_cancelled:
  assumes "pool_inv p" shows "pool_inv (cancelled_pool p b)"
proof -
  have "slots_inv (cancelled_pool p b)"
    by (rule slots_invI [OF pool_inv_slots [OF assms]]) simp_all
  moreover have "ids_inv (cancelled_pool p b)" "range_inv (cancelled_pool p b)"
    "flight_inv (cancelled_pool p b)" "queue_inv (cancelled_pool p b)"
    using assms by (auto simp: pool_inv_def ids_inv_def range_inv_def flight_inv_def queue_inv_def)
  moreover have "mig_inv (cancelled_pool p b)"
    using assms by (simp add: pool_inv_def mig_inv_cancelled)
  ultimately show ?thesis by (simp add: pool_inv_def)
qed

lemma cancelled_uncancelled:
  "j \<in> set (bp_jobs (cancelled_pool p b)) \<Longrightarrow> \<not> job_cancelled j \<Longrightarrow> job_id j \<noteq> b \<and> j \<in> set (bp_jobs p)"
  by (auto simp: cancel_id_def)

lemma not_migrating_cancelled:
  "mig_inv p \<Longrightarrow> migrating (cancelled_pool p b) c \<longleftrightarrow> migrating p c \<and> c \<noteq> b"
  unfolding migrating_iff migrating_iff [OF mig_inv_cancelled] by (auto simp: cancel_id_def)

subsection \<open>decref\<close>

definition freed_pool :: "BlockPool \<Rightarrow> BlockId \<Rightarrow> BlockPool" where
  "freed_pool p b =
     (cancelled_pool p b)\<lparr>bp_refcount := (bp_refcount p)[b := 0],
        bp_tiers := pushed (bp_tiers p) (loc_tier (bp_location p ! b)) (loc_slot (bp_location p ! b)),
        bp_free_ids := bp_free_ids p @ [b]\<rparr>"

lemma mig_inv_refcount [simp]: "mig_inv (p\<lparr>bp_refcount := r\<rparr>) \<longleftrightarrow> mig_inv p"
  by (simp add: mig_inv_def)

lemma decref_eq:
  assumes inv: "pool_inv p" and b: "live p b"
  shows "decref p b =
    (if bp_refcount p ! b = 1 then Inr (True, freed_pool p b)
     else Inr (False, p\<lparr>bp_refcount := (bp_refcount p)[b := bp_refcount p ! b - 1]\<rparr>))"
proof -
  have "cancel_migration (p\<lparr>bp_refcount := r\<rparr>) b = Inr (cancelled_pool (p\<lparr>bp_refcount := r\<rparr>) b)" for r
    using inv by (intro cancel_migration_eq) (simp add: pool_inv_def)
  then show ?thesis
    using b pool_invD(1,3) [OF inv]
    by (auto simp: decref_def live_def Let_def push_free_eq freed_pool_def cancelled_pool_def)
qed

lemma decref_dead:
  "pool_inv p \<Longrightarrow> \<not> live p b \<Longrightarrow>
     decref p b = Inl (Fatal (if b \<ge> length (bp_location p) then ''decref of an out-of-range block''
                              else ''decref of a block that is already free'') b)"
  by (auto simp: decref_def live_def pool_invD(1))

lemma freed_pool_simps [simp]:
  "bp_location (freed_pool p b) = bp_location p"
  "bp_jobs (freed_pool p b) = map (cancel_id b) (bp_jobs p)"
  "bp_mem (freed_pool p b) = bp_mem p" "bp_cfg (freed_pool p b) = bp_cfg p"
  "bp_workers (freed_pool p b) = bp_workers p" "bp_stopping (freed_pool p b) = bp_stopping p"
  "bp_next_unclaimed (freed_pool p b) = bp_next_unclaimed p"
  "bp_next_ptr (freed_pool p b) = bp_next_ptr p"
  "bp_refcount (freed_pool p b) = (bp_refcount p)[b := 0]"
  "bp_free_ids (freed_pool p b) = bp_free_ids p @ [b]"
  "bp_tiers (freed_pool p b) = pushed (bp_tiers p) (loc_tier (bp_location p ! b)) (loc_slot (bp_location p ! b))"
  "bp_migrating (freed_pool p b) = filter (\<lambda>e. fst e \<noteq> b) (bp_migrating p)"
  by (simp_all add: freed_pool_def)

lemma live_freed:
  "pool_inv p \<Longrightarrow> live p b \<Longrightarrow> live (freed_pool p b) c \<longleftrightarrow> live p c \<and> c \<noteq> b"
  by (auto simp: live_def pool_invD(1) nth_list_update)

lemma pool_inv_freed:
  assumes inv: "pool_inv p" and b: "live p b"
  shows "pool_inv (freed_pool p b)"
proof -
  note len = pool_invD(1) [OF inv]
  let ?l = "bp_location p ! b"
  have bl: "b < length (bp_location p)" "0 < bp_refcount p ! b" using b by (auto simp: live_def)
  have tl: "loc_tier ?l < length (bp_tiers p)" using pool_invD(3) [OF inv b] .
  have "tier_slots (freed_pool p b) t = tier_slots p t" for t
    using live_slots_update_ref [OF bl(1) len, of 0 t] free_pushed [OF tl, of "loc_slot ?l" t] bl(2)
    by (auto simp: tier_slots_def slot_at_def job_slots_map)
  then have "slots_inv (freed_pool p b)"
    by (intro slots_invI [OF pool_inv_slots [OF inv]]) simp_all
  moreover have "b \<notin> set (bp_free_ids p)" using pool_invD(6) [OF inv] bl by simp
  then have "ids_inv (freed_pool p b)"
    using inv bl len by (auto simp: pool_inv_def ids_inv_def nth_list_update)
  moreover have "range_inv (freed_pool p b)"
    using inv live_freed [OF inv b] by (auto simp: pool_inv_def range_inv_def)
  moreover have "flight_inv (freed_pool p b)"
    using inv live_freed [OF inv b] by (auto simp: pool_inv_def flight_inv_def)
  moreover have "mig_inv (freed_pool p b)"
    using mig_inv_cancelled [of p b] inv by (simp add: pool_inv_def mig_inv_def)
  moreover have "queue_inv (freed_pool p b)"
    using inv by (simp add: pool_inv_def queue_inv_def)
  ultimately show ?thesis by (simp add: pool_inv_def)
qed

lemma decref_ok:
  assumes inv: "pool_inv p" and b: "live p b"
  obtains d p' where "decref p b = Inr (d, p')" and "pool_inv p'" and "d \<longleftrightarrow> bp_refcount p ! b = 1"
    and "\<And>c. live p' c \<longleftrightarrow> live p c \<and> (c \<noteq> b \<or> \<not> d)"
    and "bp_refcount p' = (bp_refcount p)[b := bp_refcount p ! b - 1]"
    and "bp_location p' = bp_location p"
proof (cases "bp_refcount p ! b = 1")
  case True
  show thesis
    by (rule that [of True "freed_pool p b"])
      (use True in \<open>simp_all add: decref_eq [OF inv b] pool_inv_freed [OF inv b] live_freed [OF inv b]\<close>)
next
  case False
  let ?p = "p\<lparr>bp_refcount := (bp_refcount p)[b := bp_refcount p ! b - 1]\<rparr>"
  have r: "1 < bp_refcount p ! b" "bp_refcount p ! b < 2 ^ 32"
    using False b inv by (auto simp: live_def pool_inv_defs)
  have "pool_inv ?p" by (rule pool_inv_ref [OF inv b]) (use r in simp_all)
  moreover have "live ?p c \<longleftrightarrow> live p c" for c
    using r b pool_invD(1) [OF inv] by (auto simp: live_def nth_list_update)
  ultimately show thesis
    by (intro that [of False ?p]) (use False in \<open>simp_all add: decref_eq [OF inv b]\<close>)
qed


subsection \<open>migrate_async\<close>

definition new_job :: "BlockPool \<Rightarrow> BlockId \<Rightarrow> nat \<Rightarrow> MigrationJob" where
  "new_job p b dst =
     (let bytes = block_bytes (bp_cfg p); loc = bp_location p ! b;
          slot = last (ts_free (bp_tiers p ! dst))
      in \<lparr>job_ptr = bp_next_ptr p, job_id = b, job_dst_tier = dst, job_dst_slot = slot,
          job_src = (ts_tier (bp_tiers p ! loc_tier loc), u64 (loc_slot loc * bytes)),
          job_dst = (ts_tier (bp_tiers p ! dst), u64 (slot * bytes)),
          job_bytes = bytes, job_done = False, job_cancelled = False\<rparr>)"

lemma new_job_simps [simp]:
  "job_ptr (new_job p b dst) = bp_next_ptr p" "job_id (new_job p b dst) = b"
  "job_dst_tier (new_job p b dst) = dst"
  "job_dst_slot (new_job p b dst) = last (ts_free (bp_tiers p ! dst))"
  "job_bytes (new_job p b dst) = block_bytes (bp_cfg p)"
  "\<not> job_done (new_job p b dst)" "\<not> job_cancelled (new_job p b dst)"
  by (simp_all add: new_job_def Let_def)

definition queued_pool :: "BlockPool \<Rightarrow> BlockId \<Rightarrow> nat \<Rightarrow> BlockPool" where
  "queued_pool p b dst = ensure_worker
     (p\<lparr>bp_tiers := pop_free (bp_tiers p) dst,
        bp_migrating := (b, bp_next_ptr p) # bp_migrating p,
        bp_jobs := bp_jobs p @ [new_job p b dst],
        bp_next_ptr := bp_next_ptr p + 1\<rparr>)"

lemma ensure_worker_simps [simp]:
  "bp_tiers (ensure_worker p) = bp_tiers p" "bp_location (ensure_worker p) = bp_location p"
  "bp_refcount (ensure_worker p) = bp_refcount p" "bp_free_ids (ensure_worker p) = bp_free_ids p"
  "bp_mem (ensure_worker p) = bp_mem p" "bp_cfg (ensure_worker p) = bp_cfg p"
  "bp_next_unclaimed (ensure_worker p) = bp_next_unclaimed p"
  "bp_next_ptr (ensure_worker p) = bp_next_ptr p" "bp_jobs (ensure_worker p) = bp_jobs p"
  "bp_migrating (ensure_worker p) = bp_migrating p" "bp_stopping (ensure_worker p) = bp_stopping p"
  by (simp_all add: ensure_worker_def)

lemma queued_pool_simps [simp]:
  "bp_tiers (queued_pool p b dst) = pop_free (bp_tiers p) dst"
  "bp_location (queued_pool p b dst) = bp_location p"
  "bp_refcount (queued_pool p b dst) = bp_refcount p"
  "bp_free_ids (queued_pool p b dst) = bp_free_ids p"
  "bp_mem (queued_pool p b dst) = bp_mem p" "bp_cfg (queued_pool p b dst) = bp_cfg p"
  "bp_next_unclaimed (queued_pool p b dst) = bp_next_unclaimed p"
  "bp_next_ptr (queued_pool p b dst) = bp_next_ptr p + 1"
  "bp_jobs (queued_pool p b dst) = bp_jobs p @ [new_job p b dst]"
  "bp_migrating (queued_pool p b dst) = (b, bp_next_ptr p) # bp_migrating p"
  "bp_stopping (queued_pool p b dst) = bp_stopping p"
  by (simp_all add: queued_pool_def)

lemma live_queued [simp]: "live (queued_pool p b dst) c \<longleftrightarrow> live p c"
  by (simp add: live_def)

text \<open>When a copy may be queued: the guards of \<^verbatim>\<open>migrate_async()\<close> in their order.\<close>

definition can_queue :: "BlockPool \<Rightarrow> BlockId \<Rightarrow> nat \<Rightarrow> bool" where
  "can_queue p b dst \<longleftrightarrow> loc_tier (bp_location p ! b) \<noteq> dst \<and> \<not> migrating p b
     \<and> ts_free (bp_tiers p ! dst) \<noteq> []
     \<and> host_data (bp_mem p ! ts_tier (bp_tiers p ! loc_tier (bp_location p ! b)))
     \<and> host_data (bp_mem p ! ts_tier (bp_tiers p ! dst))"

definition mem_inv :: "BlockPool \<Rightarrow> bool" where
  "mem_inv p \<longleftrightarrow> distinct (map ts_tier (bp_tiers p))
     \<and> (\<forall>ts \<in> set (bp_tiers p). ts_tier ts < length (bp_mem p) \<and> tier_ok (bp_mem p ! ts_tier ts)
           \<and> ts_num_blocks ts * block_bytes (bp_cfg p) \<le> ht_capacity (bp_mem p ! ts_tier ts))"

lemma mem_invD:
  assumes "mem_inv p" and "t < length (bp_tiers p)"
  shows "ts_tier (bp_tiers p ! t) < length (bp_mem p)"
    and "tier_ok (bp_mem p ! ts_tier (bp_tiers p ! t))"
    and "ts_num_blocks (bp_tiers p ! t) * block_bytes (bp_cfg p)
           \<le> ht_capacity (bp_mem p ! ts_tier (bp_tiers p ! t))"
    and "t' < length (bp_tiers p) \<Longrightarrow> ts_tier (bp_tiers p ! t) = ts_tier (bp_tiers p ! t') \<longleftrightarrow> t = t'"
  using assms by (auto simp: mem_inv_def distinct_conv_nth)

lemma migrate_async_eq:
  assumes inv: "pool_inv p" and mem: "mem_inv p" and b: "live p b" and dst: "dst < length (bp_tiers p)"
  shows "migrate_async p b dst =
    (if can_queue p b dst then Inr (True, queued_pool p b dst) else Inr (False, p))"
proof -
  have src: "loc_tier (bp_location p ! b) < length (bp_tiers p)" using pool_invD(3) [OF inv b] .
  show ?thesis
    using dst src locate_live [OF inv b] mem_invD(1) [OF mem dst] mem_invD(1) [OF mem src]
    by (auto simp: migrate_async_def can_queue_def queued_pool_def new_job_def Let_def)
qed

lemma migrate_async_True:
  assumes inv: "pool_inv p" and res: "migrate_async p b dst = Inr (True, p')"
  shows "live p b" and "dst < length (bp_tiers p)" and "can_queue p b dst"
    and "p' = queued_pool p b dst"
proof -
  show b: "live p b"
    using res locate_not_live [OF inv, of b] by (cases "live p b") (auto simp: migrate_async_def)
  show "dst < length (bp_tiers p)" "can_queue p b dst" "p' = queued_pool p b dst"
    using res locate_live [OF inv b]
    by (auto simp: migrate_async_def can_queue_def queued_pool_def new_job_def Let_def result_simps
        split: if_splits)
qed

lemma migrate_async_False: "migrate_async p b dst = Inr (False, p') \<Longrightarrow> p' = p"
  by (auto simp: migrate_async_def Let_def result_simps split: if_splits)

lemma pool_inv_queued:
  assumes inv: "pool_inv p" and b: "live p b" and dst: "dst < length (bp_tiers p)"
    and can: "can_queue p b dst"
  shows "pool_inv (queued_pool p b dst)"
proof -
  let ?q = "queued_pool p b dst"
  have free: "ts_free (bp_tiers p ! dst) \<noteq> []" and nomig: "\<not> migrating p b"
    and ne: "loc_tier (bp_location p ! b) \<noteq> dst"
    using can by (auto simp: can_queue_def)
  have m: "mig_inv p" using inv by (simp add: pool_inv_def)
  have "tier_slots ?q t = tier_slots p t" for t
    using free_pop_free [OF dst free, of t] by (simp add: tier_slots_def)
  then have "slots_inv ?q"
    by (intro slots_invI [OF pool_inv_slots [OF inv]]) simp_all
  moreover have "ids_inv ?q" "range_inv ?q" "flight_inv ?q"
    using inv dst b ne by (auto simp: pool_inv_def ids_inv_def range_inv_def flight_inv_def)
  moreover have "queue_inv ?q"
    using inv by (auto simp: pool_inv_def queue_inv_def nth_append)
  moreover have "mig_inv ?q"
  proof -
    have key: "b \<notin> fst ` set (bp_migrating p)"
      using nomig by (simp add: migrating_def map_of_eq_None_iff)
    have fresh: "\<forall>j \<in> set (bp_jobs p). job_ptr j < bp_next_ptr p"
      using m by (simp add: mig_inv_def)
    have "(c, q) \<in> set (bp_migrating p) \<longleftrightarrow>
        (\<exists>j \<in> set (bp_jobs p). job_ptr j = q \<and> job_id j = c \<and> \<not> job_cancelled j)" for c q
      using m by (simp add: mig_inv_def)
    then have "(c, q) \<in> set (bp_migrating ?q) \<longleftrightarrow>
        (\<exists>j \<in> set (bp_jobs ?q). job_ptr j = q \<and> job_id j = c \<and> \<not> job_cancelled j)" for c q
      by auto
    moreover have "distinct (map job_ptr (bp_jobs ?q))"
      using m fresh by (auto simp: mig_inv_def)
    moreover have "distinct (map fst (bp_migrating ?q))"
      using m key by (simp add: mig_inv_def)
    ultimately show ?thesis using fresh unfolding mig_inv_def by fastforce
  qed
  ultimately show ?thesis by (simp add: pool_inv_def)
qed


subsection \<open>drain_migrations\<close>

text \<open>One finished job is popped and applied; \<open>drained_one\<close> is the resulting pool.\<close>

definition drained_one :: "BlockPool \<Rightarrow> MigrationJob \<Rightarrow> BlockPool" where
  "drained_one p j =
     (if job_cancelled j
      then p\<lparr>bp_tiers := pushed (bp_tiers p) (job_dst_tier j) (job_dst_slot j)\<rparr>
      else p\<lparr>bp_tiers := pushed (bp_tiers p) (loc_tier (bp_location p ! job_id j))
                                              (loc_slot (bp_location p ! job_id j)),
             bp_location := (bp_location p)[job_id j := \<lparr>loc_tier = job_dst_tier j,
                                                          loc_slot = job_dst_slot j\<rparr>],
             bp_migrating := filter (\<lambda>e. fst e \<noteq> job_id j) (bp_migrating p)\<rparr>)"

definition pop_job :: "BlockPool \<Rightarrow> BlockPool" where
  "pop_job p = p\<lparr>bp_jobs := tl (bp_jobs p), bp_next_unclaimed := bp_next_unclaimed p - 1\<rparr>"

lemma drained_one_simps [simp]:
  "bp_refcount (drained_one p j) = bp_refcount p" "bp_free_ids (drained_one p j) = bp_free_ids p"
  "bp_jobs (drained_one p j) = bp_jobs p" "bp_mem (drained_one p j) = bp_mem p"
  "bp_cfg (drained_one p j) = bp_cfg p" "bp_workers (drained_one p j) = bp_workers p"
  "bp_next_unclaimed (drained_one p j) = bp_next_unclaimed p"
  "bp_next_ptr (drained_one p j) = bp_next_ptr p" "bp_stopping (drained_one p j) = bp_stopping p"
  "length (bp_location (drained_one p j)) = length (bp_location p)"
  "length (bp_tiers (drained_one p j)) = length (bp_tiers p)"
  "bp_tiers (drained_one p j) = [] \<longleftrightarrow> bp_tiers p = []"
  "map ts_num_blocks (bp_tiers (drained_one p j)) = map ts_num_blocks (bp_tiers p)"
  "map ts_tier (bp_tiers (drained_one p j)) = map ts_tier (bp_tiers p)"
  by (simp_all add: drained_one_def)

lemma pop_job_simps [simp]:
  "bp_refcount (pop_job p) = bp_refcount p" "bp_free_ids (pop_job p) = bp_free_ids p"
  "bp_jobs (pop_job p) = tl (bp_jobs p)" "bp_mem (pop_job p) = bp_mem p"
  "bp_cfg (pop_job p) = bp_cfg p" "bp_workers (pop_job p) = bp_workers p"
  "bp_next_unclaimed (pop_job p) = bp_next_unclaimed p - 1" "bp_location (pop_job p) = bp_location p"
  "bp_next_ptr (pop_job p) = bp_next_ptr p" "bp_stopping (pop_job p) = bp_stopping p"
  "bp_tiers (pop_job p) = bp_tiers p" "bp_migrating (pop_job p) = bp_migrating p"
  by (simp_all add: pop_job_def)

lemma live_drained [simp]: "live (drained_one p j) b \<longleftrightarrow> live p b"
  by (simp add: live_def)

lemma live_pop_job [simp]: "live (pop_job p) b \<longleftrightarrow> live p b"
  by (simp add: live_def)

lemma drain_one_eq:
  assumes "job_dst_tier j < length (bp_tiers p)"
    and "\<not> job_cancelled j \<Longrightarrow> job_id j < length (bp_location p)
           \<and> loc_tier (bp_location p ! job_id j) < length (bp_tiers p)"
  shows "drain_one j p = Inr (drained_one p j)"
  using assms by (simp add: drain_one_def drained_one_def push_free_eq)

lemma location_drained:
  "bp_location (drained_one p j) ! b =
     (if \<not> job_cancelled j \<and> b = job_id j \<and> b < length (bp_location p)
      then \<lparr>loc_tier = job_dst_tier j, loc_slot = job_dst_slot j\<rparr> else bp_location p ! b)"
  by (cases "job_id j < length (bp_location p)")
    (auto simp: drained_one_def nth_list_update list_update_beyond)

lemma slots_drained:
  assumes inv: "pool_inv p" and js: "bp_jobs p = j # js"
  shows "tier_slots (drained_one (pop_job p) j) t = tier_slots p t"
proof (cases "job_cancelled j")
  case True
  have "job_dst_tier j < length (bp_tiers p)" using pool_invD(7) [OF inv, of j] js by simp
  then show ?thesis
    using True js free_pushed [of "job_dst_tier j" "bp_tiers p" "job_dst_slot j" t]
    by (simp add: tier_slots_def drained_one_def)
next
  case False
  let ?l = "bp_location p ! job_id j"
  have b: "live p (job_id j)" using inv js False by (auto simp: pool_inv_def flight_inv_def)
  then have bl: "job_id j < length (bp_location p)" "0 < bp_refcount p ! job_id j"
    by (auto simp: live_def)
  have tl: "loc_tier ?l < length (bp_tiers p)" using pool_invD(3) [OF inv b] .
  show ?thesis
    using False js bl free_pushed [OF tl, of "loc_slot ?l" t]
      live_slots_update_loc [OF bl(1) pool_invD(1) [OF inv],
        of "\<lparr>loc_tier = job_dst_tier j, loc_slot = job_dst_slot j\<rparr>" t]
    by (auto simp: tier_slots_def drained_one_def slot_at_def)
qed

lemma mig_inv_drained:
  assumes m: "mig_inv p" and js: "bp_jobs p = j # js"
  shows "mig_inv (drained_one (pop_job p) j)"
proof -
  let ?q = "drained_one (pop_job p) j"
  have iff: "(c, q) \<in> set (bp_migrating p) \<longleftrightarrow>
      (\<exists>k \<in> set (bp_jobs p). job_ptr k = q \<and> job_id k = c \<and> \<not> job_cancelled k)" for c q
    using m by (simp add: mig_inv_def)
  have uniq: "k = j" if "k \<in> set js" "job_id k = job_id j" "\<not> job_cancelled k" "\<not> job_cancelled j" for k
    using uncancelled_unique [OF m, of k j] js that by simp
  have "j \<notin> set js" using m js by (auto simp: mig_inv_def)
  then have "(c, q) \<in> set (bp_migrating ?q) \<longleftrightarrow>
      (\<exists>k \<in> set (bp_jobs ?q). job_ptr k = q \<and> job_id k = c \<and> \<not> job_cancelled k)" for c q
    using iff [of c q] uniq js by (auto simp: drained_one_def)
  moreover have "distinct (map fst (bp_migrating ?q))"
    using m by (simp add: mig_inv_def drained_one_def distinct_map_filter)
  ultimately show ?thesis using m js by (auto simp: mig_inv_def)
qed

lemma pool_inv_drained:
  assumes inv: "pool_inv p" and js: "bp_jobs p = j # js" and don: "job_done j"
  shows "pool_inv (drained_one (pop_job p) j)"
proof -
  let ?q = "drained_one (pop_job p) j"
  have m: "mig_inv p" using inv by (simp add: pool_inv_def)
  have "slots_inv ?q"
    by (rule slots_invI [OF pool_inv_slots [OF inv]]) (simp_all add: slots_drained [OF inv js])
  moreover have "ids_inv ?q" using inv by (simp add: pool_inv_def ids_inv_def)
  moreover have "range_inv ?q"
    using inv js by (auto simp: pool_inv_def range_inv_def location_drained)
  moreover have "flight_inv ?q"
  proof -
    have "j \<notin> set js" using m js by (auto simp: mig_inv_def)
    then have "job_id k = job_id j \<Longrightarrow> job_cancelled j" if "k \<in> set js" "\<not> job_cancelled k" for k
      using uncancelled_unique [OF m, of k j] js that by auto
    then show ?thesis
      using inv js by (auto simp: pool_inv_def flight_inv_def location_drained)
  qed
  moreover have "queue_inv ?q"
  proof -
    have q: "bp_next_unclaimed p \<le> Suc (length js)"
      "\<And>i. bp_next_unclaimed p \<le> i \<Longrightarrow> i < Suc (length js) \<Longrightarrow> \<not> job_done ((j # js) ! i)"
      using inv js by (auto simp: pool_inv_def queue_inv_def)
    have pos: "0 < bp_next_unclaimed p" using q(2) [of 0] don by (cases "bp_next_unclaimed p") auto
    have "\<not> job_done (js ! i)" if "bp_next_unclaimed p - 1 \<le> i" "i < length js" for i
      using q(2) [of "Suc i"] that by simp
    then show ?thesis using q(1) pos js by (simp add: queue_inv_def)
  qed
  ultimately show ?thesis using mig_inv_drained [OF m js] by (simp add: pool_inv_def)
qed


text \<open>The loop applies the jobs one after the other, whatever is left in the queue.\<close>

lemma drained_one_queue:
  "drained_one (p\<lparr>bp_jobs := js, bp_next_unclaimed := n\<rparr>) j
     = (drained_one p j)\<lparr>bp_jobs := js, bp_next_unclaimed := n\<rparr>"
  by (simp add: drained_one_def)

fun drained :: "BlockPool \<Rightarrow> MigrationJob list \<Rightarrow> BlockPool" where
  "drained p [] = p"
| "drained p (j # js) = drained (drained_one (pop_job p) j) js"

lemma drain_loop:
  assumes "pool_inv p" and "bp_jobs p = fin @ rest" and "\<forall>j \<in> set fin. job_done j"
  shows "foldE drain_one fin (p\<lparr>bp_jobs := rest, bp_next_unclaimed := bp_next_unclaimed p - length fin\<rparr>)
       = Inr (drained p fin)"
  using assms
proof (induction fin arbitrary: p)
  case Nil
  then show ?case by simp
next
  case (Cons j fin)
  let ?q = "drained_one (pop_job p) j"
  let ?r = "p\<lparr>bp_jobs := rest, bp_next_unclaimed := bp_next_unclaimed p - length (j # fin)\<rparr>"
  have js: "bp_jobs p = j # (fin @ rest)" and don: "job_done j" using Cons.prems by auto
  have q: "pool_inv ?q" by (rule pool_inv_drained [OF Cons.prems(1) js don])
  have "drain_one j ?r = Inr (drained_one ?r j)"
    using Cons.prems(1) js pool_invD(3) [OF Cons.prems(1), of "job_id j"]
    by (intro drain_one_eq) (auto simp: pool_inv_def range_inv_def flight_inv_def live_def)
  also have "drained_one ?r j = ?q\<lparr>bp_jobs := rest, bp_next_unclaimed := bp_next_unclaimed ?q - length fin\<rparr>"
    by (simp add: drained_one_def pop_job_def)
  finally show ?case
    using Cons.IH [OF q] js Cons.prems(3) by simp
qed

lemma pool_inv_drained_all:
  "pool_inv p \<Longrightarrow> bp_jobs p = fin @ rest \<Longrightarrow> \<forall>j \<in> set fin. job_done j \<Longrightarrow>
     pool_inv (drained p fin) \<and> bp_jobs (drained p fin) = rest"
proof (induction fin arbitrary: p)
  case (Cons j fin)
  then show ?case using pool_inv_drained [of p j "fin @ rest"] by simp
qed simp

lemma drain_migrations_eq:
  assumes inv: "pool_inv p"
  shows "drain_migrations p = Inr (drained p (takeWhile job_done (bp_jobs p)))"
proof -
  let ?f = "takeWhile job_done (bp_jobs p)"
  have "length ?f \<le> bp_next_unclaimed p"
  proof (rule ccontr)
    assume "\<not> ?thesis"
    then have lt: "bp_next_unclaimed p < length ?f" by simp
    then have "bp_next_unclaimed p < length (bp_jobs p)"
      using length_takeWhile_le [of job_done "bp_jobs p"] by linarith
    then have "\<not> job_done (bp_jobs p ! bp_next_unclaimed p)"
      using inv by (simp add: pool_inv_def queue_inv_def)
    moreover have "job_done (?f ! bp_next_unclaimed p)"
      using lt by (metis nth_mem set_takeWhileD)
    ultimately show False using lt by (simp add: takeWhile_nth)
  qed
  moreover have "bp_next_unclaimed p < 2 ^ 64"
    using inv jobs_bounded [OF inv] by (auto simp: pool_inv_def queue_inv_def)
  ultimately have "sub64 (bp_next_unclaimed p) (length ?f) = bp_next_unclaimed p - length ?f"
    by (metis sub64_u64 u64_small diff_le_self le_less_trans)
  then show ?thesis
    using drain_loop [OF inv, of ?f "dropWhile job_done (bp_jobs p)"]
    by (auto simp: drain_migrations_def Let_def dest: set_takeWhileD)
qed

lemma drain_migrations_ok:
  assumes "pool_inv p"
  obtains p' where "drain_migrations p = Inr p'" and "pool_inv p'"
    and "bp_jobs p' = dropWhile job_done (bp_jobs p)"
  using drain_migrations_eq [OF assms]
    pool_inv_drained_all [OF assms, of "takeWhile job_done (bp_jobs p)" "dropWhile job_done (bp_jobs p)"]
  by (auto dest: set_takeWhileD)

subsection \<open>migrate\<close>

definition moved_pool :: "BlockPool \<Rightarrow> BlockId \<Rightarrow> nat \<Rightarrow> BlockPool" where
  "moved_pool p b dst =
     p\<lparr>bp_tiers := pushed (pop_free (bp_tiers p) dst) (loc_tier (bp_location p ! b))
                                                     (loc_slot (bp_location p ! b)),
       bp_location := (bp_location p)[b := \<lparr>loc_tier = dst,
                                            loc_slot = last (ts_free (bp_tiers p ! dst))\<rparr>]\<rparr>"

lemma copy_block_frame:
  "copy_block p src dst n = Inr p' \<Longrightarrow> \<exists>m c. p' = p\<lparr>bp_mem := m, bp_bounce := c\<rparr>"
  by (rule exI [of _ "bp_mem p'"], rule exI [of _ "bp_bounce p'"])
    (auto simp: copy_block_def result_simps split: if_splits)

text \<open>The outcomes of a synchronous migration.\<close>

lemma migrate_cases:
  assumes inv: "pool_inv p" and res: "migrate p b dst = Inr (r, p')"
  shows "live p b" and "dst < length (bp_tiers p)"
    and "(r \<and> loc_tier (bp_location p ! b) = dst \<and> p' = cancelled_pool p b)
       \<or> (\<not> r \<and> loc_tier (bp_location p ! b) \<noteq> dst \<and> ts_free (bp_tiers p ! dst) = []
            \<and> p' = cancelled_pool p b)
       \<or> (r \<and> loc_tier (bp_location p ! b) \<noteq> dst \<and> ts_free (bp_tiers p ! dst) \<noteq> []
            \<and> p' = (moved_pool (cancelled_pool p b) b dst)\<lparr>bp_mem := bp_mem p', bp_bounce := bp_bounce p'\<rparr>)"
proof -
  have m: "mig_inv p" using inv by (simp add: pool_inv_def)
  have ci: "pool_inv (cancelled_pool p b)" by (rule pool_inv_cancelled [OF inv])
  show b: "live p b"
    using res locate_not_live [OF ci, of b]
    by (cases "live p b") (auto simp: migrate_def cancel_migration_eq [OF m])
  have loc: "locate (cancelled_pool p b) b = Inr (bp_location p ! b)"
    using locate_live [OF ci] b by simp
  note tl = pool_invD(3) [OF inv b]
  show "dst < length (bp_tiers p)"
    using res by (auto simp: migrate_def cancel_migration_eq [OF m] loc split: if_splits)
  then show "(r \<and> loc_tier (bp_location p ! b) = dst \<and> p' = cancelled_pool p b)
       \<or> (\<not> r \<and> loc_tier (bp_location p ! b) \<noteq> dst \<and> ts_free (bp_tiers p ! dst) = []
            \<and> p' = cancelled_pool p b)
       \<or> (r \<and> loc_tier (bp_location p ! b) \<noteq> dst \<and> ts_free (bp_tiers p ! dst) \<noteq> []
            \<and> p' = (moved_pool (cancelled_pool p b) b dst)\<lparr>bp_mem := bp_mem p', bp_bounce := bp_bounce p'\<rparr>)"
    using res tl
    by (auto simp: migrate_def cancel_migration_eq [OF m] loc Let_def result_simps push_free_eq
        moved_pool_def dest!: copy_block_frame split: if_splits)
qed

lemma pool_inv_mem [simp]: "pool_inv (p\<lparr>bp_mem := m, bp_bounce := c\<rparr>) \<longleftrightarrow> pool_inv p"
  by (simp add: pool_inv_defs tier_slots_def live_def)


lemma moved_pool_simps [simp]:
  "bp_refcount (moved_pool p b dst) = bp_refcount p" "bp_free_ids (moved_pool p b dst) = bp_free_ids p"
  "bp_jobs (moved_pool p b dst) = bp_jobs p" "bp_mem (moved_pool p b dst) = bp_mem p"
  "bp_cfg (moved_pool p b dst) = bp_cfg p" "bp_workers (moved_pool p b dst) = bp_workers p"
  "bp_next_unclaimed (moved_pool p b dst) = bp_next_unclaimed p"
  "bp_next_ptr (moved_pool p b dst) = bp_next_ptr p" "bp_stopping (moved_pool p b dst) = bp_stopping p"
  "bp_migrating (moved_pool p b dst) = bp_migrating p"
  "bp_location (moved_pool p b dst) = (bp_location p)[b := \<lparr>loc_tier = dst,
                                            loc_slot = last (ts_free (bp_tiers p ! dst))\<rparr>]"
  "bp_tiers (moved_pool p b dst) = pushed (pop_free (bp_tiers p) dst) (loc_tier (bp_location p ! b))
                                                     (loc_slot (bp_location p ! b))"
  by (simp_all add: moved_pool_def)

lemma live_moved [simp]: "live (moved_pool p b dst) c \<longleftrightarrow> live p c"
  by (simp add: live_def)

lemma pool_inv_moved:
  assumes inv: "pool_inv p" and b: "live p b" and dst: "dst < length (bp_tiers p)"
    and free: "ts_free (bp_tiers p ! dst) \<noteq> []" and nomig: "\<not> migrating p b"
  shows "pool_inv (moved_pool p b dst)"
proof -
  let ?q = "moved_pool p b dst" and ?l = "bp_location p ! b"
  have bl: "b < length (bp_location p)" "0 < bp_refcount p ! b" using b by (auto simp: live_def)
  have tl: "loc_tier ?l < length (pop_free (bp_tiers p) dst)" using pool_invD(3) [OF inv b] by simp
  have m: "mig_inv p" using inv by (simp add: pool_inv_def)
  have "tier_slots ?q t = tier_slots p t" for t
    using bl free_pushed [OF tl, of "loc_slot ?l" t] free_pop_free [OF dst free, of t]
      live_slots_update_loc [OF bl(1) pool_invD(1) [OF inv],
        of "\<lparr>loc_tier = dst, loc_slot = last (ts_free (bp_tiers p ! dst))\<rparr>" t]
    by (auto simp: tier_slots_def slot_at_def)
  then have "slots_inv ?q" by (intro slots_invI [OF pool_inv_slots [OF inv]]) simp_all
  moreover have "ids_inv ?q" "range_inv ?q" "queue_inv ?q" "mig_inv ?q"
    using inv dst bl
    by (auto simp: pool_inv_def ids_inv_def range_inv_def queue_inv_def mig_inv_def nth_list_update)
  moreover have "b \<noteq> job_id j" if "j \<in> set (bp_jobs p)" "\<not> job_cancelled j" for j
    using nomig migrating_iff [OF m] that by auto
  then have "flight_inv ?q" using inv by (auto simp: pool_inv_def flight_inv_def)
  ultimately show ?thesis by (simp add: pool_inv_def)
qed

lemma pool_inv_migrate:
  assumes inv: "pool_inv p" and res: "migrate p b dst = Inr (r, p')"
  shows "pool_inv p'" and "bp_refcount p' = bp_refcount p" and "live p' c \<longleftrightarrow> live p c"
    and "r \<Longrightarrow> loc_tier (bp_location p' ! b) = dst"
    and "c \<noteq> b \<or> \<not> r \<Longrightarrow> bp_location p' ! c = bp_location p ! c"
    and "\<not> migrating p' b" and "bp_free_ids p' = bp_free_ids p"
proof -
  let ?c = "cancelled_pool p b"
  have m: "mig_inv p" using inv by (simp add: pool_inv_def)
  note cases = migrate_cases [OF inv res]
  have ci: "pool_inv ?c" by (rule pool_inv_cancelled [OF inv])
  have nm: "\<not> migrating ?c b" using not_migrating_cancelled [OF m] by simp
  have mv: "pool_inv (moved_pool ?c b dst)" if "ts_free (bp_tiers p ! dst) \<noteq> []"
    by (rule pool_inv_moved [OF ci _ _ _ nm]) (use cases(1,2) that in simp_all)
  have bl: "b < length (bp_location p)" using cases(1) by (simp add: live_def)
  have shape: "p' = ?c \<or> (\<exists>m c. p' = (moved_pool ?c b dst)\<lparr>bp_mem := m, bp_bounce := c\<rparr>)"
    using cases(3) by blast
  consider (stay) "p' = ?c" "r \<longleftrightarrow> loc_tier (bp_location p ! b) = dst"
    | (move) m c where "p' = (moved_pool ?c b dst)\<lparr>bp_mem := m, bp_bounce := c\<rparr>"
        "ts_free (bp_tiers p ! dst) \<noteq> []"
    using cases(3) by blast
  then have "pool_inv p' \<and> bp_refcount p' = bp_refcount p \<and> (live p' c \<longleftrightarrow> live p c)
    \<and> (r \<longrightarrow> loc_tier (bp_location p' ! b) = dst) \<and> \<not> migrating p' b \<and> bp_free_ids p' = bp_free_ids p"
  proof cases
    case stay
    then show ?thesis using ci nm by simp
  next
    case (move m c)
    then show ?thesis using mv nm bl by (simp add: migrating_def live_def)
  qed
  then show "pool_inv p'" "bp_refcount p' = bp_refcount p" "live p' c \<longleftrightarrow> live p c"
    "r \<Longrightarrow> loc_tier (bp_location p' ! b) = dst" "\<not> migrating p' b" "bp_free_ids p' = bp_free_ids p"
    by simp_all
  show "bp_location p' ! c = bp_location p ! c" if "c \<noteq> b \<or> \<not> r"
  proof (cases r)
    case False
    then show ?thesis using cases(3) by auto
  next
    case True
    with that have "b \<noteq> c" by simp
    then show ?thesis
      using shape by auto
  qed
qed

end
