(* ===== verification/Pool_Memory.thy ===== *)
theory Pool_Memory
  imports Pool_Migration
begin

section \<open>The block pool: storage\<close>

text \<open>
  What slot conservation means for the bytes. \<open>content p b\<close> is what a kernel reads through
  \<^verbatim>\<open>block_data(b)\<close>. Distinct owners never overlap, so a synchronous migration changes the
  content of no block at all, and cannot leave an arena.
\<close>

subsection \<open>Addresses and bytes\<close>

definition bytes_at :: "memory \<Rightarrow> addr \<Rightarrow> nat \<Rightarrow> byte list" where
  "bytes_at m a n = take n (drop (snd a) (the (ht_arena (m ! fst a))))"

definition stored :: "memory \<Rightarrow> addr \<Rightarrow> byte list \<Rightarrow> memory" where
  "stored m a bs = m[fst a := (m ! fst a)\<lparr>ht_arena :=
     Some (splice (the (ht_arena (m ! fst a))) (snd a) bs)\<rparr>]"

definition valid_range :: "memory \<Rightarrow> addr \<Rightarrow> nat \<Rightarrow> bool" where
  "valid_range m a n \<longleftrightarrow> fst a < length m \<and> tier_ok (m ! fst a) \<and> snd a + n \<le> ht_capacity (m ! fst a)"

definition slot_addr :: "BlockPool \<Rightarrow> nat \<Rightarrow> nat \<Rightarrow> addr" where
  "slot_addr p t s = (ts_tier (bp_tiers p ! t), s * block_bytes (bp_cfg p))"

definition content :: "BlockPool \<Rightarrow> BlockId \<Rightarrow> byte list" where
  "content p b = (let l = bp_location p ! b in
     bytes_at (bp_mem p) (slot_addr p (loc_tier l) (loc_slot l)) (block_bytes (bp_cfg p)))"

lemma mem_load_eq: "valid_range m a n \<Longrightarrow> mem_load m a n = Inr (bytes_at m a n)"
  by (simp add: mem_load_def valid_range_def arena_load_ok bytes_at_def)

lemma mem_store_eq: "valid_range m a (length bs) \<Longrightarrow> mem_store m a bs = Inr (stored m a bs)"
  by (simp add: mem_store_def valid_range_def arena_store_ok stored_def)

lemma length_bytes_at: "valid_range m a n \<Longrightarrow> length (bytes_at m a n) = n"
  by (auto simp: bytes_at_def valid_range_def tier_ok_arena min_def)

lemma memcpy_eq:
  "valid_range m dst n \<Longrightarrow> valid_range m src n \<Longrightarrow> \<not> overlap dst n src n \<Longrightarrow>
     memcpy m dst src n = Inr (stored m dst (bytes_at m src n))"
  by (simp add: memcpy_def mem_load_eq mem_store_eq length_bytes_at)

lemma valid_range_stored [simp]:
  assumes "valid_range m a (length bs)"
  shows "valid_range (stored m a bs) b n \<longleftrightarrow> valid_range m b n"
proof -
  have "length (splice (the (ht_arena (m ! fst a))) (snd a) bs) = ht_capacity (m ! fst a)"
    using assms by (simp add: valid_range_def tier_ok_arena)
  then show ?thesis
    using assms
    by (auto simp: valid_range_def stored_def nth_list_update tier_ok_def split: option.splits)
qed

lemma bytes_at_stored_same:
  "valid_range m a (length bs) \<Longrightarrow> bytes_at (stored m a bs) a (length bs) = bs"
  by (simp add: bytes_at_def stored_def valid_range_def tier_ok_arena)

lemma bytes_at_stored_other:
  assumes "valid_range m a (length bs)" and "\<not> overlap a (length bs) b n"
  shows "bytes_at (stored m a bs) b n = bytes_at m b n"
proof (cases "fst a = fst b")
  case False
  then show ?thesis by (simp add: bytes_at_def stored_def)
next
  case True
  have fit: "snd a + length bs \<le> length (the (ht_arena (m ! fst a)))" "fst a < length m"
    using assms(1) by (simp_all add: valid_range_def tier_ok_arena)
  have "snd b + n \<le> snd a \<or> snd a + length bs \<le> snd b"
    using assms(2) True by (auto simp: overlap_def not_less)
  then show ?thesis
    using True fit by (auto simp: bytes_at_def stored_def splice_before splice_after)
qed

lemma overlap_sym: "overlap a n b m \<longleftrightarrow> overlap b m a n"
  by (auto simp: overlap_def)

subsection \<open>Owners of slots are disjoint\<close>

lemma slot_bound:
  "pool_inv p \<Longrightarrow> t < length (bp_tiers p) \<Longrightarrow> s \<in># tier_slots p t \<Longrightarrow> s < ts_num_blocks (bp_tiers p ! t)"
  by (simp add: pool_invD(4))

lemma live_slot_in_tier:
  assumes "pool_inv p" and "live p b"
  shows "loc_slot (bp_location p ! b) \<in># live_slots (bp_refcount p) (bp_location p) (loc_tier (bp_location p ! b))"
    and "loc_slot (bp_location p ! b) \<in># tier_slots p (loc_tier (bp_location p ! b))"
  using assms live_slot_mem [of b "bp_location p" "bp_refcount p"] pool_invD(1) [OF assms(1)]
  by (auto simp: live_def tier_slots_def)

lemma job_slot_in_tier:
  assumes "j \<in> set (bp_jobs p)"
  shows "job_dst_slot j \<in># job_slots (bp_jobs p) (job_dst_tier j)"
    and "job_dst_slot j \<in># tier_slots p (job_dst_tier j)"
  using assms by (auto simp: job_slots_def tier_slots_def)

lemma tier_slots_once:
  assumes "pool_inv p" and "t < length (bp_tiers p)"
  shows "count (mset (ts_free (bp_tiers p ! t))) s
       + count (live_slots (bp_refcount p) (bp_location p) t) s
       + count (job_slots (bp_jobs p) t) s \<le> 1"
  using tier_slots_count [OF assms, of s] by (simp add: tier_slots_def split: if_splits)

lemma two_owners:
  assumes "count A x + count B x + count C x \<le> 1"
  shows "x \<in># A \<Longrightarrow> x \<in># B \<Longrightarrow> False" and "x \<in># B \<Longrightarrow> x \<in># C \<Longrightarrow> False"
    and "x \<in># A \<Longrightarrow> x \<in># C \<Longrightarrow> False"
proof -
  have pos: "x \<in># M \<Longrightarrow> 1 \<le> count M x" for M by (simp add: Suc_le_eq)
  show "x \<in># A \<Longrightarrow> x \<in># B \<Longrightarrow> False" using assms pos [of A] pos [of B] by linarith
  show "x \<in># B \<Longrightarrow> x \<in># C \<Longrightarrow> False" using assms pos [of B] pos [of C] by linarith
  show "x \<in># A \<Longrightarrow> x \<in># C \<Longrightarrow> False" using assms pos [of A] pos [of C] by linarith
qed

lemma live_locations_distinct:
  assumes inv: "pool_inv p" and b: "live p b" and c: "live p c" and "b \<noteq> c"
  shows "bp_location p ! b \<noteq> bp_location p ! c"
proof
  assume eq: "bp_location p ! b = bp_location p ! c"
  let ?t = "loc_tier (bp_location p ! b)" and ?s = "loc_slot (bp_location p ! b)"
  let ?R = "bp_refcount p" and ?L = "bp_location p"
  note len = pool_invD(1) [OF inv]
  have bl: "b < length ?L" "0 < ?R ! b" and cl: "c < length ?L" "0 < ?R ! c"
    using b c by (auto simp: live_def)
  have "live_slots ?R ?L ?t = live_slots (?R[b := 0]) ?L ?t + {#?s#}"
    using live_slots_update_ref [OF bl(1) len, of 0 ?t] bl(2) by (simp add: slot_at_def)
  moreover have "?s \<in># live_slots (?R[b := 0]) ?L ?t"
    using live_slot_mem [of c ?L "?R[b := 0]"] cl len \<open>b \<noteq> c\<close> eq by simp
  ultimately have "2 \<le> count (live_slots ?R ?L ?t) ?s"
    by (simp add: Suc_le_eq count_greater_zero_iff numeral_2_eq_2)
  then show False using tier_slots_once [OF inv pool_invD(3) [OF inv b], of ?s] by simp
qed

lemma free_slot_not_live:
  assumes inv: "pool_inv p" and b: "live p b" and "s \<in> set (ts_free (bp_tiers p ! t))"
    and t: "t < length (bp_tiers p)"
  shows "bp_location p ! b \<noteq> \<lparr>loc_tier = t, loc_slot = s\<rparr>"
proof
  assume "bp_location p ! b = \<lparr>loc_tier = t, loc_slot = s\<rparr>"
  then have "s \<in># live_slots (bp_refcount p) (bp_location p) t"
    using live_slot_in_tier(1) [OF inv b] by simp
  moreover have "s \<in># mset (ts_free (bp_tiers p ! t))" using assms(3) by simp
  ultimately show False by (rule two_owners(1) [OF tier_slots_once [OF inv t], rotated])
qed

lemma job_slot_not_live:
  assumes inv: "pool_inv p" and b: "live p b" and j: "j \<in> set (bp_jobs p)"
  shows "bp_location p ! b \<noteq> \<lparr>loc_tier = job_dst_tier j, loc_slot = job_dst_slot j\<rparr>"
proof
  assume "bp_location p ! b = \<lparr>loc_tier = job_dst_tier j, loc_slot = job_dst_slot j\<rparr>"
  then have "job_dst_slot j \<in># live_slots (bp_refcount p) (bp_location p) (job_dst_tier j)"
    using live_slot_in_tier(1) [OF inv b] by simp
  from this job_slot_in_tier(1) [OF j] show False
    by (rule two_owners(2) [OF tier_slots_once [OF inv pool_invD(7) [OF inv j]]])
qed

lemma job_slot_not_free:
  assumes inv: "pool_inv p" and j: "j \<in> set (bp_jobs p)"
  shows "job_dst_slot j \<notin> set (ts_free (bp_tiers p ! job_dst_tier j))"
proof
  assume "job_dst_slot j \<in> set (ts_free (bp_tiers p ! job_dst_tier j))"
  then have "job_dst_slot j \<in># mset (ts_free (bp_tiers p ! job_dst_tier j))" by simp
  from this job_slot_in_tier(1) [OF j] show False
    by (rule two_owners(3) [OF tier_slots_once [OF inv pool_invD(7) [OF inv j]]])
qed

subsection \<open>Slot addresses\<close>

lemma slot_addr_valid:
  assumes mem: "mem_inv p" and t: "t < length (bp_tiers p)" and s: "s < ts_num_blocks (bp_tiers p ! t)"
  shows "valid_range (bp_mem p) (slot_addr p t s) (block_bytes (bp_cfg p))"
    and "s * block_bytes (bp_cfg p) < 2 ^ 64"
proof -
  let ?B = "block_bytes (bp_cfg p)"
  have "s * ?B + ?B \<le> ts_num_blocks (bp_tiers p ! t) * ?B"
    using s mult_le_mono1 [of "Suc s" "ts_num_blocks (bp_tiers p ! t)" ?B] by simp
  then have le: "s * ?B + ?B \<le> ht_capacity (bp_mem p ! ts_tier (bp_tiers p ! t))"
    using mem_invD(3) [OF mem t] by linarith
  then show "valid_range (bp_mem p) (slot_addr p t s) ?B"
    using mem_invD(1,2) [OF mem t] by (simp add: valid_range_def slot_addr_def)
  show "s * ?B < 2 ^ 64"
    using le mem_invD(2) [OF mem t] by (auto simp: tier_ok_def)
qed

lemma slot_addr_disjoint:
  assumes mem: "mem_inv p" and "t < length (bp_tiers p)" and "t' < length (bp_tiers p)"
    and "(t, s) \<noteq> (t', s')"
  shows "\<not> overlap (slot_addr p t s) (block_bytes (bp_cfg p)) (slot_addr p t' s') (block_bytes (bp_cfg p))"
proof (cases "t = t'")
  case False
  then show ?thesis using mem_invD(4) [OF assms(1,2,3)] by (simp add: overlap_def slot_addr_def)
next
  case True
  let ?B = "block_bytes (bp_cfg p)"
  from True assms(4) consider "Suc s \<le> s'" | "Suc s' \<le> s" by force
  then show ?thesis
  proof cases
    case 1
    then have "Suc s * ?B \<le> s' * ?B" by (rule mult_le_mono1)
    then show ?thesis by (simp add: overlap_def slot_addr_def)
  next
    case 2
    then have "Suc s' * ?B \<le> s * ?B" by (rule mult_le_mono1)
    then show ?thesis by (simp add: overlap_def slot_addr_def)
  qed
qed


subsection \<open>migrate moves the bytes\<close>

lemma mem_inv_frame:
  assumes "mem_inv p" and "map ts_tier (bp_tiers p') = map ts_tier (bp_tiers p)"
    and "map ts_num_blocks (bp_tiers p') = map ts_num_blocks (bp_tiers p)"
    and "bp_mem p' = bp_mem p" and "bp_cfg p' = bp_cfg p"
  shows "mem_inv p'"
proof -
  have len: "length (bp_tiers p') = length (bp_tiers p)" using assms(2) by (metis length_map)
  have nth: "ts_tier (bp_tiers p' ! t) = ts_tier (bp_tiers p ! t)"
    "ts_num_blocks (bp_tiers p' ! t) = ts_num_blocks (bp_tiers p ! t)" if "t < length (bp_tiers p)" for t
    using static_nth [OF assms(2) that] static_nth [OF assms(3) that] by auto
  have "\<forall>t < length (bp_tiers p'). ts_tier (bp_tiers p' ! t) < length (bp_mem p')
      \<and> tier_ok (bp_mem p' ! ts_tier (bp_tiers p' ! t))
      \<and> ts_num_blocks (bp_tiers p' ! t) * block_bytes (bp_cfg p') \<le> ht_capacity (bp_mem p' ! ts_tier (bp_tiers p' ! t))"
    using nth mem_invD(1,2,3) [OF assms(1)] assms(4,5) len by simp
  then show ?thesis using assms(1,2) by (simp add: mem_inv_def all_set_conv_all_nth)
qed

lemma mem_inv_stored:
  assumes "mem_inv p" and "valid_range (bp_mem p) a (length bs)"
  shows "mem_inv (p\<lparr>bp_mem := stored (bp_mem p) a bs\<rparr>)"
proof -
  have "tier_ok (stored (bp_mem p) a bs ! t) \<and> ht_capacity (stored (bp_mem p) a bs ! t) = ht_capacity (bp_mem p ! t)"
    if "tier_ok (bp_mem p ! t)" for t
    using assms(2) that tier_ok_arena [of "bp_mem p ! t"]
    by (cases "t = fst a") (auto simp: stored_def valid_range_def intro!: tier_ok_store)
  then show ?thesis using assms(1) by (simp add: mem_inv_def stored_def)
qed

lemma slot_addr_frame:
  "map ts_tier (bp_tiers p') = map ts_tier (bp_tiers p) \<Longrightarrow> bp_cfg p' = bp_cfg p \<Longrightarrow>
     t < length (bp_tiers p) \<Longrightarrow> slot_addr p' t s = slot_addr p t s"
  using static_nth [of ts_tier "bp_tiers p'" "bp_tiers p" t] by (simp add: slot_addr_def)

lemma content_at:
  "bp_location q ! b = \<lparr>loc_tier = t, loc_slot = s\<rparr> \<Longrightarrow>
     content q b = bytes_at (bp_mem q) (slot_addr q t s) (block_bytes (bp_cfg q))"
  by (simp add: content_def)

lemma live_addr_valid:
  assumes "pool_inv p" and "mem_inv p" and "live p b"
  shows "valid_range (bp_mem p) (slot_addr p (loc_tier (bp_location p ! b)) (loc_slot (bp_location p ! b)))
           (block_bytes (bp_cfg p))"
    and "loc_slot (bp_location p ! b) * block_bytes (bp_cfg p) < 2 ^ 64"
  using slot_addr_valid [OF assms(2) pool_invD(3) [OF assms(1,3)]
      slot_bound [OF assms(1) pool_invD(3) [OF assms(1,3)] live_slot_in_tier(2) [OF assms(1,3)]]] .

lemma free_addr_valid:
  assumes inv: "pool_inv p" and mem: "mem_inv p" and t: "t < length (bp_tiers p)"
    and s: "s \<in> set (ts_free (bp_tiers p ! t))"
  shows "valid_range (bp_mem p) (slot_addr p t s) (block_bytes (bp_cfg p))"
    and "s * block_bytes (bp_cfg p) < 2 ^ 64"
proof -
  have "s \<in># tier_slots p t" using s by (simp add: tier_slots_def)
  then have "s < ts_num_blocks (bp_tiers p ! t)" by (rule slot_bound [OF inv t])
  from slot_addr_valid [OF mem t this]
  show "valid_range (bp_mem p) (slot_addr p t s) (block_bytes (bp_cfg p))"
    "s * block_bytes (bp_cfg p) < 2 ^ 64" .
qed

lemma host_data_ok: "tier_ok t \<Longrightarrow> host_data t"
  by (auto simp: tier_ok_def host_data_def split: option.splits)

lemma copy_block_eq:
  assumes "valid_range (bp_mem p) src n" and "valid_range (bp_mem p) dst n" and "\<not> overlap dst n src n"
  shows "copy_block p src dst n = Inr (p\<lparr>bp_mem := stored (bp_mem p) dst (bytes_at (bp_mem p) src n)\<rparr>)"
  using assms memcpy_eq [OF assms(2,1,3)]
  by (simp add: copy_block_def valid_range_def host_data_ok)

lemma migrate_eq:
  assumes inv: "pool_inv p" and mem: "mem_inv p" and b: "live p b" and dst: "dst < length (bp_tiers p)"
  shows "migrate p b dst =
    (if loc_tier (bp_location p ! b) = dst then Inr (True, cancelled_pool p b)
     else if ts_free (bp_tiers p ! dst) = [] then Inr (False, cancelled_pool p b)
     else Inr (True, (moved_pool (cancelled_pool p b) b dst)
            \<lparr>bp_mem := stored (bp_mem p) (slot_addr p dst (last (ts_free (bp_tiers p ! dst)))) (content p b)\<rparr>))"
proof -
  let ?c = "cancelled_pool p b" and ?l = "bp_location p ! b"
  let ?s = "last (ts_free (bp_tiers p ! dst))"
  have m: "mig_inv p" using inv by (simp add: pool_inv_def)
  have loc: "locate ?c b = Inr ?l" using locate_live [OF pool_inv_cancelled [OF inv]] b by simp
  have tl: "loc_tier ?l < length (bp_tiers p)" using pool_invD(3) [OF inv b] .
  have pop: "ts_tier (pop_free (bp_tiers p) dst ! t) = ts_tier (bp_tiers p ! t)"
    if "t < length (bp_tiers p)" for t
    using that by (intro static_nth) simp_all
  show ?thesis
  proof (cases "loc_tier ?l = dst \<or> ts_free (bp_tiers p ! dst) = []")
    case True
    then show ?thesis using dst by (auto simp: migrate_def cancel_migration_eq [OF m] loc)
  next
    case False
    then have ne: "loc_tier ?l \<noteq> dst" and free: "?s \<in> set (ts_free (bp_tiers p ! dst))" by auto
    have "copy_block (?c\<lparr>bp_tiers := pop_free (bp_tiers p) dst\<rparr>)
        (slot_addr p (loc_tier ?l) (loc_slot ?l)) (slot_addr p dst ?s) (block_bytes (bp_cfg p))
      = Inr (?c\<lparr>bp_tiers := pop_free (bp_tiers p) dst,
             bp_mem := stored (bp_mem p) (slot_addr p dst ?s) (content p b)\<rparr>)"
      using live_addr_valid(1) [OF inv mem b] free_addr_valid(1) [OF inv mem dst free]
        slot_addr_disjoint [OF mem dst tl, of ?s "loc_slot ?l"] ne
      by (simp add: copy_block_eq content_def Let_def)
    then show ?thesis
      using False dst tl live_addr_valid(2) [OF inv mem b] free_addr_valid(2) [OF inv mem dst free]
      by (simp add: migrate_def cancel_migration_eq [OF m] loc Let_def push_free_eq
          moved_pool_def slot_addr_def u64_small)
  qed
qed

lemma mem_inv_cancelled [simp]: "mem_inv (cancelled_pool p b) \<longleftrightarrow> mem_inv p"
  by (simp add: mem_inv_def)

lemma content_cancelled [simp]: "content (cancelled_pool p b) c = content p c"
  by (simp add: content_def slot_addr_def Let_def)

text \<open>A block's bytes do not depend on anything stored in a slot the block does not occupy.\<close>

lemma content_stored_other:
  assumes inv: "pool_inv p" and mem: "mem_inv p" and c: "live p c" and t: "t < length (bp_tiers p)"
    and s: "s < ts_num_blocks (bp_tiers p ! t)" and len: "length bs = block_bytes (bp_cfg p)"
    and ne: "bp_location p ! c \<noteq> \<lparr>loc_tier = t, loc_slot = s\<rparr>"
  shows "content (p\<lparr>bp_mem := stored (bp_mem p) (slot_addr p t s) bs\<rparr>) c = content p c"
proof -
  let ?l = "bp_location p ! c"
  have "(t, s) \<noteq> (loc_tier ?l, loc_slot ?l)" using ne by auto
  then show ?thesis
    using bytes_at_stored_other [of "bp_mem p" "slot_addr p t s" bs]
      slot_addr_valid(1) [OF mem t s] slot_addr_disjoint [OF mem t pool_invD(3) [OF inv c]] len
    by (simp add: content_def Let_def slot_addr_def)
qed

lemma migrate_content:
  assumes inv: "pool_inv p" and mem: "mem_inv p" and b: "live p b" and dst: "dst < length (bp_tiers p)"
  obtains r p' where "migrate p b dst = Inr (r, p')" and "pool_inv p'" and "mem_inv p'"
    and "r \<longleftrightarrow> loc_tier (bp_location p ! b) = dst \<or> ts_free (bp_tiers p ! dst) \<noteq> []"
    and "\<And>c. live p c \<Longrightarrow> content p' c = content p c"
proof (cases "loc_tier (bp_location p ! b) = dst \<or> ts_free (bp_tiers p ! dst) = []")
  case True
  show thesis
    by (rule that [of "loc_tier (bp_location p ! b) = dst" "cancelled_pool p b"])
      (use True in \<open>auto simp: migrate_eq [OF assms] pool_inv_cancelled [OF inv] mem\<close>)
next
  case False
  let ?s = "last (ts_free (bp_tiers p ! dst))" and ?B = "block_bytes (bp_cfg p)"
  let ?c = "cancelled_pool p b" and ?l = "bp_location p ! b"
  let ?m = "stored (bp_mem p) (slot_addr p dst ?s) (content p b)"
  let ?p = "(moved_pool ?c b dst)\<lparr>bp_mem := ?m\<rparr>"
  have eq: "migrate p b dst = Inr (True, ?p)" using False by (simp add: migrate_eq [OF assms])
  have free: "?s \<in> set (ts_free (bp_tiers p ! dst))" using False by simp
  have s: "?s < ts_num_blocks (bp_tiers p ! dst)"
    using free by (intro slot_bound [OF inv dst]) (simp add: tier_slots_def)
  have bl: "b < length (bp_location p)" using b by (simp add: live_def)
  have tl: "loc_tier ?l < length (bp_tiers p)" using pool_invD(3) [OF inv b] .
  have lenb: "length (content p b) = ?B"
    using length_bytes_at [OF live_addr_valid(1) [OF inv mem b]] by (simp add: content_def Let_def)
  have vr: "valid_range (bp_mem p) (slot_addr p dst ?s) (length (content p b))"
    using slot_addr_valid(1) [OF mem dst s] lenb by simp
  have tt: "ts_tier (bp_tiers ?p ! t) = ts_tier (bp_tiers p ! t)" if "t < length (bp_tiers p)" for t
    using that by (intro static_nth) simp_all
  have "mem_inv ?p"
    by (rule mem_inv_frame [OF mem_inv_stored [OF mem vr]]) simp_all
  moreover have "content ?p c = content p c" if c: "live p c" for c
  proof (cases "c = b")
    case True
    have "content ?p b = bytes_at ?m (slot_addr ?p dst ?s) ?B"
      using content_at [of ?p b dst ?s] bl by simp
    also have "slot_addr ?p dst ?s = slot_addr p dst ?s"
      by (rule slot_addr_frame) (use dst in simp_all)
    finally show ?thesis using True bytes_at_stored_same [OF vr] lenb by simp
  next
    case False
    have "content (p\<lparr>bp_mem := ?m\<rparr>) c = content p c"
      by (rule content_stored_other [OF inv mem c dst s lenb]) (rule free_slot_not_live [OF inv c free dst])
    then show ?thesis
      using False tt [OF pool_invD(3) [OF inv c]] by (simp add: content_def Let_def slot_addr_def)
  qed
  ultimately show thesis
    by (intro that [OF eq pool_inv_migrate(1) [OF inv eq]]) (use False in auto)
qed


subsection \<open>Construction establishes the invariants\<close>

definition tier_of_spec :: "TierSpec \<Rightarrow> TierState" where
  "tier_of_spec spec = \<lparr>ts_tier = the (spec_tier spec), ts_num_blocks = spec_num_blocks spec,
                        ts_free = map u32 (rev [0..<spec_num_blocks spec])\<rparr>"

text \<open>What a caller owes a multi-tier pool: existing, distinct tiers, each large enough.\<close>

definition specs_ok :: "memory \<Rightarrow> CacheConfig \<Rightarrow> TierSpec list \<Rightarrow> bool" where
  "specs_ok m c specs \<longleftrightarrow> specs \<noteq> [] \<and> distinct (map spec_tier specs)
     \<and> (\<forall>spec \<in> set specs. case spec_tier spec of
          None \<Rightarrow> False
        | Some ptr \<Rightarrow> ptr < length m \<and> tier_ok (m ! ptr)
            \<and> spec_num_blocks spec * block_bytes c \<le> ht_capacity (m ! ptr))
     \<and> sum_list (map spec_num_blocks specs) < 2 ^ 32"

lemma init_tier_eq:
  "spec_tier spec = Some ptr \<Longrightarrow> ptr < length m \<Longrightarrow>
     spec_num_blocks spec * block_bytes c \<le> ht_capacity (m ! ptr) \<Longrightarrow>
     init_tier c m spec acc = Inr (fst acc @ [tier_of_spec spec], u64 (snd acc + spec_num_blocks spec))"
  using u64_le [of "spec_num_blocks spec * block_bytes c" "ht_capacity (m ! ptr)"]
  by (simp add: init_tier_def tier_of_spec_def capacity_bytes_def)

lemma init_tiers_eq:
  assumes "\<forall>spec \<in> set specs. case spec_tier spec of None \<Rightarrow> False
        | Some ptr \<Rightarrow> ptr < length m \<and> tier_ok (m ! ptr)
            \<and> spec_num_blocks spec * block_bytes c \<le> ht_capacity (m ! ptr)"
  shows "foldE (init_tier c m) specs (acc, u64 n)
       = Inr (acc @ map tier_of_spec specs, u64 (n + sum_list (map spec_num_blocks specs)))"
  using assms
proof (induction specs arbitrary: acc n)
  case Nil
  then show ?case by simp
next
  case (Cons spec specs)
  from Cons.prems obtain ptr where ptr: "spec_tier spec = Some ptr" "ptr < length m"
    "spec_num_blocks spec * block_bytes c \<le> ht_capacity (m ! ptr)"
    by (auto split: option.splits)
  then show ?case
    using Cons.IH [of "acc @ [tier_of_spec spec]" "n + spec_num_blocks spec"] Cons.prems
    by (simp add: init_tier_eq add.assoc)
qed

lemma live_slots_zero: "live_slots (replicate n 0) locs t = {#}"
proof -
  have "filter_mset (\<lambda>e. 0 < fst e \<and> loc_tier (snd e) = t) (mset (zip (replicate n (0::nat)) locs)) = {#}"
    by (auto dest!: set_zip_leftD)
  then show ?thesis by (simp add: live_slots_def)
qed

lemma map_u32_small: "n \<le> 2 ^ 32 \<Longrightarrow> map u32 (rev [0..<n]) = rev [0..<n]"
  by (intro map_idI) (auto simp: u32_small)

lemma init_free:
  "t < length specs \<Longrightarrow> sum_list (map spec_num_blocks specs) < 2 ^ 32 \<Longrightarrow>
     ts_free (map tier_of_spec specs ! t) = rev [0..<spec_num_blocks (specs ! t)]"
  using member_le_sum_list [of "spec_num_blocks (specs ! t)" "map spec_num_blocks specs"]
  by (simp add: tier_of_spec_def map_u32_small)

lemma pool_init_ok:
  assumes "specs_ok m c specs"
  obtains p where "pool_init hw m c specs = Inr p" and "pool_inv p" and "mem_inv p"
    and "bp_tiers p = map tier_of_spec specs"
    and "length (bp_location p) = sum_list (map spec_num_blocks specs)"
    and "\<And>b. \<not> live p b" and "bp_jobs p = []" and "bp_workers p = []"
    and "bp_cfg p = c" and "bp_mem p = m" and "\<not> bp_stopping p"
proof -
  let ?N = "sum_list (map spec_num_blocks specs)"
  from assms have ne: "specs \<noteq> []" and dist: "distinct (map spec_tier specs)" and lt: "?N < 2 ^ 32"
    and each: "\<forall>spec \<in> set specs. case spec_tier spec of None \<Rightarrow> False
        | Some ptr \<Rightarrow> ptr < length m \<and> tier_ok (m ! ptr)
            \<and> spec_num_blocks spec * block_bytes c \<le> ht_capacity (m ! ptr)"
    by (auto simp: specs_ok_def)
  have fold: "foldE (init_tier c m) specs ([], 0) = Inr (map tier_of_spec specs, ?N)"
    using init_tiers_eq [OF each, of "[]" 0] lt by (simp add: u64_small)
  obtain p where p: "pool_init hw m c specs = Inr p"
    and t: "bp_tiers p = map tier_of_spec specs" and l: "length (bp_location p) = ?N"
    and r: "bp_refcount p = replicate ?N 0" and f: "bp_free_ids p = rev [0..<?N]"
    and q: "bp_jobs p = []" "bp_migrating p = []" "bp_next_unclaimed p = 0" "bp_workers p = []"
      "bp_cfg p = c" "bp_mem p = m" "\<not> bp_stopping p"
    using ne fold lt map_u32_small [of ?N] by (simp add: pool_init_def)
  have nlive: "\<not> live p b" for b using l r by (simp add: live_def)
  have "slots_inv p"
    using lt l t r q init_free [of _ specs]
    by (simp add: slots_inv_def tier_slots_def live_slots_zero comp_def)
      (simp add: tier_of_spec_def)
  moreover have "ids_inv p" using l r f by (auto simp: ids_inv_def)
  moreover have "range_inv p" "mig_inv p" "flight_inv p" "queue_inv p"
    using nlive q t ne by (simp_all add: range_inv_def mig_inv_def flight_inv_def queue_inv_def)
  ultimately have "pool_inv p" by (simp add: pool_inv_def)
  moreover have "mem_inv p"
  proof -
    have "spec_tier spec \<noteq> None" if "spec \<in> set specs" for spec
      using each that by (auto split: option.splits)
    then have "inj_on the (set (map spec_tier specs))"
      by (intro inj_onI) (metis option.expand ex_map_conv set_map imageE)
    then have "distinct (map the (map spec_tier specs))" using dist
      by (simp only: distinct_map [of the "map spec_tier specs"])
    then have "distinct (map ts_tier (bp_tiers p))" by (simp add: t tier_of_spec_def comp_def)
    then show ?thesis using each t q by (auto simp: mem_inv_def tier_of_spec_def split: option.splits)
  qed
  ultimately show thesis using that [OF p] t l nlive q by blast
qed

end
