(* ===== verification/Pool_Workers.thy ===== *)
theory Pool_Workers
  imports Pool_Memory
begin

section \<open>Background copies: worker threads and their interleaving\<close>

text \<open>
  \<open>worker_step i\<close> is the next atomic action of worker \<open>i\<close> in \<^verbatim>\<open>worker_loop()\<close>: claim a job
  under the queue mutex, read its \<^verbatim>\<open>cancelled\<close> flag, copy one byte of the \<^verbatim>\<open>memcpy\<close>, store
  \<^verbatim>\<open>done\<close>. Copying byte by byte lets every scheduler operation fall in the middle of a copy,
  as it can in the program. A worker that finds nothing to do stays where it is. The
  scheduler's own operations read nothing a worker writes except the \<^verbatim>\<open>done\<close> flags (in
  \<^verbatim>\<open>drain_migrations()\<close>) and the bytes, so they are single steps between worker steps.

  \<open>workers_inv\<close> ties every busy worker to a claimed, unfinished job that it alone holds.
  \<open>copy_inv\<close> says where the jobs' pointers point and that the bytes copied so far for a job
  that is still wanted equal the source's. Together with the bookkeeping invariant they
  give: a worker never writes to storage of an allocated block, and when a job is drained
  the block's content is what it was.
\<close>

subsection \<open>Steps\<close>

definition addr_plus :: "addr \<Rightarrow> nat \<Rightarrow> addr" where
  "addr_plus a k = (fst a, snd a + k)"

definition set_worker :: "nat \<Rightarrow> worker \<Rightarrow> BlockPool \<Rightarrow> BlockPool" where
  "set_worker i w p = p\<lparr>bp_workers := (bp_workers p)[i := w]\<rparr>"

definition worker_step :: "nat \<Rightarrow> BlockPool \<Rightarrow> BlockPool result" where
  "worker_step i p = bindE (nthE (bp_workers p) i) (\<lambda>w. case w of
     Waiting \<Rightarrow>
       if bp_stopping p then Inr (set_worker i Exited p)
       else if bp_next_unclaimed p < length (bp_jobs p) then
         Inr (set_worker i (Claimed (job_ptr (bp_jobs p ! bp_next_unclaimed p)))
               (p\<lparr>bp_next_unclaimed := u64 (bp_next_unclaimed p + 1)\<rparr>))
       else Inr p
   | Claimed q \<Rightarrow> bindE (job_at p q) (\<lambda>j.
       Inr (set_worker i (if job_cancelled j then Finishing q else Copying q 0) p))
   | Copying q k \<Rightarrow> bindE (job_at p q) (\<lambda>j.
       if k < job_bytes j then
         bindE (mem_load (bp_mem p) (addr_plus (job_src j) k) 1) (\<lambda>bs.
         bindE (mem_store (bp_mem p) (addr_plus (job_dst j) k) bs) (\<lambda>m.
           Inr (set_worker i (Copying q (k + 1)) (p\<lparr>bp_mem := m\<rparr>))))
       else Inr (set_worker i (Finishing q) p))
   | Finishing q \<Rightarrow> bindE (job_at p q) (\<lambda>_.
       Inr (set_worker i Waiting
             (p\<lparr>bp_jobs := upd_job q (\<lambda>j. j\<lparr>job_done := True\<rparr>) (bp_jobs p)\<rparr>)))
   | Exited \<Rightarrow> Inr p)"

text \<open>
  \<^verbatim>\<open>wait_for_migrations()\<close>: block until every queued job is done, then drain. While the
  scheduler thread is blocked only workers move.
\<close>

inductive worker_steps :: "BlockPool \<Rightarrow> BlockPool \<Rightarrow> bool" where
  ws_refl: "worker_steps p p"
| ws_step: "worker_steps p q \<Longrightarrow> worker_step i q = Inr r \<Longrightarrow> worker_steps p r"

inductive wait_for_migrations :: "BlockPool \<Rightarrow> BlockPool \<Rightarrow> bool" where
  wait_done: "worker_steps p q \<Longrightarrow> \<forall>j \<in> set (bp_jobs q). job_done j \<Longrightarrow>
     drain_migrations q = Inr r \<Longrightarrow> wait_for_migrations p r"

text \<open>
  The destructor tells the workers to stop and joins them: it returns when each has left its
  loop. Then its members go, \<^verbatim>\<open>owned_tier_\<close> among them when the pool has made its own tier.
\<close>

definition begin_shutdown :: "BlockPool \<Rightarrow> BlockPool" where
  "begin_shutdown p = p\<lparr>bp_stopping := True\<rparr>"

definition drop_owned :: "nat option \<Rightarrow> memory \<Rightarrow> memory" where
  "drop_owned owned_tier m = (case owned_tier of None \<Rightarrow> m | Some ptr \<Rightarrow> m[ptr := HostTier_destroy (m ! ptr)])"

inductive BlockPool_destroy :: "nat option \<Rightarrow> BlockPool \<Rightarrow> BlockPool \<Rightarrow> bool" where
  bd_joined: "worker_steps (begin_shutdown p) q \<Longrightarrow> \<forall>w \<in> set (bp_workers q). w = Exited \<Longrightarrow>
     BlockPool_destroy owned_tier p (q\<lparr>bp_mem := drop_owned owned_tier (bp_mem q)\<rparr>)"

subsection \<open>Invariants\<close>

fun held :: "worker \<Rightarrow> nat option" where
  "held Waiting = None"
| "held (Claimed q) = Some q"
| "held (Copying q k) = Some q"
| "held (Finishing q) = Some q"
| "held Exited = None"

definition workers_inv :: "BlockPool \<Rightarrow> bool" where
  "workers_inv p \<longleftrightarrow>
     (\<forall>i < length (bp_workers p). \<forall>q. held (bp_workers p ! i) = Some q \<longrightarrow>
        (\<exists>n < bp_next_unclaimed p. n < length (bp_jobs p) \<and> job_ptr (bp_jobs p ! n) = q
            \<and> \<not> job_done (bp_jobs p ! n)))
   \<and> (\<forall>i < length (bp_workers p). \<forall>i' < length (bp_workers p). \<forall>q.
        held (bp_workers p ! i) = Some q \<longrightarrow> held (bp_workers p ! i') = Some q \<longrightarrow> i = i')
   \<and> (\<forall>n < bp_next_unclaimed p. n < length (bp_jobs p) \<longrightarrow> \<not> job_done (bp_jobs p ! n) \<longrightarrow>
        (\<exists>i < length (bp_workers p). held (bp_workers p ! i) = Some (job_ptr (bp_jobs p ! n))))
   \<and> (bp_jobs p \<noteq> [] \<longrightarrow> bp_workers p \<noteq> [])"

text \<open>The first \<open>n\<close> bytes of a job have been copied.\<close>

definition copied :: "BlockPool \<Rightarrow> MigrationJob \<Rightarrow> nat \<Rightarrow> bool" where
  "copied p j n \<longleftrightarrow> bytes_at (bp_mem p) (job_dst j) n = bytes_at (bp_mem p) (job_src j) n"

definition loc_addr :: "BlockPool \<Rightarrow> BlockId \<Rightarrow> addr" where
  "loc_addr p b = slot_addr p (loc_tier (bp_location p ! b)) (loc_slot (bp_location p ! b))"

definition job_ok :: "BlockPool \<Rightarrow> MigrationJob \<Rightarrow> bool" where
  "job_ok p j \<longleftrightarrow> job_bytes j = block_bytes (bp_cfg p)
     \<and> job_dst j = slot_addr p (job_dst_tier j) (job_dst_slot j)
     \<and> valid_range (bp_mem p) (job_src j) (block_bytes (bp_cfg p))
     \<and> (\<forall>k. Copying (job_ptr j) k \<in> set (bp_workers p) \<longrightarrow> k \<le> job_bytes j)
     \<and> (\<not> job_cancelled j \<longrightarrow> job_src j = loc_addr p (job_id j)
          \<and> (job_done j \<longrightarrow> copied p j (job_bytes j))
          \<and> (Finishing (job_ptr j) \<in> set (bp_workers p) \<longrightarrow> copied p j (job_bytes j))
          \<and> (\<forall>k. Copying (job_ptr j) k \<in> set (bp_workers p) \<longrightarrow> copied p j k))"

definition copy_inv :: "BlockPool \<Rightarrow> bool" where
  "copy_inv p \<longleftrightarrow> (\<forall>j \<in> set (bp_jobs p). job_ok p j)"

definition sys_inv :: "BlockPool \<Rightarrow> bool" where
  "sys_inv p \<longleftrightarrow> pool_inv p \<and> mem_inv p \<and> workers_inv p \<and> copy_inv p"

lemma content_loc_addr: "content p b = bytes_at (bp_mem p) (loc_addr p b) (block_bytes (bp_cfg p))"
  by (simp add: content_def loc_addr_def Let_def)

subsection \<open>Worker steps\<close>

lemma workers_invD:
  assumes "workers_inv p" and "i < length (bp_workers p)" and "held (bp_workers p ! i) = Some q"
  obtains n where "n < bp_next_unclaimed p" "n < length (bp_jobs p)" "job_ptr (bp_jobs p ! n) = q"
    "\<not> job_done (bp_jobs p ! n)"
  using assms by (auto simp: workers_inv_def)

lemma held_job:
  assumes inv: "pool_inv p" and "workers_inv p" and "i < length (bp_workers p)"
    and "held (bp_workers p ! i) = Some q"
  obtains j where "j \<in> set (bp_jobs p)" "job_ptr j = q" "\<not> job_done j" "job_at p q = Inr j"
proof -
  obtain n where n: "n < length (bp_jobs p)" "job_ptr (bp_jobs p ! n) = q" "\<not> job_done (bp_jobs p ! n)"
    using workers_invD [OF assms(2-4)] .
  then have mem: "bp_jobs p ! n \<in> set (bp_jobs p)" by simp
  have "job_at p q = Inr (bp_jobs p ! n)"
    using find_job [OF _ mem] n(2) inv by (simp add: job_at_def pool_inv_def mig_inv_def)
  with mem n show thesis by (intro that) simp_all
qed

lemma job_ptr_inject:
  assumes "pool_inv p" "j \<in> set (bp_jobs p)" "k \<in> set (bp_jobs p)" "job_ptr j = job_ptr k"
  shows "j = k"
proof -
  have d: "distinct (map job_ptr (bp_jobs p))" using assms(1) by (simp add: pool_inv_def mig_inv_def)
  show ?thesis using find_job [OF d assms(2)] find_job [OF d assms(3)] unfolding assms(4) by simp
qed

lemma set_worker_simps [simp]:
  "bp_workers (set_worker i w p) = (bp_workers p)[i := w]"
  "bp_tiers (set_worker i w p) = bp_tiers p" "bp_location (set_worker i w p) = bp_location p"
  "bp_refcount (set_worker i w p) = bp_refcount p" "bp_free_ids (set_worker i w p) = bp_free_ids p"
  "bp_mem (set_worker i w p) = bp_mem p" "bp_cfg (set_worker i w p) = bp_cfg p"
  "bp_next_unclaimed (set_worker i w p) = bp_next_unclaimed p"
  "bp_next_ptr (set_worker i w p) = bp_next_ptr p" "bp_jobs (set_worker i w p) = bp_jobs p"
  "bp_migrating (set_worker i w p) = bp_migrating p" "bp_stopping (set_worker i w p) = bp_stopping p"
  by (simp_all add: set_worker_def)

lemma pool_inv_set_worker [simp]: "pool_inv (set_worker i w p) \<longleftrightarrow> pool_inv p"
  by (simp add: pool_inv_defs tier_slots_def live_def)

lemma mem_inv_set_worker [simp]: "mem_inv (set_worker i w p) \<longleftrightarrow> mem_inv p"
  by (simp add: mem_inv_def)

lemma addr_set_worker [simp]:
  "slot_addr (set_worker i w p) t s = slot_addr p t s" "loc_addr (set_worker i w p) b = loc_addr p b"
  "copied (set_worker i w p) j n \<longleftrightarrow> copied p j n" "content (set_worker i w p) b = content p b"
  by (simp_all add: slot_addr_def loc_addr_def copied_def content_def)

text \<open>A worker that keeps its job, or takes or drops one, keeps the worker invariant.\<close>

lemma workers_inv_keep:
  assumes "workers_inv p" and "i < length (bp_workers p)" and "held w = held (bp_workers p ! i)"
  shows "workers_inv (set_worker i w p)"
proof -
  have h: "held ((bp_workers p)[i := w] ! i') = held (bp_workers p ! i')" for i'
    using assms(2,3) by (cases "i' = i") simp_all
  show ?thesis using assms(1) by (simp add: workers_inv_def h)
qed


lemma copied_0 [simp]: "copied p j 0"
  by (simp add: copied_def bytes_at_def)

text \<open>
  The effect of moving one worker's program counter on \<open>job_ok\<close>: only what the new program
  counter claims has to be shown.
\<close>

lemma job_ok_set_worker:
  assumes ok: "job_ok p j"
    and cp: "\<And>k. w = Copying (job_ptr j) k \<Longrightarrow> k \<le> job_bytes j \<and> (\<not> job_cancelled j \<longrightarrow> copied p j k)"
    and fin: "w = Finishing (job_ptr j) \<Longrightarrow> \<not> job_cancelled j \<Longrightarrow> copied p j (job_bytes j)"
  shows "job_ok (set_worker i w p) j"
proof -
  have sub: "x = w \<or> x \<in> set (bp_workers p)" if "x \<in> set ((bp_workers p)[i := w])" for x
    using set_update_subset_insert [of "bp_workers p" i w] that by auto
  have "k \<le> job_bytes j \<and> (\<not> job_cancelled j \<longrightarrow> copied p j k)"
    if "Copying (job_ptr j) k \<in> set ((bp_workers p)[i := w])" for k
    using sub [OF that] cp [of k] ok unfolding job_ok_def by auto
  moreover have "copied p j (job_bytes j)"
    if "Finishing (job_ptr j) \<in> set ((bp_workers p)[i := w])" "\<not> job_cancelled j"
    using sub [OF that(1)] fin ok that(2) unfolding job_ok_def by auto
  ultimately show ?thesis using ok by (auto simp: job_ok_def)
qed

lemma copy_inv_set_worker:
  assumes "copy_inv p"
    and "\<And>j k. j \<in> set (bp_jobs p) \<Longrightarrow> w = Copying (job_ptr j) k \<Longrightarrow>
           k \<le> job_bytes j \<and> (\<not> job_cancelled j \<longrightarrow> copied p j k)"
    and "\<And>j. j \<in> set (bp_jobs p) \<Longrightarrow> w = Finishing (job_ptr j) \<Longrightarrow> \<not> job_cancelled j \<Longrightarrow>
           copied p j (job_bytes j)"
  shows "copy_inv (set_worker i w p)"
  using assms by (auto simp: copy_inv_def intro!: job_ok_set_worker)

subsubsection \<open>Claiming a job\<close>

definition claimed :: "nat \<Rightarrow> BlockPool \<Rightarrow> BlockPool" where
  "claimed i p = set_worker i (Claimed (job_ptr (bp_jobs p ! bp_next_unclaimed p)))
     (p\<lparr>bp_next_unclaimed := bp_next_unclaimed p + 1\<rparr>)"

lemma claimed_simps [simp]:
  "bp_workers (claimed i p) = (bp_workers p)[i := Claimed (job_ptr (bp_jobs p ! bp_next_unclaimed p))]"
  "bp_tiers (claimed i p) = bp_tiers p" "bp_location (claimed i p) = bp_location p"
  "bp_refcount (claimed i p) = bp_refcount p" "bp_mem (claimed i p) = bp_mem p"
  "bp_cfg (claimed i p) = bp_cfg p" "bp_next_unclaimed (claimed i p) = bp_next_unclaimed p + 1"
  "bp_jobs (claimed i p) = bp_jobs p" "bp_migrating (claimed i p) = bp_migrating p"
  "bp_free_ids (claimed i p) = bp_free_ids p" "bp_stopping (claimed i p) = bp_stopping p"
  by (simp_all add: claimed_def)

lemma pool_inv_claimed:
  assumes "pool_inv p" and "bp_next_unclaimed p < length (bp_jobs p)"
  shows "pool_inv (claimed i p)"
proof -
  have "queue_inv (claimed i p)"
    using assms by (simp add: pool_inv_def queue_inv_def)
  then show ?thesis
    using assms(1) by (simp add: pool_inv_def slots_inv_def ids_inv_def range_inv_def mig_inv_def
        flight_inv_def tier_slots_def live_def claimed_def)
qed

lemma workers_inv_unique:
  "workers_inv p \<Longrightarrow> i < length (bp_workers p) \<Longrightarrow> i' < length (bp_workers p) \<Longrightarrow>
     held (bp_workers p ! i) = Some q \<Longrightarrow> held (bp_workers p ! i') = Some q \<Longrightarrow> i = i'"
  unfolding workers_inv_def by blast

lemma workers_inv_holder:
  "workers_inv p \<Longrightarrow> n < bp_next_unclaimed p \<Longrightarrow> n < length (bp_jobs p) \<Longrightarrow> \<not> job_done (bp_jobs p ! n) \<Longrightarrow>
     \<exists>i < length (bp_workers p). held (bp_workers p ! i) = Some (job_ptr (bp_jobs p ! n))"
  unfolding workers_inv_def by blast

lemma workers_invI:
  assumes "\<And>i q. i < length (bp_workers p) \<Longrightarrow> held (bp_workers p ! i) = Some q \<Longrightarrow>
        \<exists>n < bp_next_unclaimed p. n < length (bp_jobs p) \<and> job_ptr (bp_jobs p ! n) = q
            \<and> \<not> job_done (bp_jobs p ! n)"
    and "\<And>i i' q. i < length (bp_workers p) \<Longrightarrow> i' < length (bp_workers p) \<Longrightarrow>
        held (bp_workers p ! i) = Some q \<Longrightarrow> held (bp_workers p ! i') = Some q \<Longrightarrow> i = i'"
    and "\<And>n. n < bp_next_unclaimed p \<Longrightarrow> n < length (bp_jobs p) \<Longrightarrow> \<not> job_done (bp_jobs p ! n) \<Longrightarrow>
        \<exists>i < length (bp_workers p). held (bp_workers p ! i) = Some (job_ptr (bp_jobs p ! n))"
    and "bp_jobs p \<noteq> [] \<Longrightarrow> bp_workers p \<noteq> []"
  shows "workers_inv p"
  unfolding workers_inv_def using assms by blast

lemma unclaimed_free:
  assumes inv: "pool_inv p" and w: "workers_inv p" and lt: "bp_next_unclaimed p < length (bp_jobs p)" and i: "i < length (bp_workers p)"
  shows "held (bp_workers p ! i) \<noteq> Some (job_ptr (bp_jobs p ! bp_next_unclaimed p))"
proof
  assume h: "held (bp_workers p ! i) = Some (job_ptr (bp_jobs p ! bp_next_unclaimed p))"
  obtain n where "n < bp_next_unclaimed p" "n < length (bp_jobs p)" "job_ptr (bp_jobs p ! n) = job_ptr (bp_jobs p ! bp_next_unclaimed p)"
    using workers_invD [OF w i h] .
  moreover have "distinct (map job_ptr (bp_jobs p))" using inv by (simp add: pool_inv_def mig_inv_def)
  ultimately show False using lt by (simp add: distinct_conv_nth)
qed

lemma workers_inv_claimed:
  assumes inv: "pool_inv p" and w: "workers_inv p" and i: "i < length (bp_workers p)"
    and wt: "bp_workers p ! i = Waiting" and lt: "bp_next_unclaimed p < length (bp_jobs p)"
  shows "workers_inv (claimed i p)"
proof -
  let ?n = "bp_next_unclaimed p" and ?W = "bp_workers p"
  let ?W' = "?W[i := Claimed (job_ptr (bp_jobs p ! ?n))]"
  have nd: "\<not> job_done (bp_jobs p ! ?n)" using inv lt by (simp add: pool_inv_def queue_inv_def)
  note other = unclaimed_free [OF inv w lt]
  have h: "held (?W' ! i') = (if i' = i then Some (job_ptr (bp_jobs p ! ?n)) else held (?W ! i'))"
    if "i' < length ?W" for i'
    using that by (simp add: nth_list_update)
  show ?thesis
  proof (rule workers_invI, unfold claimed_simps length_list_update)
    fix i' q assume i': "i' < length ?W" and q: "held (?W' ! i') = Some q"
    show "\<exists>n < ?n + 1. n < length (bp_jobs p) \<and> job_ptr (bp_jobs p ! n) = q \<and> \<not> job_done (bp_jobs p ! n)"
    proof (cases "i' = i")
      case True
      then show ?thesis using h [OF i'] q lt nd by (intro exI [of _ ?n]) simp
    next
      case False
      then have "held (?W ! i') = Some q" using h [OF i'] q by simp
      from workers_invD [OF w i' this] show ?thesis by (metis trans_less_add1)
    qed
  next
    fix i1 i2 q assume "i1 < length ?W" "i2 < length ?W" "held (?W' ! i1) = Some q" "held (?W' ! i2) = Some q"
    then show "i1 = i2"
      using h [of i1] h [of i2] other [of i1] other [of i2] workers_inv_unique [OF w, of i1 i2 q]
      by (simp split: if_splits)
  next
    fix n assume n: "n < ?n + 1" "n < length (bp_jobs p)" "\<not> job_done (bp_jobs p ! n)"
    show "\<exists>i' < length ?W. held (?W' ! i') = Some (job_ptr (bp_jobs p ! n))"
    proof (cases "n = ?n")
      case True
      then show ?thesis using i h [OF i] by auto
    next
      case False
      then have "n < ?n" using n(1) by simp
      then obtain i' where i': "i' < length ?W" "held (?W ! i') = Some (job_ptr (bp_jobs p ! n))"
        using workers_inv_holder [OF w _ n(2,3)] by blast
      moreover from i'(2) wt have "i' \<noteq> i" by auto
      ultimately show ?thesis using h [of i'] by auto
    qed
  next
    show "?W' \<noteq> []" using i by auto
  qed
qed


subsubsection \<open>Finishing a job\<close>

definition finished :: "nat \<Rightarrow> nat \<Rightarrow> BlockPool \<Rightarrow> BlockPool" where
  "finished i q p = set_worker i Waiting
     (p\<lparr>bp_jobs := upd_job q (\<lambda>j. j\<lparr>job_done := True\<rparr>) (bp_jobs p)\<rparr>)"

definition mark_done :: "nat \<Rightarrow> MigrationJob \<Rightarrow> MigrationJob" where
  "mark_done q j = (if job_ptr j = q then j\<lparr>job_done := True\<rparr> else j)"

lemma mark_done_simps [simp]:
  "job_ptr (mark_done q j) = job_ptr j" "job_id (mark_done q j) = job_id j"
  "job_dst_tier (mark_done q j) = job_dst_tier j" "job_dst_slot (mark_done q j) = job_dst_slot j"
  "job_src (mark_done q j) = job_src j" "job_dst (mark_done q j) = job_dst j"
  "job_bytes (mark_done q j) = job_bytes j" "job_cancelled (mark_done q j) = job_cancelled j"
  "job_done (mark_done q j) \<longleftrightarrow> job_done j \<or> job_ptr j = q"
  by (simp_all add: mark_done_def)

lemma finished_simps [simp]:
  "bp_workers (finished i q p) = (bp_workers p)[i := Waiting]"
  "bp_tiers (finished i q p) = bp_tiers p" "bp_location (finished i q p) = bp_location p"
  "bp_refcount (finished i q p) = bp_refcount p" "bp_mem (finished i q p) = bp_mem p"
  "bp_cfg (finished i q p) = bp_cfg p" "bp_next_unclaimed (finished i q p) = bp_next_unclaimed p"
  "bp_next_ptr (finished i q p) = bp_next_ptr p" "bp_free_ids (finished i q p) = bp_free_ids p"
  "bp_jobs (finished i q p) = map (mark_done q) (bp_jobs p)"
  "bp_migrating (finished i q p) = bp_migrating p"
  "bp_stopping (finished i q p) = bp_stopping p"
  by (simp_all add: finished_def upd_job_def mark_done_def)

lemma pool_inv_finished:
  assumes inv: "pool_inv p" and w: "workers_inv p" and i: "i < length (bp_workers p)"
    and h: "held (bp_workers p ! i) = Some q"
  shows "pool_inv (finished i q p)"
proof -
  have d: "distinct (map job_ptr (bp_jobs p))" using inv by (simp add: pool_inv_def mig_inv_def)
  obtain n where n: "n < bp_next_unclaimed p" "n < length (bp_jobs p)" "job_ptr (bp_jobs p ! n) = q"
    using workers_invD [OF w i h] .
  have "slots_inv (finished i q p)"
    by (rule slots_invI [OF pool_inv_slots [OF inv]]) (simp_all add: tier_slots_def job_slots_map)
  moreover have "ids_inv (finished i q p)" "range_inv (finished i q p)" "flight_inv (finished i q p)"
    using inv by (simp_all add: pool_inv_def ids_inv_def range_inv_def flight_inv_def live_def)
  moreover have "mig_inv (finished i q p)"
  proof -
    have "(\<exists>j \<in> set (map (mark_done q) (bp_jobs p)). job_ptr j = r \<and> job_id j = b \<and> \<not> job_cancelled j)
        \<longleftrightarrow> (\<exists>j \<in> set (bp_jobs p). job_ptr j = r \<and> job_id j = b \<and> \<not> job_cancelled j)" for b r
      by auto
    then show ?thesis using inv by (simp add: pool_inv_def mig_inv_def o_def)
  qed
  moreover have "queue_inv (finished i q p)"
  proof -
    have "job_ptr (bp_jobs p ! m) \<noteq> q" if "bp_next_unclaimed p \<le> m" "m < length (bp_jobs p)" for m
      using d n that by (auto simp: distinct_conv_nth)
    then show ?thesis using inv by (simp add: pool_inv_def queue_inv_def)
  qed
  ultimately show ?thesis by (simp add: pool_inv_def)
qed

lemma workers_inv_finished:
  assumes inv: "pool_inv p" and w: "workers_inv p" and i: "i < length (bp_workers p)"
    and h: "held (bp_workers p ! i) = Some q"
  shows "workers_inv (finished i q p)"
proof (rule workers_invI, unfold finished_simps length_list_update length_map)
  let ?W = "bp_workers p"
  have hh: "held (?W[i := Waiting] ! i') = (if i' = i then None else held (?W ! i'))"
    if "i' < length ?W" for i'
    using that by (simp add: nth_list_update)
  {
    fix i' r assume i': "i' < length ?W" and r: "held (?W[i := Waiting] ! i') = Some r"
    then have ne: "i' \<noteq> i" and r': "held (?W ! i') = Some r" using hh [OF i'] by (auto split: if_splits)
    have "r \<noteq> q" using workers_inv_unique [OF w i' i] r' h ne by auto
    then show "\<exists>n < bp_next_unclaimed p. n < length (bp_jobs p)
        \<and> job_ptr (map (mark_done q) (bp_jobs p) ! n) = r \<and> \<not> job_done (map (mark_done q) (bp_jobs p) ! n)"
      using workers_invD [OF w i' r'] by (metis mark_done_simps(1,9) nth_map)
  next
    fix i1 i2 r assume "i1 < length ?W" "i2 < length ?W"
      "held (?W[i := Waiting] ! i1) = Some r" "held (?W[i := Waiting] ! i2) = Some r"
    then show "i1 = i2"
      using hh [of i1] hh [of i2] workers_inv_unique [OF w, of i1 i2 r] by (simp split: if_splits)
  next
    fix n assume n: "n < bp_next_unclaimed p" "n < length (bp_jobs p)"
      "\<not> job_done (map (mark_done q) (bp_jobs p) ! n)"
    then have nd: "\<not> job_done (bp_jobs p ! n)" and nq: "job_ptr (bp_jobs p ! n) \<noteq> q" by auto
    obtain i' where i': "i' < length ?W" "held (?W ! i') = Some (job_ptr (bp_jobs p ! n))"
      using workers_inv_holder [OF w n(1,2) nd] by blast
    with nq h have "i' \<noteq> i" by auto
    with i' hh [OF i'(1)] show "\<exists>i' < length ?W. held (?W[i := Waiting] ! i')
        = Some (job_ptr (map (mark_done q) (bp_jobs p) ! n))"
      using n(2) by auto
  next
    show "?W[i := Waiting] \<noteq> []" using i by auto
  }
qed

lemma addr_finished [simp]:
  "slot_addr (finished i q p) t s = slot_addr p t s" "loc_addr (finished i q p) b = loc_addr p b"
  "copied (finished i q p) (mark_done q j) n \<longleftrightarrow> copied p j n" "content (finished i q p) b = content p b"
  by (simp_all add: slot_addr_def loc_addr_def copied_def content_def)

lemma copy_inv_finished:
  assumes c: "copy_inv p" and i: "i < length (bp_workers p)" and h: "bp_workers p ! i = Finishing q"
  shows "copy_inv (finished i q p)"
proof -
  have sub: "x \<in> set (bp_workers p)" if "x \<in> set ((bp_workers p)[i := Waiting])" "x \<noteq> Waiting" for x
    using set_update_subset_insert [of "bp_workers p" i Waiting] that by auto
  have mem: "Finishing q \<in> set (bp_workers p)" using i h by (metis nth_mem)
  have "job_ok (finished i q p) (mark_done q j)" if "j \<in> set (bp_jobs p)" for j
  proof -
    have ok: "job_ok p j" using c that by (simp add: copy_inv_def)
    have "copied p j (job_bytes j)" if "job_ptr j = q" "\<not> job_cancelled j"
      using ok mem that by (auto simp: job_ok_def)
    then show ?thesis using ok sub by (auto simp: job_ok_def)
  qed
  then show ?thesis by (simp add: copy_inv_def)
qed

subsubsection \<open>Copying one byte\<close>

lemma valid_range_sub:
  "valid_range m a n \<Longrightarrow> k + l \<le> n \<Longrightarrow> valid_range m (addr_plus a k) l"
  by (simp add: valid_range_def addr_plus_def)

lemma bytes_at_Suc: "bytes_at m a (Suc k) = bytes_at m a k @ bytes_at m (addr_plus a k) 1"
  using take_add [of k 1 "drop (snd a) (the (ht_arena (m ! fst a)))"]
  by (simp add: bytes_at_def addr_plus_def add.commute)

lemma overlap_sub:
  "overlap (addr_plus a k) l b n \<Longrightarrow> k + l \<le> m \<Longrightarrow> overlap a m b n"
  by (auto simp: overlap_def addr_plus_def)

lemma overlap_prefix: "overlap a m b k \<Longrightarrow> k \<le> n \<Longrightarrow> overlap a m b n"
  by (auto simp: overlap_def)


lemma job_slots_unique:
  assumes inv: "pool_inv p" and j: "j \<in> set (bp_jobs p)" and k: "k \<in> set (bp_jobs p)" and ne: "j \<noteq> k"
  shows "(job_dst_tier j, job_dst_slot j) \<noteq> (job_dst_tier k, job_dst_slot k)"
proof
  assume eq: "(job_dst_tier j, job_dst_slot j) = (job_dst_tier k, job_dst_slot k)"
  have "mset (bp_jobs p) = add_mset j (mset (remove1 j (bp_jobs p)))" using j by simp
  moreover have "k \<in> set (remove1 j (bp_jobs p))" using k ne by (simp add: in_set_remove1)
  ultimately obtain M where "mset (bp_jobs p) = add_mset j (add_mset k M)"
    by (metis insert_DiffM set_mset_mset)
  then have "count (job_slots (bp_jobs p) (job_dst_tier j)) (job_dst_slot j) \<ge> 2"
    using eq by (simp add: job_slots_def)
  then show False
    using tier_slots_once [OF inv pool_invD(7) [OF inv j], of "job_dst_slot j"] by simp
qed

lemma dst_disjoint_src:
  assumes inv: "pool_inv p" and mem: "mem_inv p" and j: "j \<in> set (bp_jobs p)" and b: "live p b"
  shows "\<not> overlap (slot_addr p (job_dst_tier j) (job_dst_slot j)) (block_bytes (bp_cfg p))
                   (loc_addr p b) (block_bytes (bp_cfg p))"
  unfolding loc_addr_def
  by (rule slot_addr_disjoint [OF mem pool_invD(7) [OF inv j] pool_invD(3) [OF inv b]])
    (use job_slot_not_live [OF inv b j] in auto)

lemma dst_disjoint_dst:
  assumes inv: "pool_inv p" and mem: "mem_inv p" and j: "j \<in> set (bp_jobs p)" and k: "k \<in> set (bp_jobs p)"
    and ne: "j \<noteq> k"
  shows "\<not> overlap (slot_addr p (job_dst_tier j) (job_dst_slot j)) (block_bytes (bp_cfg p))
                   (slot_addr p (job_dst_tier k) (job_dst_slot k)) (block_bytes (bp_cfg p))"
  by (rule slot_addr_disjoint [OF mem pool_invD(7) [OF inv j] pool_invD(7) [OF inv k]])
    (rule job_slots_unique [OF inv j k ne])

lemma job_dst_valid:
  assumes inv: "pool_inv p" and mem: "mem_inv p" and j: "j \<in> set (bp_jobs p)"
  shows "valid_range (bp_mem p) (slot_addr p (job_dst_tier j) (job_dst_slot j)) (block_bytes (bp_cfg p))"
  by (rule slot_addr_valid(1) [OF mem pool_invD(7) [OF inv j]
        slot_bound [OF inv pool_invD(7) [OF inv j] job_slot_in_tier(2) [OF j]]])

text \<open>A write inside one job's reserved slot is invisible to every block and every other job.\<close>

lemma reserved_write:
  fixes x :: byte
  assumes inv: "pool_inv p" and mem: "mem_inv p" and cp: "copy_inv p" and j: "j \<in> set (bp_jobs p)"
    and k: "k < block_bytes (bp_cfg p)"
  defines "m' \<equiv> stored (bp_mem p) (addr_plus (job_dst j) k) [x]"
  shows "live p b \<Longrightarrow> n \<le> block_bytes (bp_cfg p) \<Longrightarrow> bytes_at m' (loc_addr p b) n = bytes_at (bp_mem p) (loc_addr p b) n"
    and "j' \<in> set (bp_jobs p) \<Longrightarrow> j' \<noteq> j \<Longrightarrow> n \<le> block_bytes (bp_cfg p) \<Longrightarrow>
           bytes_at m' (job_dst j') n = bytes_at (bp_mem p) (job_dst j') n"
    and "n \<le> k \<Longrightarrow> bytes_at m' (job_dst j) n = bytes_at (bp_mem p) (job_dst j) n"
    and "bytes_at m' (addr_plus (job_dst j) k) 1 = [x]"
    and "valid_range (bp_mem p) (addr_plus (job_dst j) k) (length [x])"
proof -
  let ?B = "block_bytes (bp_cfg p)"
  have dst: "job_dst i = slot_addr p (job_dst_tier i) (job_dst_slot i)" if "i \<in> set (bp_jobs p)" for i
    using cp that by (simp add: copy_inv_def job_ok_def)
  have vr: "valid_range (bp_mem p) (job_dst j) ?B" using job_dst_valid [OF inv mem j] dst [OF j] by simp
  then show v: "valid_range (bp_mem p) (addr_plus (job_dst j) k) (length [x])"
    using k by (intro valid_range_sub [of _ _ ?B]) simp_all
  have ov: "overlap (job_dst j) ?B a ?B" if "overlap (addr_plus (job_dst j) k) (length [x]) a n" "n \<le> ?B" for a n
    using overlap_prefix [OF overlap_sub [OF that(1)] that(2)] k by simp
  show "bytes_at m' (loc_addr p b) n = bytes_at (bp_mem p) (loc_addr p b) n" if "live p b" "n \<le> ?B"
    unfolding m'_def using ov [of "loc_addr p b" n] that(2) dst_disjoint_src [OF inv mem j that(1)] dst [OF j]
    by (intro bytes_at_stored_other [OF v]) auto
  show "bytes_at m' (job_dst j') n = bytes_at (bp_mem p) (job_dst j') n"
    if "j' \<in> set (bp_jobs p)" "j' \<noteq> j" "n \<le> ?B"
    unfolding m'_def using ov [of "job_dst j'" n] that(3) dst_disjoint_dst [OF inv mem j that(1)] dst [OF j] dst [OF that(1)] that(2)
    by (intro bytes_at_stored_other [OF v]) auto
  show "bytes_at m' (job_dst j) n = bytes_at (bp_mem p) (job_dst j) n" if "n \<le> k"
    unfolding m'_def using that
    by (intro bytes_at_stored_other [OF v]) (simp add: overlap_def addr_plus_def)
  show "bytes_at m' (addr_plus (job_dst j) k) 1 = [x]"
    using bytes_at_stored_same [OF v] by (simp add: m'_def)
qed


lemma pool_inv_bp_mem [simp]: "pool_inv (p\<lparr>bp_mem := m\<rparr>) \<longleftrightarrow> pool_inv p"
  by (simp add: pool_inv_defs tier_slots_def live_def)

lemma workers_inv_bp_mem [simp]: "workers_inv (p\<lparr>bp_mem := m\<rparr>) \<longleftrightarrow> workers_inv p"
  by (simp add: workers_inv_def)

lemma addr_bp_mem [simp]:
  "slot_addr (p\<lparr>bp_mem := m\<rparr>) t s = slot_addr p t s" "loc_addr (p\<lparr>bp_mem := m\<rparr>) b = loc_addr p b"
  by (simp_all add: slot_addr_def loc_addr_def)

lemma job_ok_cong:
  "bp_cfg p' = bp_cfg p \<Longrightarrow> bp_tiers p' = bp_tiers p \<Longrightarrow> bp_mem p' = bp_mem p \<Longrightarrow>
     bp_workers p' = bp_workers p \<Longrightarrow> bp_location p' = bp_location p \<Longrightarrow> job_ok p' j \<longleftrightarrow> job_ok p j"
  by (simp only: job_ok_def copied_def slot_addr_def loc_addr_def)

lemma copy_inv_live: "pool_inv p \<Longrightarrow> j \<in> set (bp_jobs p) \<Longrightarrow> \<not> job_cancelled j \<Longrightarrow> live p (job_id j)"
  by (simp add: pool_inv_def flight_inv_def)

text \<open>The other jobs keep their progress across a byte written for job \<open>j\<close>.\<close>

lemma copied_other:
  assumes inv: "pool_inv p" and mem: "mem_inv p" and cp: "copy_inv p" and j: "j \<in> set (bp_jobs p)"
    and k: "k < block_bytes (bp_cfg p)" and j': "j' \<in> set (bp_jobs p)" "j' \<noteq> j" "\<not> job_cancelled j'"
    and n: "n \<le> block_bytes (bp_cfg p)" "copied p j' n"
  shows "copied (p\<lparr>bp_mem := stored (bp_mem p) (addr_plus (job_dst j) k) [x]\<rparr>) j' n"
proof -
  have src: "job_src j' = loc_addr p (job_id j')" using cp j' by (simp add: copy_inv_def job_ok_def)
  show ?thesis
    using reserved_write(1) [OF inv mem cp j k copy_inv_live [OF inv j'(1,3)] n(1), of x]
      reserved_write(2) [OF inv mem cp j k j'(1,2) n(1), of x] n(2) src
    by (simp add: copied_def)
qed

lemma copied_next:
  assumes inv: "pool_inv p" and mem: "mem_inv p" and cp: "copy_inv p" and j: "j \<in> set (bp_jobs p)"
    and k: "k < block_bytes (bp_cfg p)" and nc: "\<not> job_cancelled j" and don: "copied p j k"
    and x: "bytes_at (bp_mem p) (addr_plus (job_src j) k) 1 = [x]"
  shows "copied (p\<lparr>bp_mem := stored (bp_mem p) (addr_plus (job_dst j) k) [x]\<rparr>) j (Suc k)"
proof -
  let ?m = "stored (bp_mem p) (addr_plus (job_dst j) k) [x]"
  have src: "job_src j = loc_addr p (job_id j)" using cp j nc by (simp add: copy_inv_def job_ok_def)
  have "bytes_at ?m (job_dst j) (Suc k) = bytes_at (bp_mem p) (job_dst j) k @ [x]"
    using reserved_write(3) [OF inv mem cp j k order_refl, of x] reserved_write(4) [OF inv mem cp j k, of x]
    by (simp add: bytes_at_Suc [where k = k])
  also have "\<dots> = bytes_at (bp_mem p) (job_src j) (Suc k)"
    using don x by (simp add: bytes_at_Suc [where k = k] copied_def)
  also have "\<dots> = bytes_at ?m (job_src j) (Suc k)"
    using reserved_write(1) [OF inv mem cp j k copy_inv_live [OF inv j nc], of "Suc k" x] k src by simp
  finally show ?thesis by (simp add: copied_def)
qed

text \<open>No two workers hold the same job, before and after one of them moves on in its copy.\<close>

lemma sole_holder:
  assumes w: "workers_inv p" and i: "i < length (bp_workers p)" and hi: "held (bp_workers p ! i) = Some q" "held v = Some q"
    and u: "u \<in> set ((bp_workers p)[i := v])" "held u = Some r"
  shows "if r = q then u = v else u \<in> set (bp_workers p)"
proof (cases "r = q")
  case True
  from u(1) obtain i' where i': "i' < length (bp_workers p)" "u = (bp_workers p)[i := v] ! i'" by (auto simp: in_set_conv_nth)
  have "i' = i \<or> held (bp_workers p ! i') = Some q" using i' u(2) True by (cases "i' = i") simp_all
  then have "i' = i" using workers_inv_unique [OF w i'(1) i] hi(1) by auto
  then show ?thesis using i' True by simp
next
  case False
  then show ?thesis using set_update_subset_insert [of "bp_workers p" i v] u hi(2) by auto
qed

lemma copy_inv_copying:
  assumes inv: "pool_inv p" and mem: "mem_inv p" and w: "workers_inv p" and cp: "copy_inv p"
    and i: "i < length (bp_workers p)" and wi: "bp_workers p ! i = Copying (job_ptr j) k"
    and j: "j \<in> set (bp_jobs p)" and nd: "\<not> job_done j" and k: "k < block_bytes (bp_cfg p)"
    and x: "bytes_at (bp_mem p) (addr_plus (job_src j) k) 1 = [x]"
  shows "copy_inv (set_worker i (Copying (job_ptr j) (Suc k))
           (p\<lparr>bp_mem := stored (bp_mem p) (addr_plus (job_dst j) k) [x]\<rparr>))" (is "copy_inv ?p")
proof -
  let ?q = "p\<lparr>bp_mem := stored (bp_mem p) (addr_plus (job_dst j) k) [x]\<rparr>"
  let ?W = "(bp_workers p)[i := Copying (job_ptr j) (Suc k)]"
  have wmem: "Copying (job_ptr j) k \<in> set (bp_workers p)" using i wi by (metis nth_mem)
  have holder: "if r = job_ptr j then u = Copying (job_ptr j) (Suc k) else u \<in> set (bp_workers p)"
    if "u \<in> set ?W" "held u = Some r" for u r by (rule sole_holder [OF w i _ _ that]) (simp_all add: wi)
  have mine: "u = Copying (job_ptr j) (Suc k)" if "u \<in> set ?W" "held u = Some (job_ptr j)" for u
    using holder [OF that] by simp
  have other: "u \<in> set (bp_workers p)" if "u \<in> set ?W" "held u = Some r" "r \<noteq> job_ptr j" for u r
    using holder [OF that(1,2)] that(3) by simp
  have "job_ok ?p j'" if j': "j' \<in> set (bp_jobs p)" for j'
  proof -
    have ok: "job_ok p j'" using cp j' by (simp add: copy_inv_def)
    have vr: "valid_range (bp_mem ?p) (job_src j') (block_bytes (bp_cfg p))"
      using ok valid_range_stored [OF reserved_write(5) [OF inv mem cp j k]] by (simp add: job_ok_def)
    show ?thesis
    proof (cases "j' = j")
      case True
      have step: "\<not> job_cancelled j \<Longrightarrow> copied ?q j (Suc k)"
        using copied_next [OF inv mem cp j k _ _ x] ok True wmem by (auto simp: job_ok_def)
      have "l \<le> job_bytes j \<and> (\<not> job_cancelled j \<longrightarrow> copied ?q j l)"
        if "Copying (job_ptr j) l \<in> set ?W" for l
        using mine [OF that] step k ok True by (simp add: job_ok_def)
      moreover have "Finishing (job_ptr j) \<notin> set ?W" using mine [of "Finishing (job_ptr j)"] by auto
      ultimately show ?thesis
        using ok True vr nd by (auto simp: job_ok_def)
    next
      case False
      have np: "job_ptr j' \<noteq> job_ptr j" using job_ptr_inject [OF inv j' j] False by blast
      have keep: "copied ?q j' n" if "\<not> job_cancelled j'" "n \<le> block_bytes (bp_cfg p)" "copied p j' n" for n
        using copied_other [OF inv mem cp j k j' False that] .
      have bytes: "job_bytes j' = block_bytes (bp_cfg p)" using ok by (simp add: job_ok_def)
      have "l \<le> job_bytes j' \<and> (\<not> job_cancelled j' \<longrightarrow> copied ?q j' l)"
        if "Copying (job_ptr j') l \<in> set ?W" for l
        using other [OF that _ np] keep [of l] ok bytes by (simp add: job_ok_def)
      moreover have "copied ?q j' (job_bytes j')"
        if "\<not> job_cancelled j'" "Finishing (job_ptr j') \<in> set ?W \<or> job_done j'"
        using other [of "Finishing (job_ptr j')", OF _ _ np] keep [OF that(1), of "job_bytes j'"] ok bytes that
        by (auto simp: job_ok_def)
      ultimately show ?thesis using ok vr by (auto simp: job_ok_def)
    qed
  qed
  then show ?thesis by (simp add: copy_inv_def)
qed

subsubsection \<open>No worker step fails, corrupts a block or breaks an invariant\<close>

definition worker_frame :: "BlockPool \<Rightarrow> BlockPool \<Rightarrow> bool" where
  "worker_frame p p' \<longleftrightarrow> (\<forall>b. live p b \<longrightarrow> content p' b = content p b)
     \<and> bp_refcount p' = bp_refcount p \<and> bp_location p' = bp_location p \<and> bp_tiers p' = bp_tiers p
     \<and> bp_migrating p' = bp_migrating p \<and> bp_cfg p' = bp_cfg p \<and> bp_free_ids p' = bp_free_ids p
     \<and> bp_stopping p' = bp_stopping p
     \<and> length (bp_workers p') = length (bp_workers p)
     \<and> map job_ptr (bp_jobs p') = map job_ptr (bp_jobs p)"

lemma worker_frame_refl [simp]: "worker_frame p p"
  by (simp add: worker_frame_def)

lemma worker_frame_set_worker [simp]: "worker_frame p (set_worker i w p)"
  by (simp add: worker_frame_def)

lemma sys_inv_set_worker:
  assumes "sys_inv p" and "i < length (bp_workers p)" and "held w = held (bp_workers p ! i)"
    and "\<And>j k. j \<in> set (bp_jobs p) \<Longrightarrow> w = Copying (job_ptr j) k \<Longrightarrow>
           k \<le> job_bytes j \<and> (\<not> job_cancelled j \<longrightarrow> copied p j k)"
    and "\<And>j. j \<in> set (bp_jobs p) \<Longrightarrow> w = Finishing (job_ptr j) \<Longrightarrow> \<not> job_cancelled j \<Longrightarrow>
           copied p j (job_bytes j)"
  shows "sys_inv (set_worker i w p)"
  using assms by (auto simp: sys_inv_def intro: workers_inv_keep copy_inv_set_worker)

lemma sys_inv_claimed:
  assumes sys: "sys_inv p" and i: "i < length (bp_workers p)" and wt: "bp_workers p ! i = Waiting"
    and lt: "bp_next_unclaimed p < length (bp_jobs p)"
  shows "sys_inv (claimed i p)"
proof -
  have "job_ok (p\<lparr>bp_next_unclaimed := bp_next_unclaimed p + 1\<rparr>) j \<longleftrightarrow> job_ok p j" for j
    by (rule job_ok_cong) simp_all
  then have "copy_inv (p\<lparr>bp_next_unclaimed := bp_next_unclaimed p + 1\<rparr>)"
    using sys by (simp add: sys_inv_def copy_inv_def)
  then have "copy_inv (claimed i p)"
    unfolding claimed_def by (rule copy_inv_set_worker) simp_all
  moreover have "mem_inv (claimed i p)" using sys by (simp add: sys_inv_def mem_inv_def)
  ultimately show ?thesis
    using sys pool_inv_claimed workers_inv_claimed i wt lt by (simp add: sys_inv_def)
qed

lemma sys_inv_finished:
  assumes sys: "sys_inv p" and i: "i < length (bp_workers p)" and w: "bp_workers p ! i = Finishing q"
  shows "sys_inv (finished i q p)"
proof -
  have "held (bp_workers p ! i) = Some q" using w by simp
  moreover have "mem_inv (finished i q p)" using sys by (simp add: sys_inv_def mem_inv_def)
  ultimately show ?thesis
    using sys pool_inv_finished [OF _ _ i] workers_inv_finished [OF _ _ i] copy_inv_finished [OF _ i w]
    by (simp add: sys_inv_def)
qed


text \<open>What one step of a worker does, by the point in its loop it is at.\<close>

lemma step_waiting:
  assumes sys: "sys_inv p" and i: "i < length (bp_workers p)" and w: "bp_workers p ! i = Waiting"
  shows "worker_step i p = Inr (if bp_stopping p then set_worker i Exited p else if bp_next_unclaimed p < length (bp_jobs p) then claimed i p else p)"
proof -
  have "u64 (bp_next_unclaimed p + 1) = bp_next_unclaimed p + 1" if "bp_next_unclaimed p < length (bp_jobs p)"
    using that jobs_bounded sys by (intro u64_small) (auto simp: sys_inv_def dest!: jobs_bounded)
  then show ?thesis using i by (simp add: worker_step_def w claimed_def)
qed

lemma step_claimed:
  assumes sys: "sys_inv p" and i: "i < length (bp_workers p)" and w: "bp_workers p ! i = Claimed q"
  obtains j where "j \<in> set (bp_jobs p)" and "job_ptr j = q"
    and "worker_step i p = Inr (set_worker i (if job_cancelled j then Finishing q else Copying q 0) p)"
proof -
  obtain j where "j \<in> set (bp_jobs p)" "job_ptr j = q" "job_at p q = Inr j"
    using sys held_job [OF _ _ i, of q] w by (auto simp: sys_inv_def)
  then show thesis using that [of j] i by (simp add: worker_step_def w)
qed

lemma step_copying:
  assumes sys: "sys_inv p" and i: "i < length (bp_workers p)" and w: "bp_workers p ! i = Copying q k"
  obtains j x where "j \<in> set (bp_jobs p)" and "job_ptr j = q" and "\<not> job_done j" and "job_ok p j" and "Copying (job_ptr j) k \<in> set (bp_workers p)"
    and "k < block_bytes (bp_cfg p) \<longrightarrow> bytes_at (bp_mem p) (addr_plus (job_src j) k) 1 = [x]"
    and "k < block_bytes (bp_cfg p) \<longrightarrow> valid_range (bp_mem p) (addr_plus (job_dst j) k) (length [x])"
    and "worker_step i p = Inr (if k < block_bytes (bp_cfg p)
           then set_worker i (Copying q (Suc k)) (p\<lparr>bp_mem := stored (bp_mem p) (addr_plus (job_dst j) k) [x]\<rparr>)
           else set_worker i (Finishing q) p)"
proof -
  have I: "pool_inv p" "mem_inv p" "workers_inv p" "copy_inv p" using sys by (simp_all add: sys_inv_def)
  obtain j where j: "j \<in> set (bp_jobs p)" "job_ptr j = q" "\<not> job_done j" "job_at p q = Inr j"
    using held_job [OF I(1,3) i, of q] w by auto
  have ok: "job_ok p j" using I(4) j by (simp add: copy_inv_def)
  have wm: "Copying (job_ptr j) k \<in> set (bp_workers p)" using i w j(2) by (metis nth_mem)
  have src: "valid_range (bp_mem p) (addr_plus (job_src j) k) 1" if "k < block_bytes (bp_cfg p)"
    using ok that by (intro valid_range_sub [of _ _ "block_bytes (bp_cfg p)"]) (simp_all add: job_ok_def)
  define x where "x = hd (bytes_at (bp_mem p) (addr_plus (job_src j) k) 1)"
  have x: "bytes_at (bp_mem p) (addr_plus (job_src j) k) 1 = [x]" if "k < block_bytes (bp_cfg p)"
    using length_bytes_at [OF src [OF that]] by (auto simp: length_Suc_conv x_def)
  have dst: "valid_range (bp_mem p) (addr_plus (job_dst j) k) (length [x])" if "k < block_bytes (bp_cfg p)"
    by (rule reserved_write(5) [OF I(1,2,4) j(1) that])
  have "worker_step i p = Inr (if k < block_bytes (bp_cfg p)
           then set_worker i (Copying q (Suc k)) (p\<lparr>bp_mem := stored (bp_mem p) (addr_plus (job_dst j) k) [x]\<rparr>)
           else set_worker i (Finishing q) p)"
    using i j ok mem_load_eq [OF src] mem_store_eq [OF dst] x by (auto simp: worker_step_def w job_ok_def)
  then show thesis using that [OF j(1,2,3) ok wm] x dst by blast
qed

lemma step_finishing:
  assumes sys: "sys_inv p" and i: "i < length (bp_workers p)" and w: "bp_workers p ! i = Finishing q"
  shows "worker_step i p = Inr (finished i q p)"
proof -
  obtain j where "job_at p q = Inr j" using sys held_job [OF _ _ i, of q] w by (auto simp: sys_inv_def)
  then show ?thesis using i by (simp add: worker_step_def w finished_def)
qed

lemma step_exited: "i < length (bp_workers p) \<Longrightarrow> bp_workers p ! i = Exited \<Longrightarrow> worker_step i p = Inr p"
  by (simp add: worker_step_def)

lemma copying_ok:
  assumes sys: "sys_inv p" and i: "i < length (bp_workers p)" and w: "bp_workers p ! i = Copying q k"
  shows "\<exists>p'. worker_step i p = Inr p' \<and> sys_inv p' \<and> worker_frame p p'"
proof -
  have I: "pool_inv p" "mem_inv p" "workers_inv p" "copy_inv p" using sys by (simp_all add: sys_inv_def)
  obtain j x where j: "j \<in> set (bp_jobs p)" "job_ptr j = q" "\<not> job_done j" "job_ok p j" "Copying (job_ptr j) k \<in> set (bp_workers p)"
    and x: "k < block_bytes (bp_cfg p) \<longrightarrow> bytes_at (bp_mem p) (addr_plus (job_src j) k) 1 = [x]"
      "k < block_bytes (bp_cfg p) \<longrightarrow> valid_range (bp_mem p) (addr_plus (job_dst j) k) (length [x])"
    and step: "worker_step i p = Inr (if k < block_bytes (bp_cfg p)
           then set_worker i (Copying q (Suc k)) (p\<lparr>bp_mem := stored (bp_mem p) (addr_plus (job_dst j) k) [x]\<rparr>)
           else set_worker i (Finishing q) p)"
    by (rule step_copying [OF sys i w])
  show ?thesis
  proof (cases "k < block_bytes (bp_cfg p)")
    case False
    then have "k = job_bytes j" using j(4,5) by (auto simp: job_ok_def)
    then have "sys_inv (set_worker i (Finishing q) p)"
      using job_ptr_inject [OF I(1) j(1)] j(2,4,5) by (intro sys_inv_set_worker [OF sys i]) (auto simp: w job_ok_def)
    then show ?thesis using step False by simp
  next
    case k: True
    let ?p = "set_worker i (Copying q (Suc k)) (p\<lparr>bp_mem := stored (bp_mem p) (addr_plus (job_dst j) k) [x]\<rparr>)"
    have "worker_frame p ?p"
      using reserved_write(1) [OF I(1,2,4) j(1) k _ order_refl, of _ x] by (simp add: worker_frame_def content_loc_addr)
    moreover have "workers_inv ?p" using I(3) i w by (intro workers_inv_keep) simp_all
    moreover have "copy_inv ?p" using copy_inv_copying [OF I i _ j(1,3) k x(1) [rule_format, OF k]] w j(2) by simp
    moreover have "pool_inv ?p" "mem_inv ?p" using I(1) mem_inv_stored [OF I(2) x(2) [rule_format, OF k]] by simp_all
    ultimately show ?thesis using step k by (simp add: sys_inv_def)
  qed
qed

theorem worker_step_ok:
  assumes sys: "sys_inv p" and i: "i < length (bp_workers p)"
  shows "\<exists>p'. worker_step i p = Inr p' \<and> sys_inv p' \<and> worker_frame p p'"
proof (cases "bp_workers p ! i")
  case Waiting
  have "sys_inv (set_worker i Exited p)" by (rule sys_inv_set_worker [OF sys i]) (simp_all add: Waiting)
  moreover have "worker_frame p (claimed i p)" by (simp add: worker_frame_def content_def slot_addr_def)
  ultimately show ?thesis using step_waiting [OF sys i Waiting] sys sys_inv_claimed [OF sys i Waiting] by simp
next
  case (Claimed q)
  obtain j where j: "j \<in> set (bp_jobs p)" "job_ptr j = q"
    "worker_step i p = Inr (set_worker i (if job_cancelled j then Finishing q else Copying q 0) p)" by (rule step_claimed [OF sys i Claimed])
  have "sys_inv (set_worker i (if job_cancelled j then Finishing q else Copying q 0) p)"
    using job_ptr_inject [OF _ j(1)] j(2) sys
    by (intro sys_inv_set_worker [OF sys i]) (auto simp: Claimed sys_inv_def split: if_splits)
  then show ?thesis using j(3) by simp
next
  case (Copying q k)
  then show ?thesis by (rule copying_ok [OF sys i])
next
  case (Finishing q)
  have "worker_frame p (finished i q p)" by (simp add: worker_frame_def o_def)
  then show ?thesis using step_finishing [OF sys i Finishing] sys_inv_finished [OF sys i Finishing] by simp
next
  case Exited
  then show ?thesis using step_exited [OF i] sys by simp
qed

end
