(* ===== verification/Pool_System.thy ===== *)
theory Pool_System
  imports Pool_Workers
begin

section \<open>The block pool as an abstract reference-counted store\<close>

text \<open>
  What the pool promises its clients. \<open>view p\<close> maps each allocated block to its reference
  count and its bytes and forgets where the bytes are. Every operation of the scheduler
  thread keeps \<open>sys_inv\<close> and acts on the view as a plain map of reference-counted blocks
  would; migration in either form, cancelling, draining and every worker step leave the view
  unchanged. A \<^verbatim>\<open>BlockId\<close> is thus a stable identity.
\<close>

definition view :: "BlockPool \<Rightarrow> BlockId \<rightharpoonup> (nat \<times> byte list)" where
  "view p b = (if live p b then Some (bp_refcount p ! b, content p b) else None)"

text \<open>An engine writing a block's KV through \<^verbatim>\<open>block_data()\<close>.\<close>

definition write_block :: "BlockPool \<Rightarrow> BlockId \<Rightarrow> byte list \<Rightarrow> BlockPool result" where
  "write_block p b bs =
     bindE (block_data p b) (\<lambda>a. case a of
        None \<Rightarrow> Inl (UndefinedBehaviour ''write through a null block pointer'')
      | Some a \<Rightarrow> bindE (mem_store (bp_mem p) a bs) (\<lambda>m. Inr (p\<lparr>bp_mem := m\<rparr>)))"

subsection \<open>Worker invariant under scheduler operations\<close>

lemma workers_inv_map:
  assumes "workers_inv p" and "bp_workers p' = bp_workers p"
    and "bp_next_unclaimed p' = bp_next_unclaimed p" and "bp_jobs p' = map f (bp_jobs p)"
    and "\<And>j. job_ptr (f j) = job_ptr j" and "\<And>j. job_done (f j) = job_done j"
  shows "workers_inv p'"
  using assms(1) by (simp add: workers_inv_def assms(2-6) cong: conj_cong)

lemma workers_inv_same:
  assumes "workers_inv p" and "bp_workers p' = bp_workers p"
    and "bp_next_unclaimed p' = bp_next_unclaimed p" and "bp_jobs p' = bp_jobs p"
  shows "workers_inv p'"
  using workers_inv_map [OF assms(1-3), of "\<lambda>j. j"] assms(4) by simp

lemma workers_inv_append:
  assumes w: "workers_inv p" and q: "queue_inv p"
    and "bp_next_unclaimed p' = bp_next_unclaimed p" and "bp_jobs p' = bp_jobs p @ [j]"
    and ws: "bp_workers p' = (if bp_workers p \<noteq> [] then bp_workers p else replicate n Waiting)" and "0 < n"
  shows "workers_inv p'"
proof -
  have le: "bp_next_unclaimed p \<le> length (bp_jobs p)" using q by (simp add: queue_inv_def)
  show ?thesis
  proof (cases "bp_workers p = []")
    case False
    show ?thesis
    proof (rule workers_invI, unfold assms(3,4))
      fix i r assume i: "i < length (bp_workers p')" "held (bp_workers p' ! i) = Some r"
      then obtain m where "m < bp_next_unclaimed p" "m < length (bp_jobs p)"
        "job_ptr (bp_jobs p ! m) = r" "\<not> job_done (bp_jobs p ! m)"
        using workers_invD [OF w, of i r] False ws by auto
      then show "\<exists>m < bp_next_unclaimed p. m < length (bp_jobs p @ [j])
          \<and> job_ptr ((bp_jobs p @ [j]) ! m) = r \<and> \<not> job_done ((bp_jobs p @ [j]) ! m)"
        by (intro exI [of _ m]) (simp add: nth_append)
    next
      fix i i' r assume "i < length (bp_workers p')" "i' < length (bp_workers p')"
        "held (bp_workers p' ! i) = Some r" "held (bp_workers p' ! i') = Some r"
      then show "i = i'" using workers_inv_unique [OF w, of i i' r] False ws by simp
    next
      fix m assume "m < bp_next_unclaimed p" "\<not> job_done ((bp_jobs p @ [j]) ! m)"
      then show "\<exists>i < length (bp_workers p'). held (bp_workers p' ! i)
          = Some (job_ptr ((bp_jobs p @ [j]) ! m))"
        using workers_inv_holder [OF w, of m] False ws le by (simp add: nth_append)
    qed (simp add: ws \<open>0 < n\<close>)
  next
    case True
    then have none: "bp_jobs p = []" using w by (auto simp: workers_inv_def)
    show ?thesis
      using True none le assms(3,4,6) ws by (simp add: workers_inv_def)
  qed
qed

lemma workers_inv_pop:
  assumes w: "workers_inv p" and js: "bp_jobs p = j # js" and don: "job_done j"
    and "bp_workers p' = bp_workers p" "bp_next_unclaimed p' = bp_next_unclaimed p - 1" "bp_jobs p' = js"
    and pos: "0 < bp_next_unclaimed p"
  shows "workers_inv p'"
proof (rule workers_invI, unfold assms(4-6))
  fix i r assume i: "i < length (bp_workers p)" "held (bp_workers p ! i) = Some r"
  then obtain n where n: "n < bp_next_unclaimed p" "n < length (j # js)"
    "job_ptr ((j # js) ! n) = r" "\<not> job_done ((j # js) ! n)"
    using workers_invD [OF w i] js by auto
  then obtain m where "n = Suc m" using don by (cases n) auto
  with n show "\<exists>m < bp_next_unclaimed p - 1. m < length js \<and> job_ptr (js ! m) = r \<and> \<not> job_done (js ! m)"
    by (intro exI [of _ m]) auto
next
  fix i i' r assume "i < length (bp_workers p)" "i' < length (bp_workers p)"
    "held (bp_workers p ! i) = Some r" "held (bp_workers p ! i') = Some r"
  then show "i = i'" by (rule workers_inv_unique [OF w])
next
  fix m assume "m < bp_next_unclaimed p - 1" "m < length js" "\<not> job_done (js ! m)"
  then show "\<exists>i < length (bp_workers p). held (bp_workers p ! i) = Some (job_ptr (js ! m))"
    using workers_inv_holder [OF w, of "Suc m"] js by simp
next
  show "bp_workers p \<noteq> []" using w js by (simp add: workers_inv_def)
qed

subsection \<open>Copy invariant under scheduler operations\<close>

definition same_job :: "MigrationJob \<Rightarrow> MigrationJob \<Rightarrow> bool" where
  "same_job j j' \<longleftrightarrow> job_ptr j' = job_ptr j \<and> job_id j' = job_id j \<and> job_dst_tier j' = job_dst_tier j
     \<and> job_dst_slot j' = job_dst_slot j \<and> job_src j' = job_src j \<and> job_dst j' = job_dst j
     \<and> job_bytes j' = job_bytes j \<and> job_done j' = job_done j \<and> (job_cancelled j \<longrightarrow> job_cancelled j')"

lemma job_ok_transfer:
  assumes ok: "job_ok p j" and same: "same_job j j'"
    and cfg: "bp_cfg p' = bp_cfg p" and tiers: "map ts_tier (bp_tiers p') = map ts_tier (bp_tiers p)"
    and dt: "job_dst_tier j < length (bp_tiers p)"
    and ws: "\<And>w. w \<in> set (bp_workers p') \<Longrightarrow> w \<noteq> Waiting \<Longrightarrow> w \<in> set (bp_workers p)"
    and vr: "valid_range (bp_mem p') (job_src j) (block_bytes (bp_cfg p))"
    and data: "\<not> job_cancelled j' \<Longrightarrow> loc_addr p' (job_id j) = loc_addr p (job_id j)
       \<and> (\<forall>n \<le> block_bytes (bp_cfg p). bytes_at (bp_mem p') (job_dst j) n = bytes_at (bp_mem p) (job_dst j) n
            \<and> bytes_at (bp_mem p') (job_src j) n = bytes_at (bp_mem p) (job_src j) n)"
  shows "job_ok p' j'"
proof -
  have addr: "slot_addr p' (job_dst_tier j) (job_dst_slot j) = slot_addr p (job_dst_tier j) (job_dst_slot j)"
    by (rule slot_addr_frame [OF tiers cfg dt])
  have bytes: "job_bytes j = block_bytes (bp_cfg p)" using ok by (simp add: job_ok_def)
  have cp: "copied p' j' n \<longleftrightarrow> copied p j n" if "\<not> job_cancelled j'" "n \<le> block_bytes (bp_cfg p)" for n
    using data [OF that(1)] that(2) same by (simp add: copied_def same_job_def)
  have le: "n \<le> job_bytes j" if "Copying (job_ptr j) n \<in> set (bp_workers p')" for n
    using ws [OF that] ok by (auto simp: job_ok_def)
  have "copied p' j' n" if "\<not> job_cancelled j'" "Copying (job_ptr j) n \<in> set (bp_workers p')" for n
    using cp [OF that(1), of n] le [OF that(2)] ws [OF that(2)] ok bytes same that(1)
    by (auto simp: job_ok_def same_job_def)
  moreover have "copied p' j' (job_bytes j)"
    if "\<not> job_cancelled j'" "job_done j \<or> Finishing (job_ptr j) \<in> set (bp_workers p')"
    using cp [OF that(1), of "job_bytes j"] ws [of "Finishing (job_ptr j)"] ok bytes same that
    by (auto simp: job_ok_def same_job_def)
  ultimately show ?thesis
    using ok same addr cfg vr le data by (auto simp: job_ok_def same_job_def)
qed


lemma copy_inv_transfer:
  assumes cp: "copy_inv p" and inv: "pool_inv p"
    and jobs: "\<And>j'. j' \<in> set (bp_jobs p') \<Longrightarrow> \<exists>j \<in> set (bp_jobs p). same_job j j'"
    and cfg: "bp_cfg p' = bp_cfg p" and tiers: "map ts_tier (bp_tiers p') = map ts_tier (bp_tiers p)"
    and ws: "bp_workers p' = bp_workers p"
    and vr: "\<And>a. valid_range (bp_mem p) a (block_bytes (bp_cfg p)) \<Longrightarrow>
              valid_range (bp_mem p') a (block_bytes (bp_cfg p))"
    and data: "\<And>j j'. j \<in> set (bp_jobs p) \<Longrightarrow> j' \<in> set (bp_jobs p') \<Longrightarrow> same_job j j' \<Longrightarrow> \<not> job_cancelled j' \<Longrightarrow>
       bp_location p' ! job_id j = bp_location p ! job_id j
       \<and> (\<forall>n \<le> block_bytes (bp_cfg p). bytes_at (bp_mem p') (job_dst j) n = bytes_at (bp_mem p) (job_dst j) n
            \<and> bytes_at (bp_mem p') (job_src j) n = bytes_at (bp_mem p) (job_src j) n)"
  shows "copy_inv p'"
  unfolding copy_inv_def
proof
  fix j' assume j': "j' \<in> set (bp_jobs p')"
  then obtain j where j: "j \<in> set (bp_jobs p)" "same_job j j'" using jobs by blast
  have ok: "job_ok p j" using cp j by (simp add: copy_inv_def)
  show "job_ok p' j'"
  proof (rule job_ok_transfer [OF ok j(2) cfg tiers pool_invD(7) [OF inv j(1)]])
    show "valid_range (bp_mem p') (job_src j) (block_bytes (bp_cfg p))"
      using ok vr by (simp add: job_ok_def)
    assume nc: "\<not> job_cancelled j'"
    then have "live p (job_id j)" using j inv copy_inv_live by (auto simp: same_job_def)
    then have "loc_addr p' (job_id j) = loc_addr p (job_id j)"
      using data [OF j(1) j' j(2) nc] slot_addr_frame [OF tiers cfg pool_invD(3) [OF inv]]
      by (simp add: loc_addr_def)
    with data [OF j(1) j' j(2) nc] show "loc_addr p' (job_id j) = loc_addr p (job_id j)
       \<and> (\<forall>n \<le> block_bytes (bp_cfg p). bytes_at (bp_mem p') (job_dst j) n = bytes_at (bp_mem p) (job_dst j) n
            \<and> bytes_at (bp_mem p') (job_src j) n = bytes_at (bp_mem p) (job_src j) n)" by blast
  qed (simp add: ws)
qed

lemma same_job_refl [simp]: "same_job j j"
  by (simp add: same_job_def)

lemma same_job_cancel [simp]: "same_job j (cancel_id b j)"
  by (simp add: same_job_def)

lemma same_job_cancel_mem: "j' \<in> set (map (cancel_id b) js) \<Longrightarrow> \<exists>j \<in> set js. same_job j j'"
  using same_job_cancel by (fastforce simp only: set_map)

text \<open>
  An operation of the scheduler thread that cancels the jobs of some block, or none, and
  touches neither memory nor the location of a block that is still in flight.
\<close>

lemma copy_inv_frame:
  assumes "copy_inv p" and "pool_inv p" and "bp_jobs p' = bp_jobs p \<or> bp_jobs p' = map (cancel_id b) (bp_jobs p)"
    and "bp_cfg p' = bp_cfg p" and "map ts_tier (bp_tiers p') = map ts_tier (bp_tiers p)"
    and "bp_workers p' = bp_workers p" and "bp_mem p' = bp_mem p"
    and "\<And>j. j \<in> set (bp_jobs p') \<Longrightarrow> \<not> job_cancelled j \<Longrightarrow>
           bp_location p' ! job_id j = bp_location p ! job_id j"
  shows "copy_inv p'"
proof (rule copy_inv_transfer [OF assms(1,2) _ assms(4-6)])
  fix j' assume "j' \<in> set (bp_jobs p')"
  then show "\<exists>j \<in> set (bp_jobs p). same_job j j'"
    using assms(3) same_job_cancel_mem [of j' b "bp_jobs p"] same_job_refl by (metis)
next
  fix j j' assume "j \<in> set (bp_jobs p)" "j' \<in> set (bp_jobs p')" "same_job j j'" "\<not> job_cancelled j'"
  then show "bp_location p' ! job_id j = bp_location p ! job_id j
       \<and> (\<forall>n \<le> block_bytes (bp_cfg p). bytes_at (bp_mem p') (job_dst j) n = bytes_at (bp_mem p) (job_dst j) n
            \<and> bytes_at (bp_mem p') (job_src j) n = bytes_at (bp_mem p) (job_src j) n)"
    using assms(7) assms(8) [of j'] by (simp add: same_job_def)
qed (simp add: assms(7))

subsection \<open>Operations on the store\<close>

lemma sys_invD:
  assumes "sys_inv p"
  shows "pool_inv p" "mem_inv p" "workers_inv p" "copy_inv p" "mig_inv p" "queue_inv p"
  using assms by (simp_all add: sys_inv_def pool_inv_def)

lemma sys_invI: "pool_inv p \<Longrightarrow> mem_inv p \<Longrightarrow> workers_inv p \<Longrightarrow> copy_inv p \<Longrightarrow> sys_inv p"
  by (simp add: sys_inv_def)

lemma content_cong:
  "bp_cfg p' = bp_cfg p \<Longrightarrow> map ts_tier (bp_tiers p') = map ts_tier (bp_tiers p) \<Longrightarrow>
     bp_mem p' = bp_mem p \<Longrightarrow> bp_location p' ! b = bp_location p ! b \<Longrightarrow>
     loc_tier (bp_location p ! b) < length (bp_tiers p) \<Longrightarrow> content p' b = content p b"
  using slot_addr_frame [of p' p "loc_tier (bp_location p ! b)"] by (simp add: content_def)

lemma sys_inv_cancelled: "sys_inv p \<Longrightarrow> sys_inv (cancelled_pool p b)"
proof -
  assume sys: "sys_inv p"
  note D = sys_invD [OF sys]
  show ?thesis
  proof (rule sys_invI)
    show "workers_inv (cancelled_pool p b)"
      by (rule workers_inv_map [OF D(3), where f = "cancel_id b"]) simp_all
    show "copy_inv (cancelled_pool p b)"
      by (rule copy_inv_frame [OF D(4) D(1), where b = b]) simp_all
  qed (simp_all add: D pool_inv_cancelled)
qed

lemma view_cancelled [simp]: "view (cancelled_pool p b) = view p"
  by (simp add: view_def fun_eq_iff)

theorem cancel_migration_ok:
  assumes "sys_inv p"
  shows "\<exists>p'. cancel_migration p b = Inr p' \<and> sys_inv p' \<and> view p' = view p \<and> \<not> migrating p' b"
  using assms sys_inv_cancelled [OF assms, of b] cancel_migration_eq [of p b]
    not_migrating_cancelled [of p b b] by (simp add: sys_invD)

theorem incref_ok:
  assumes sys: "sys_inv p" and b: "live p b" and r: "bp_refcount p ! b + 1 < 2 ^ 32"
  shows "\<exists>p'. incref p b = Inr p' \<and> sys_inv p'
     \<and> view p' = (view p)(b \<mapsto> (bp_refcount p ! b + 1, content p b))"
proof -
  note D = sys_invD [OF sys]
  let ?p = "p\<lparr>bp_refcount := (bp_refcount p)[b := bp_refcount p ! b + 1]\<rparr>"
  have "incref p b = Inr ?p" using incref_eq [OF D(1) b] r by (simp add: u32_small)
  moreover have "pool_inv ?p" by (rule pool_inv_ref [OF D(1) b]) (use r in simp_all)
  moreover have "mem_inv ?p" using D(2) by (simp add: mem_inv_def)
  moreover have "workers_inv ?p" by (rule workers_inv_same [OF D(3)]) simp_all
  moreover have "copy_inv ?p" by (rule copy_inv_frame [OF D(4) D(1)]) simp_all
  moreover have "content ?p c = content p c" for c by (simp add: content_def slot_addr_def)
  then have "view ?p = (view p)(b \<mapsto> (bp_refcount p ! b + 1, content p b))"
    using b pool_invD(1) [OF D(1)] by (auto simp: view_def live_def fun_eq_iff nth_list_update)
  ultimately show ?thesis by (simp add: sys_inv_def)
qed

theorem decref_store:
  assumes sys: "sys_inv p" and b: "live p b"
  shows "\<exists>p'. decref p b = Inr (bp_refcount p ! b = 1, p') \<and> sys_inv p'
     \<and> view p' = (if bp_refcount p ! b = 1 then (view p)(b := None)
                   else (view p)(b \<mapsto> (bp_refcount p ! b - 1, content p b)))"
proof (cases "bp_refcount p ! b = 1")
  case True
  note D = sys_invD [OF sys]
  let ?p = "freed_pool p b"
  have "mem_inv ?p" by (rule mem_inv_frame [OF D(2)]) simp_all
  moreover have "workers_inv ?p" by (rule workers_inv_map [OF D(3), where f = "cancel_id b"]) simp_all
  moreover have "copy_inv ?p"
    by (rule copy_inv_frame [OF D(4) D(1), where b = b]) simp_all
  moreover have "content ?p c = content p c" if "live p c" for c
    by (rule content_cong) (use pool_invD(3) [OF D(1) that] in simp_all)
  then have "view ?p = (view p)(b := None)"
    by (auto simp: view_def fun_eq_iff live_freed [OF D(1) b])
  ultimately show ?thesis
    using True decref_eq [OF D(1) b] pool_inv_freed [OF D(1) b] by (simp add: sys_inv_def)
next
  case False
  note D = sys_invD [OF sys]
  let ?p = "p\<lparr>bp_refcount := (bp_refcount p)[b := bp_refcount p ! b - 1]\<rparr>"
  have r: "1 < bp_refcount p ! b" "bp_refcount p ! b < 2 ^ 32"
    using False b D(1) by (auto simp: live_def pool_inv_defs)
  have "pool_inv ?p" by (rule pool_inv_ref [OF D(1) b]) (use r in simp_all)
  moreover have "mem_inv ?p" using D(2) by (simp add: mem_inv_def)
  moreover have "workers_inv ?p" by (rule workers_inv_same [OF D(3)]) simp_all
  moreover have "copy_inv ?p" by (rule copy_inv_frame [OF D(4) D(1)]) simp_all
  moreover have "content ?p c = content p c" for c by (simp add: content_def slot_addr_def)
  then have "view ?p = (view p)(b \<mapsto> (bp_refcount p ! b - 1, content p b))"
    using b r pool_invD(1) [OF D(1)] by (auto simp: view_def live_def fun_eq_iff nth_list_update)
  ultimately show ?thesis using False decref_eq [OF D(1) b] by (simp add: sys_inv_def)
qed


text \<open>Allocation adds a block with one reference, or refuses when the compute tier is full.\<close>

lemma allocate_store:
  assumes sys: "sys_inv p" and free: "ts_free (bp_tiers p ! 0) \<noteq> []"
  shows "\<exists>b p'. allocate p = Inr (b, p') \<and> sys_inv p' \<and> view p b = None \<and> b \<noteq> kInvalidBlock
     \<and> view p' = (view p)(b \<mapsto> (1, content p' b)) \<and> loc_tier (bp_location p' ! b) = 0
     \<and> bp_jobs p' = bp_jobs p \<and> bp_tiers p' = pop_free (bp_tiers p) 0"
proof -
  note D = sys_invD [OF sys]
  let ?b = "last (bp_free_ids p)"
  let ?p = "p\<lparr>bp_free_ids := butlast (bp_free_ids p),
       bp_location := (bp_location p)[?b := \<lparr>loc_tier = 0, loc_slot = last (ts_free (bp_tiers p ! 0))\<rparr>],
       bp_tiers := pop_free (bp_tiers p) 0, bp_refcount := (bp_refcount p)[?b := 1]\<rparr>"
  have ids: "bp_free_ids p \<noteq> []" by (rule free_slot_free_id [OF D(1) free])
  have res: "allocate p = Inr (?b, ?p)" by (rule allocate_eq [OF D(1) ids free])
  note A = pool_inv_allocate [OF D(1) ids free res]
  have "mem_inv ?p" by (rule mem_inv_frame [OF D(2)]) simp_all
  moreover have "workers_inv ?p" by (rule workers_inv_same [OF D(3)]) simp_all
  moreover have "copy_inv ?p"
  proof (rule copy_inv_frame [OF D(4) D(1)])
    fix j assume "j \<in> set (bp_jobs ?p)" "\<not> job_cancelled j"
    then have "live p (job_id j)" using copy_inv_live [OF D(1)] by simp
    then show "bp_location ?p ! job_id j = bp_location p ! job_id j" using A(4,9) by metis
  qed simp_all
  moreover have "content ?p c = content p c" if "live p c" for c
  proof (rule content_cong)
    show "bp_location ?p ! c = bp_location p ! c" using A(4,9) that by metis
  qed (simp_all add: pool_invD(3) [OF D(1) that])
  then have "view ?p = (view p)(?b \<mapsto> (1, content ?p ?b))"
    using A(4,5,6,7) by (auto simp: view_def fun_eq_iff)
  moreover have "?b < length (bp_location p)" using A(3) by (simp add: live_def)
  then have "?b \<noteq> kInvalidBlock" using pool_invD(5) [OF D(1)] by (simp add: kInvalidBlock_def)
  moreover have "loc_tier (bp_location ?p ! ?b) = 0" by (simp only: A(8) Location.simps)
  moreover have "view p ?b = None" using A(4) by (simp add: view_def)
  ultimately show ?thesis using res A(1) by (simp add: sys_inv_def)
qed

subsection \<open>Moving blocks\<close>

text \<open>A store into a free slot disturbs no block and no copy in progress.\<close>

lemma free_slot_write:
  assumes sys: "sys_inv p" and t: "t < length (bp_tiers p)" and s: "s \<in> set (ts_free (bp_tiers p ! t))"
    and len: "length bs = block_bytes (bp_cfg p)" and n: "n \<le> block_bytes (bp_cfg p)"
  defines "m \<equiv> stored (bp_mem p) (slot_addr p t s) bs"
  shows "valid_range (bp_mem p) (slot_addr p t s) (length bs)"
    and "live p c \<Longrightarrow> bytes_at m (loc_addr p c) n = bytes_at (bp_mem p) (loc_addr p c) n"
    and "j \<in> set (bp_jobs p) \<Longrightarrow> bytes_at m (job_dst j) n = bytes_at (bp_mem p) (job_dst j) n"
proof -
  note D = sys_invD [OF sys]
  show v: "valid_range (bp_mem p) (slot_addr p t s) (length bs)"
    using free_addr_valid(1) [OF D(1,2) t s] len by simp
  have keep: "bytes_at m a n = bytes_at (bp_mem p) a n"
    if "\<not> overlap (slot_addr p t s) (block_bytes (bp_cfg p)) a (block_bytes (bp_cfg p))" for a
    unfolding m_def using that n len
    by (intro bytes_at_stored_other [OF v]) (auto simp: overlap_def)
  show "bytes_at m (loc_addr p c) n = bytes_at (bp_mem p) (loc_addr p c) n" if c: "live p c"
  proof -
    have "(t, s) \<noteq> (loc_tier (bp_location p ! c), loc_slot (bp_location p ! c))"
      using free_slot_not_live [OF D(1) c s t] by auto
    from keep [OF slot_addr_disjoint [OF D(2) t pool_invD(3) [OF D(1) c] this]]
    show ?thesis by (simp add: loc_addr_def)
  qed
  show "bytes_at m (job_dst j) n = bytes_at (bp_mem p) (job_dst j) n" if j: "j \<in> set (bp_jobs p)"
  proof -
    have "(t, s) \<noteq> (job_dst_tier j, job_dst_slot j)" using job_slot_not_free [OF D(1) j] s by auto
    moreover have "job_dst j = slot_addr p (job_dst_tier j) (job_dst_slot j)"
      using D(4) j by (simp add: copy_inv_def job_ok_def)
    ultimately show ?thesis
      using keep [OF slot_addr_disjoint [OF D(2) t pool_invD(7) [OF D(1) j]]] by simp
  qed
qed

lemma migrate_store:
  assumes sys: "sys_inv p" and b: "live p b" and dst: "dst < length (bp_tiers p)"
  shows "\<exists>r p'. migrate p b dst = Inr (r, p') \<and> sys_inv p' \<and> view p' = view p
     \<and> (r \<longleftrightarrow> loc_tier (bp_location p ! b) = dst \<or> ts_free (bp_tiers p ! dst) \<noteq> [])"
proof (cases "loc_tier (bp_location p ! b) = dst \<or> ts_free (bp_tiers p ! dst) = []")
  case True
  note D = sys_invD [OF sys]
  show ?thesis
    using True sys_inv_cancelled [OF sys, of b] by (auto simp: migrate_eq [OF D(1,2) b dst])
next
  case False
  note D = sys_invD [OF sys]
  let ?c = "cancelled_pool p b" and ?s = "last (ts_free (bp_tiers p ! dst))"
  let ?m = "stored (bp_mem p) (slot_addr p dst ?s) (content p b)"
  let ?p = "(moved_pool ?c b dst)\<lparr>bp_mem := ?m\<rparr>"
  have free: "?s \<in> set (ts_free (bp_tiers p ! dst))" using False by simp
  have len: "length (content p b) = block_bytes (bp_cfg p)"
    using length_bytes_at [OF live_addr_valid(1) [OF D(1,2) b]] by (simp add: content_def Let_def)
  note W = free_slot_write [OF sys dst free len]
  have eq: "migrate p b dst = Inr (True, ?p)" using False by (simp add: migrate_eq [OF D(1,2) b dst])
  obtain "mem_inv ?p" and cont: "\<And>c. live p c \<Longrightarrow> content ?p c = content p c"
    using migrate_content [OF D(1,2) b dst] eq by (metis prod.inject sum.inject(2))
  moreover have "workers_inv ?p"
    by (rule workers_inv_map [OF D(3), where f = "cancel_id b"]) simp_all
  moreover have "copy_inv ?p"
  proof (rule copy_inv_transfer [OF D(4,1)])
    fix j' assume "j' \<in> set (bp_jobs ?p)"
    then show "\<exists>j \<in> set (bp_jobs p). same_job j j'"
      by (intro same_job_cancel_mem [of _ b]) simp
  next
    fix j j' assume j: "j \<in> set (bp_jobs p)" and "j' \<in> set (bp_jobs ?p)" "same_job j j'" "\<not> job_cancelled j'"
    then have ne: "job_id j \<noteq> b" and nc: "\<not> job_cancelled j" by (auto simp: same_job_def)
    then have "job_src j = loc_addr p (job_id j)" using D(4) j by (simp add: copy_inv_def job_ok_def)
    then show "bp_location ?p ! job_id j = bp_location p ! job_id j
       \<and> (\<forall>n \<le> block_bytes (bp_cfg p). bytes_at (bp_mem ?p) (job_dst j) n = bytes_at (bp_mem p) (job_dst j) n
            \<and> bytes_at (bp_mem ?p) (job_src j) n = bytes_at (bp_mem p) (job_src j) n)"
      using ne W(2) [OF _ copy_inv_live [OF D(1) j nc]] W(3) [OF _ j] by simp
  qed (use valid_range_stored [OF W(1) [OF order_refl]] in simp_all)
  moreover have "view ?p = view p"
    using cont by (auto simp: view_def fun_eq_iff live_def)
  ultimately show ?thesis
    using eq pool_inv_migrate(1) [OF D(1) eq] False by (auto simp: sys_inv_def)
qed


lemma workers_queued [simp]:
  "bp_workers (queued_pool p b dst) = (if bp_workers p \<noteq> [] then bp_workers p
     else replicate (if bp_hw p \<ge> 4 then 3 else 1) Waiting)"
  by (simp add: queued_pool_def ensure_worker_def)

lemma unborn_job:
  assumes sys: "sys_inv p" and w: "w \<in> set (bp_workers p)"
  shows "held w \<noteq> Some (bp_next_ptr p)"
proof
  assume h: "held w = Some (bp_next_ptr p)"
  obtain i where i: "i < length (bp_workers p)" "held (bp_workers p ! i) = Some (bp_next_ptr p)" using w h by (metis in_set_conv_nth)
  obtain k where "k \<in> set (bp_jobs p)" "job_ptr k = bp_next_ptr p" using held_job [OF sys_invD(1,3) [OF sys] i] by blast
  then show False using sys_invD(5) [OF sys] by (auto simp: mig_inv_def)
qed

lemma new_job_ok:
  assumes sys: "sys_inv p" and b: "live p b" and dst: "dst < length (bp_tiers p)" and can: "can_queue p b dst"
  shows "job_ok (queued_pool p b dst) (new_job p b dst)"
proof -
  note D = sys_invD [OF sys]
  let ?q = "queued_pool p b dst" and ?s = "last (ts_free (bp_tiers p ! dst))" and ?j = "new_job p b dst"
  have addr: "slot_addr ?q t s = slot_addr p t s" if "t < length (bp_tiers p)" for t s
    by (rule slot_addr_frame) (use that in simp_all)
  have loc: "loc_addr ?q b = loc_addr p b" using addr [OF pool_invD(3) [OF D(1) b]] by (simp add: loc_addr_def)
  have s: "?s \<in> set (ts_free (bp_tiers p ! dst))" using can by (simp add: can_queue_def)
  have none: "held w \<noteq> Some (bp_next_ptr p)" if "w \<in> set (bp_workers ?q)" for w
    using that unborn_job [OF sys, of w] by (auto split: if_splits)
  have src: "job_src ?j = loc_addr p b"
    using live_addr_valid(2) [OF D(1,2) b] by (simp add: new_job_def Let_def loc_addr_def slot_addr_def u64_small)
  have "job_dst ?j = slot_addr ?q dst ?s"
    using free_addr_valid(2) [OF D(1,2) dst s] addr [OF dst, of ?s] by (simp add: new_job_def Let_def slot_addr_def u64_small)
  moreover have "valid_range (bp_mem p) (job_src ?j) (block_bytes (bp_cfg p))"
    using live_addr_valid(1) [OF D(1,2) b] by (simp add: src loc_addr_def)
  moreover have "Copying (bp_next_ptr p) k \<notin> set (bp_workers ?q)" "Finishing (bp_next_ptr p) \<notin> set (bp_workers ?q)" for k
    using none [of "Copying (bp_next_ptr p) k"] none [of "Finishing (bp_next_ptr p)"] by (auto simp del: workers_queued)
  ultimately show ?thesis using src loc by (simp add: job_ok_def del: workers_queued)
qed

lemma copy_inv_queued:
  assumes sys: "sys_inv p" and b: "live p b" and dst: "dst < length (bp_tiers p)"
    and can: "can_queue p b dst"
  shows "copy_inv (queued_pool p b dst)"
  unfolding copy_inv_def
proof
  note D = sys_invD [OF sys]
  let ?q = "queued_pool p b dst"
  have old: "w \<in> set (bp_workers p)" if "w \<in> set (bp_workers ?q)" "w \<noteq> Waiting" for w
    using that by (auto split: if_splits)
  fix j assume "j \<in> set (bp_jobs ?q)"
  then consider "j \<in> set (bp_jobs p)" | "j = new_job p b dst" by auto
  then show "job_ok ?q j"
  proof cases
    case 1
    then have ok: "job_ok p j" using D(4) by (simp add: copy_inv_def)
    then show ?thesis
    proof (rule job_ok_transfer [OF _ same_job_refl _ _ pool_invD(7) [OF D(1) 1] old])
      show "valid_range (bp_mem ?q) (job_src j) (block_bytes (bp_cfg p))" using ok by (simp add: job_ok_def)
    next
      assume "\<not> job_cancelled j"
      then have "loc_tier (bp_location p ! job_id j) < length (bp_tiers p)" using pool_invD(3) [OF D(1) copy_inv_live [OF D(1) 1]] by blast
      then have "loc_addr ?q (job_id j) = loc_addr p (job_id j)"
        unfolding loc_addr_def by (subst slot_addr_frame [where p = p]) simp_all
      then show "loc_addr ?q (job_id j) = loc_addr p (job_id j)
       \<and> (\<forall>n \<le> block_bytes (bp_cfg p). bytes_at (bp_mem ?q) (job_dst j) n = bytes_at (bp_mem p) (job_dst j) n
            \<and> bytes_at (bp_mem ?q) (job_src j) n = bytes_at (bp_mem p) (job_src j) n)" by simp
    qed simp_all
  next
    case 2
    then show ?thesis using new_job_ok [OF assms] by simp
  qed
qed

lemma migrate_async_store:
  assumes sys: "sys_inv p" and b: "live p b" and dst: "dst < length (bp_tiers p)"
  shows "\<exists>p'. migrate_async p b dst = Inr (can_queue p b dst, p') \<and> sys_inv p' \<and> view p' = view p"
proof (cases "can_queue p b dst")
  case False
  then show ?thesis using sys migrate_async_eq [OF sys_invD(1,2) [OF sys] b dst] by simp
next
  case True
  note D = sys_invD [OF sys]
  let ?q = "queued_pool p b dst"
  have "mem_inv ?q" by (rule mem_inv_frame [OF D(2)]) simp_all
  moreover have "workers_inv ?q"
    by (rule workers_inv_append [OF D(3,6), where n = "if bp_hw p \<ge> 4 then 3 else 1"]) simp_all
  moreover have "content ?q c = content p c" if "live p c" for c
    by (rule content_cong) (use pool_invD(3) [OF D(1) that] in simp_all)
  then have "view ?q = view p" by (auto simp: view_def fun_eq_iff)
  ultimately show ?thesis
    using True migrate_async_eq [OF D(1,2) b dst] pool_inv_queued [OF D(1) b dst True]
      copy_inv_queued [OF sys b dst True] by (simp add: sys_inv_def)
qed

subsection \<open>Draining\<close>

lemma drained_one_store:
  assumes sys: "sys_inv p" and js: "bp_jobs p = j # js" and don: "job_done j"
  shows "sys_inv (drained_one (pop_job p) j)" and "view (drained_one (pop_job p) j) = view p"
proof -
  note D = sys_invD [OF sys]
  let ?q = "drained_one (pop_job p) j"
  have j: "j \<in> set (bp_jobs p)" using js by simp
  have pos: "0 < bp_next_unclaimed p"
    using D(6) js don by (cases "bp_next_unclaimed p") (auto simp: queue_inv_def)
  have "mem_inv ?q" by (rule mem_inv_frame [OF D(2)]) simp_all
  moreover have "workers_inv ?q"
    by (rule workers_inv_pop [OF D(3) js don _ _ _ pos]) (simp_all add: js)
  moreover have "copy_inv ?q"
  proof (rule copy_inv_transfer [OF D(4,1)])
    fix k assume "k \<in> set (bp_jobs ?q)"
    then show "\<exists>k' \<in> set (bp_jobs p). same_job k' k" using js by (intro bexI [of _ k]) simp_all
  next
    fix k k' assume k: "k \<in> set (bp_jobs p)" and k': "k' \<in> set (bp_jobs ?q)" "same_job k k'" "\<not> job_cancelled k'"
    have "j \<notin> set js" using D(5) js by (auto simp: mig_inv_def)
    then have "k' \<noteq> j" "k' \<in> set (bp_jobs p)" using k' js by auto
    then have "job_id k' \<noteq> job_id j \<or> job_cancelled j"
      using uncancelled_unique [OF D(5) _ j] k'(3) by blast
    then show "bp_location ?q ! job_id k = bp_location p ! job_id k
       \<and> (\<forall>n \<le> block_bytes (bp_cfg p). bytes_at (bp_mem ?q) (job_dst k) n = bytes_at (bp_mem p) (job_dst k) n
            \<and> bytes_at (bp_mem ?q) (job_src k) n = bytes_at (bp_mem p) (job_src k) n)"
      using k'(2) by (auto simp: location_drained same_job_def)
  qed simp_all
  ultimately show "sys_inv ?q" using pool_inv_drained [OF D(1) js don] by (simp add: sys_inv_def)
  have "content ?q c = content p c" if c: "live p c" for c
  proof (cases "\<not> job_cancelled j \<and> c = job_id j")
    case False
    then show ?thesis
      using pool_invD(3) [OF D(1) c] by (intro content_cong) (auto simp: location_drained)
  next
    case True
    have ok: "job_ok p j" using D(4) j by (simp add: copy_inv_def)
    have "bp_location ?q ! c = \<lparr>loc_tier = job_dst_tier j, loc_slot = job_dst_slot j\<rparr>"
      using True c by (simp add: location_drained live_def)
    then have "content ?q c = bytes_at (bp_mem p) (slot_addr ?q (job_dst_tier j) (job_dst_slot j)) (block_bytes (bp_cfg p))"
      using content_at by fastforce
    also have "slot_addr ?q (job_dst_tier j) (job_dst_slot j) = job_dst j"
      using slot_addr_frame [of ?q p "job_dst_tier j" "job_dst_slot j"] pool_invD(7) [OF D(1) j] ok
      by (simp add: job_ok_def)
    also have "bytes_at (bp_mem p) (job_dst j) (block_bytes (bp_cfg p)) = content p c"
      using ok True don unfolding job_ok_def copied_def content_loc_addr by metis
    finally show ?thesis .
  qed
  then show "view ?q = view p" by (auto simp: view_def fun_eq_iff)
qed

lemma drained_store:
  "sys_inv p \<Longrightarrow> bp_jobs p = fin @ rest \<Longrightarrow> \<forall>j \<in> set fin. job_done j \<Longrightarrow>
     sys_inv (drained p fin) \<and> view (drained p fin) = view p \<and> bp_jobs (drained p fin) = rest"
proof (induction fin arbitrary: p)
  case Nil
  then show ?case by simp
next
  case (Cons j fin)
  then show ?case using drained_one_store [of p j "fin @ rest"] by simp
qed

lemma drain_store:
  assumes "sys_inv p"
  shows "\<exists>p'. drain_migrations p = Inr p' \<and> sys_inv p' \<and> view p' = view p
     \<and> bp_jobs p' = dropWhile job_done (bp_jobs p)"
  using drain_migrations_eq [OF sys_invD(1) [OF assms]]
    drained_store [OF assms, of "takeWhile job_done (bp_jobs p)" "dropWhile job_done (bp_jobs p)"]
  by (auto dest: set_takeWhileD)


subsection \<open>Writing a block\<close>

lemma block_data_ok:
  assumes "pool_inv p" and "mem_inv p" and "live p b"
  shows "block_data p b = Inr (Some (loc_addr p b))"
  using locate_live [OF assms(1,3)] pool_invD(3) [OF assms(1,3)] live_addr_valid(2) [OF assms]
    mem_invD(1,2) [OF assms(2) pool_invD(3) [OF assms(1,3)]]
  by (simp add: block_data_def host_data_ok loc_addr_def slot_addr_def u64_small)

lemma live_slot_write:
  assumes sys: "sys_inv p" and b: "live p b" and len: "length bs = block_bytes (bp_cfg p)"
    and n: "n \<le> block_bytes (bp_cfg p)"
  defines "m \<equiv> stored (bp_mem p) (loc_addr p b) bs"
  shows "valid_range (bp_mem p) (loc_addr p b) (length bs)"
    and "live p c \<Longrightarrow> c \<noteq> b \<Longrightarrow> bytes_at m (loc_addr p c) n = bytes_at (bp_mem p) (loc_addr p c) n"
    and "j \<in> set (bp_jobs p) \<Longrightarrow> bytes_at m (job_dst j) n = bytes_at (bp_mem p) (job_dst j) n"
proof -
  note D = sys_invD [OF sys]
  let ?l = "bp_location p ! b"
  note tl = pool_invD(3) [OF D(1) b]
  show v: "valid_range (bp_mem p) (loc_addr p b) (length bs)"
    using live_addr_valid(1) [OF D(1,2) b] len by (simp add: loc_addr_def)
  have keep: "bytes_at m (slot_addr p t s) n = bytes_at (bp_mem p) (slot_addr p t s) n"
    if "t < length (bp_tiers p)" "(loc_tier ?l, loc_slot ?l) \<noteq> (t, s)" for t s
    unfolding m_def using slot_addr_disjoint [OF D(2) tl that] n len
    by (intro bytes_at_stored_other [OF v]) (auto simp: overlap_def loc_addr_def)
  show "bytes_at m (loc_addr p c) n = bytes_at (bp_mem p) (loc_addr p c) n" if c: "live p c" "c \<noteq> b"
    using live_locations_distinct [OF D(1) c(1) b c(2)] keep [OF pool_invD(3) [OF D(1) c(1)]]
    by (force simp: loc_addr_def)
  show "bytes_at m (job_dst j) n = bytes_at (bp_mem p) (job_dst j) n" if j: "j \<in> set (bp_jobs p)"
  proof -
    have "job_dst j = slot_addr p (job_dst_tier j) (job_dst_slot j)"
      using D(4) j by (simp add: copy_inv_def job_ok_def)
    then show ?thesis
      using job_slot_not_live [OF D(1) b j] keep [OF pool_invD(7) [OF D(1) j]] by force
  qed
qed

lemma write_block_store:
  assumes sys: "sys_inv p" and b: "live p b" and nm: "\<not> migrating p b"
    and len: "length bs = block_bytes (bp_cfg p)"
  shows "\<exists>p'. write_block p b bs = Inr p' \<and> sys_inv p' \<and> view p' = (view p)(b \<mapsto> (bp_refcount p ! b, bs))"
proof -
  note D = sys_invD [OF sys]
  note W = live_slot_write [OF sys b len]
  let ?p = "p\<lparr>bp_mem := stored (bp_mem p) (loc_addr p b) bs\<rparr>"
  have v: "valid_range (bp_mem p) (loc_addr p b) (length bs)" by (rule W(1) [OF order_refl])
  have "write_block p b bs = Inr ?p"
    by (simp add: write_block_def block_data_ok [OF D(1,2) b] mem_store_eq [OF v])
  moreover have "mem_inv ?p" by (rule mem_inv_stored [OF D(2) v])
  moreover have "copy_inv ?p"
  proof (rule copy_inv_transfer [OF D(4,1)])
    fix j assume "j \<in> set (bp_jobs ?p)"
    then show "\<exists>j' \<in> set (bp_jobs p). same_job j' j" by (intro bexI [of _ j]) simp_all
  next
    fix j j' assume j: "j \<in> set (bp_jobs p)" and "same_job j j'" "\<not> job_cancelled j'"
    then have nc: "\<not> job_cancelled j" by (auto simp: same_job_def)
    then have "job_id j \<noteq> b" using nm migrating_iff [OF D(5)] j by blast
    moreover have "job_src j = loc_addr p (job_id j)"
      using D(4) j nc by (simp add: copy_inv_def job_ok_def)
    ultimately show "bp_location ?p ! job_id j = bp_location p ! job_id j
       \<and> (\<forall>n \<le> block_bytes (bp_cfg p). bytes_at (bp_mem ?p) (job_dst j) n = bytes_at (bp_mem p) (job_dst j) n
            \<and> bytes_at (bp_mem ?p) (job_src j) n = bytes_at (bp_mem p) (job_src j) n)"
      using W(2) [OF _ copy_inv_live [OF D(1) j nc]] W(3) [OF _ j] by simp
  qed (simp_all add: v)
  moreover have "content ?p b = bs"
    using bytes_at_stored_same [OF v] len by (simp add: content_loc_addr)
  moreover have "content ?p c = content p c" if "live p c" "c \<noteq> b" for c
    using W(2) [OF order_refl that] by (simp add: content_loc_addr)
  ultimately show ?thesis
    using D b by (auto simp: sys_inv_def view_def fun_eq_iff live_def)
qed

subsection \<open>Workers make progress\<close>

lemma worker_view:
  assumes "worker_frame p p'" shows "view p' = view p"
proof -
  have "live p' b \<longleftrightarrow> live p b" for b using assms by (simp add: worker_frame_def live_def)
  then show ?thesis using assms by (auto simp: view_def fun_eq_iff worker_frame_def)
qed

text \<open>Steps left: those of jobs no worker has claimed yet, and those of the claimed ones.\<close>

fun worker_work :: "nat \<Rightarrow> worker \<Rightarrow> nat" where
  "worker_work n Waiting = 0"
| "worker_work n (Claimed q) = n + 3"
| "worker_work n (Copying q k) = n - k + 2"
| "worker_work n (Finishing q) = 1"
| "worker_work n Exited = 0"

definition work :: "BlockPool \<Rightarrow> nat" where
  "work p = (length (bp_jobs p) - bp_next_unclaimed p) * (block_bytes (bp_cfg p) + 4)
     + sum_list (map (worker_work (block_bytes (bp_cfg p))) (bp_workers p))"

definition running :: "BlockPool \<Rightarrow> bool" where
  "running p \<longleftrightarrow> \<not> bp_stopping p \<and> Exited \<notin> set (bp_workers p)"

lemma sum_list_update_nat:
  fixes f :: "'a \<Rightarrow> nat"
  assumes "i < length xs"
  shows "sum_list (map f (xs[i := x])) + f (xs ! i) = sum_list (map f xs) + f x"
  using assms by (induction xs arbitrary: i) (auto split: nat.splits)

lemma running_set_worker: "running p \<Longrightarrow> w \<noteq> Exited \<Longrightarrow> running (set_worker i w p)"
  using set_update_subset_insert [of "bp_workers p" i w] by (auto simp: running_def)

lemma running_cong: "bp_stopping p' = bp_stopping p \<Longrightarrow> bp_workers p' = bp_workers p \<Longrightarrow> running p' = running p"
  by (simp add: running_def)


lemma work_set_worker:
  assumes "i < length (bp_workers p)"
  shows "work (set_worker i w p) + worker_work (block_bytes (bp_cfg p)) (bp_workers p ! i)
       = work p + worker_work (block_bytes (bp_cfg p)) w"
  using sum_list_update_nat [OF assms, of "worker_work (block_bytes (bp_cfg p))" w]
  by (simp add: work_def)

lemma work_claimed:
  assumes i: "i < length (bp_workers p)" and w: "bp_workers p ! i = Waiting" and lt: "bp_next_unclaimed p < length (bp_jobs p)"
  shows "work (claimed i p) < work p"
proof -
  obtain r where r: "length (bp_jobs p) - bp_next_unclaimed p = Suc r" using lt by (metis Suc_diff_Suc)
  then have "length (bp_jobs p) - Suc (bp_next_unclaimed p) = r" by simp
  then show ?thesis
    using r sum_list_update_nat [OF i, of "worker_work (block_bytes (bp_cfg p))" "Claimed (job_ptr (bp_jobs p ! bp_next_unclaimed p))"]
    by (simp add: work_def w)
qed

lemma work_finished:
  assumes i: "i < length (bp_workers p)" and w: "bp_workers p ! i = Finishing q"
  shows "work (finished i q p) < work p"
  using sum_list_update_nat [OF i, of "worker_work (block_bytes (bp_cfg p))" Waiting] by (simp add: w work_def)

lemma work_mem [simp]: "work (p\<lparr>bp_mem := m\<rparr>) = work p" "running (p\<lparr>bp_mem := m\<rparr>) = running p"
  by (simp_all add: work_def running_def)

lemma running_finished: "running p \<Longrightarrow> running (finished i q p)"
  using set_update_subset_insert [of "bp_workers p" i Waiting] by (auto simp: running_def)

lemma running_claimed: "running p \<Longrightarrow> running (claimed i p)"
  using running_set_worker [of "p\<lparr>bp_next_unclaimed := bp_next_unclaimed p + 1\<rparr>"] by (simp add: claimed_def running_def)

lemma worker_step_work:
  assumes sys: "sys_inv p" and run: "running p" and i: "i < length (bp_workers p)"
    and step: "worker_step i p = Inr p'"
  shows "running p'"
    and "held (bp_workers p ! i) \<noteq> None \<or> bp_next_unclaimed p < length (bp_jobs p) \<Longrightarrow> work p' < work p"
    and "p' = p \<or> work p' < work p"
proof -
  have stop: "\<not> bp_stopping p" and nex: "bp_workers p ! i \<noteq> Exited"
    using run i by (auto simp: running_def dest: nth_mem)
  have "running p' \<and> (if held (bp_workers p ! i) \<noteq> None \<or> bp_next_unclaimed p < length (bp_jobs p)
      then work p' < work p else p' = p)"
  proof (cases "bp_workers p ! i")
    case Waiting
    then show ?thesis
      using step step_waiting [OF sys i Waiting] stop run work_claimed [OF i Waiting] running_claimed by (auto split: if_splits)
  next
    case (Claimed q)
    obtain j where "j \<in> set (bp_jobs p)" "job_ptr j = q" and "worker_step i p = Inr (set_worker i (if job_cancelled j then Finishing q else Copying q 0) p)"
      by (rule step_claimed [OF sys i Claimed])
    then show ?thesis
      using step work_set_worker [OF i, of "if job_cancelled j then Finishing q else Copying q 0"] run
        running_set_worker [of p "if job_cancelled j then Finishing q else Copying q 0" i]
      by (auto simp: Claimed)
  next
    case (Copying q k)
    obtain j x where "j \<in> set (bp_jobs p)" "job_ptr j = q" and s: "worker_step i p = Inr (if k < block_bytes (bp_cfg p)
        then set_worker i (Copying q (Suc k)) (p\<lparr>bp_mem := stored (bp_mem p) (addr_plus (job_dst j) k) [x]\<rparr>)
        else set_worker i (Finishing q) p)" by (rule step_copying [OF sys i Copying])
    let ?p = "p\<lparr>bp_mem := stored (bp_mem p) (addr_plus (job_dst j) k) [x]\<rparr>"
    show ?thesis
      using s step i run work_set_worker [of i ?p "Copying q (Suc k)"] running_set_worker [of ?p "Copying q (Suc k)" i]
        work_set_worker [OF i, of "Finishing q"] running_set_worker [of p "Finishing q" i]
      by (auto simp: Copying split: if_splits)
  next
    case (Finishing q)
    then show ?thesis using step step_finishing [OF sys i Finishing] work_finished [OF i Finishing] running_finished [OF run, of i q] by simp
  qed (use nex in simp)
  then show "running p'" "held (bp_workers p ! i) \<noteq> None \<or> bp_next_unclaimed p < length (bp_jobs p) \<Longrightarrow> work p' < work p"
    "p' = p \<or> work p' < work p" by (auto split: if_splits)
qed

text \<open>While a job is unfinished, some worker can move.\<close>

lemma worker_enabled:
  assumes sys: "sys_inv p" and j: "j \<in> set (bp_jobs p)" "\<not> job_done j"
  shows "\<exists>i < length (bp_workers p). held (bp_workers p ! i) \<noteq> None \<or> bp_next_unclaimed p < length (bp_jobs p)"
proof -
  note D = sys_invD [OF sys]
  obtain n where n: "n < length (bp_jobs p)" "bp_jobs p ! n = j" using j(1) by (auto simp: in_set_conv_nth)
  show ?thesis
  proof (cases "n < bp_next_unclaimed p")
    case True
    then show ?thesis using workers_inv_holder [OF D(3) True n(1)] n(2) j(2) by auto
  next
    case False
    moreover have "bp_workers p \<noteq> []" using D(3) n(1) by (auto simp: workers_inv_def)
    ultimately show ?thesis using n(1) by (intro exI [of _ 0]) simp
  qed
qed

lemma worker_steps_first:
  assumes "worker_step i p = Inr p'" and "worker_steps p' q"
  shows "worker_steps p q"
  using assms(2,1)
proof (induction rule: worker_steps.induct)
  case (ws_refl p')
  then show ?case by (rule ws_step [OF worker_steps.ws_refl])
next
  case (ws_step p' q i' r)
  then show ?case by (blast intro: worker_steps.ws_step)
qed

lemma workers_finish:
  assumes "sys_inv p" and "running p"
  shows "\<exists>q. worker_steps p q \<and> (\<forall>j \<in> set (bp_jobs q). job_done j)"
  using assms
proof (induction "work p" arbitrary: p rule: less_induct)
  case less
  show ?case
  proof (cases "\<forall>j \<in> set (bp_jobs p). job_done j")
    case True
    then show ?thesis using ws_refl by blast
  next
    case False
    then obtain i where i: "i < length (bp_workers p)"
      "held (bp_workers p ! i) \<noteq> None \<or> bp_next_unclaimed p < length (bp_jobs p)"
      using worker_enabled [OF less.prems(1)] by blast
    obtain p' where p': "worker_step i p = Inr p'" "sys_inv p'"
      using worker_step_ok [OF less.prems(1) i(1)] by blast
    note P = worker_step_work [OF less.prems i(1) p'(1)]
    obtain q where q: "worker_steps p' q" "\<forall>j \<in> set (bp_jobs q). job_done j"
      using less.hyps [OF P(2) [OF i(2)] p'(2) P(1)] by blast
    have "worker_steps p q" by (rule worker_steps_first [OF p'(1) q(1)])
    with q(2) show ?thesis by blast
  qed
qed

end
