(* ===== verification/Pool_Store.thy ===== *)
theory Pool_Store
  imports Pool_System
begin

section \<open>Histories of a pool and the store they implement\<close>

text \<open>
  A history is a sequence of operations of the scheduler thread with worker steps falling
  between them in any order (\<open>pool_op\<close>, \<open>pool_exec\<close>). \<open>op_allowed\<close> is what a caller owes:
  to name allocated blocks and existing tiers, not to overflow a 32-bit reference count,
  and to write a block only while it is not in flight. \<open>store_step\<close> is the abstract
  reference-counted store: no tiers, no slots, no jobs. The pool is a refinement of it.
\<close>

datatype pool_op =
    Alloc | Incref BlockId | Decref BlockId | Cancel BlockId | Migrate BlockId nat
  | MigrateAsync BlockId nat | Drain | Write BlockId "byte list" | Worker nat

fun pool_exec :: "pool_op \<Rightarrow> BlockPool \<Rightarrow> BlockPool result" where
  "pool_exec Alloc p = bindE (allocate p) (\<lambda>(b, p'). Inr p')"
| "pool_exec (Incref b) p = incref p b"
| "pool_exec (Decref b) p = bindE (decref p b) (\<lambda>(d, p'). Inr p')"
| "pool_exec (Cancel b) p = cancel_migration p b"
| "pool_exec (Migrate b t) p = bindE (migrate p b t) (\<lambda>(r, p'). Inr p')"
| "pool_exec (MigrateAsync b t) p = bindE (migrate_async p b t) (\<lambda>(r, p'). Inr p')"
| "pool_exec Drain p = drain_migrations p"
| "pool_exec (Write b bs) p = write_block p b bs"
| "pool_exec (Worker i) p = worker_step i p"

fun op_allowed :: "BlockPool \<Rightarrow> pool_op \<Rightarrow> bool" where
  "op_allowed p (Incref b) \<longleftrightarrow> live p b \<and> bp_refcount p ! b + 1 < 2 ^ 32"
| "op_allowed p (Decref b) \<longleftrightarrow> live p b"
| "op_allowed p (Migrate b t) \<longleftrightarrow> live p b \<and> t < num_tiers p"
| "op_allowed p (MigrateAsync b t) \<longleftrightarrow> live p b \<and> t < num_tiers p"
| "op_allowed p (Write b bs) \<longleftrightarrow> live p b \<and> \<not> migrating p b \<and> length bs = block_bytes (bp_cfg p)"
| "op_allowed p (Worker i) \<longleftrightarrow> i < length (bp_workers p)"
| "op_allowed p _ \<longleftrightarrow> True"

type_synonym store = "BlockId \<rightharpoonup> (nat \<times> byte list)"

inductive store_step :: "pool_op \<Rightarrow> store \<Rightarrow> store \<Rightarrow> bool" where
  st_alloc: "s b = None \<Longrightarrow> store_step Alloc s (s(b \<mapsto> (1, bs)))"
| st_full: "store_step Alloc s s"
| st_incref: "s b = Some (n, bs) \<Longrightarrow> store_step (Incref b) s (s(b \<mapsto> (n + 1, bs)))"
| st_decref: "s b = Some (Suc (Suc n), bs) \<Longrightarrow> store_step (Decref b) s (s(b \<mapsto> (Suc n, bs)))"
| st_free: "s b = Some (1, bs) \<Longrightarrow> store_step (Decref b) s (s(b := None))"
| st_write: "s b = Some (n, bs') \<Longrightarrow> store_step (Write b bs) s (s(b \<mapsto> (n, bs)))"
| st_cancel: "store_step (Cancel b) s s"
| st_migrate: "store_step (Migrate b t) s s"
| st_async: "store_step (MigrateAsync b t) s s"
| st_drain: "store_step Drain s s"
| st_worker: "store_step (Worker i) s s"

inductive_cases store_step_migrateE: "store_step (Migrate b t) s s'"
inductive_cases store_step_workerE: "store_step (Worker i) s s'"

lemmas store_step_intros = store_step.intros

lemma decref_refines:
  assumes sys: "sys_inv p" and b: "live p b"
  shows "\<exists>p'. pool_exec (Decref b) p = Inr p' \<and> sys_inv p' \<and> store_step (Decref b) (view p) (view p')"
proof -
  have v: "view p b = Some (bp_refcount p ! b, content p b)" using b by (simp add: view_def)
  obtain p' where p': "decref p b = Inr (bp_refcount p ! b = 1, p')" "sys_inv p'"
    "view p' = (if bp_refcount p ! b = 1 then (view p)(b := None)
                   else (view p)(b \<mapsto> (bp_refcount p ! b - 1, content p b)))"
    using decref_store [OF sys b] by blast
  have "store_step (Decref b) (view p) (view p')"
  proof (cases "bp_refcount p ! b = 1")
    case True
    then show ?thesis using st_free [of "view p" b] v p'(3) by simp
  next
    case False
    then obtain n where "bp_refcount p ! b = Suc (Suc n)"
      using b by (metis live_def One_nat_def gr0_conv_Suc not0_implies_Suc)
    then show ?thesis using st_decref [of "view p" b n] v p'(3) by simp
  qed
  with p' show ?thesis by simp
qed

lemma pool_exec_refines:
  assumes sys: "sys_inv p" and ok: "op_allowed p oper"
  shows "\<exists>p'. pool_exec oper p = Inr p' \<and> sys_inv p' \<and> store_step oper (view p) (view p')"
proof (cases oper)
  case Alloc
  show ?thesis
  proof (cases "ts_free (bp_tiers p ! 0) = []")
    case True
    then show ?thesis
      using Alloc sys allocate_full [OF sys_invD(1) [OF sys]] by (simp add: st_full)
  next
    case False
    then show ?thesis
      using Alloc allocate_store [OF sys False] st_alloc [of "view p"] by fastforce
  qed
next
  case (Incref b)
  then show ?thesis
    using incref_ok [OF sys, of b] ok st_incref [of "view p" b] by (auto simp: view_def)
next
  case (Decref b)
  then show ?thesis using decref_refines [OF sys] ok by simp
next
  case (Cancel b)
  then show ?thesis using cancel_migration_ok [OF sys, of b] st_cancel by auto
next
  case (Migrate b t)
  then show ?thesis
    using migrate_store [OF sys, of b t] ok st_migrate [of b t "view p"] by (auto simp: num_tiers_def)
next
  case (MigrateAsync b t)
  then show ?thesis
    using migrate_async_store [OF sys, of b t] ok st_async [of b t "view p"] by (auto simp: num_tiers_def)
next
  case Drain
  then show ?thesis using drain_store [OF sys] st_drain by auto
next
  case (Write b bs)
  then show ?thesis
    using write_block_store [OF sys, of b bs] ok st_write [of "view p" b _ _ bs] by (auto simp: view_def)
next
  case (Worker i)
  then show ?thesis
    using worker_step_ok [OF sys, of i] ok worker_view st_worker [of i "view p"] by fastforce
qed

text \<open>States a pool can reach from its construction.\<close>

inductive reachable_pool :: "nat \<Rightarrow> memory \<Rightarrow> CacheConfig \<Rightarrow> TierSpec list \<Rightarrow> BlockPool \<Rightarrow> bool"
  for hw m c specs where
  rp_init: "BlockPool_tiered hw m specs c = Inr p \<Longrightarrow> reachable_pool hw m c specs p"
| rp_step: "reachable_pool hw m c specs p \<Longrightarrow> op_allowed p oper \<Longrightarrow> pool_exec oper p = Inr p' \<Longrightarrow>
     reachable_pool hw m c specs p'"

lemma sys_inv_init:
  assumes "specs_ok m c specs" and "BlockPool_tiered hw m specs c = Inr p"
  shows "sys_inv p" and "view p = Map.empty"
proof -
  obtain q where q: "pool_init hw m c specs = Inr q" "pool_inv q" "mem_inv q" "bp_jobs q = []"
    "bp_workers q = []" "\<And>b. \<not> live q b"
    using pool_init_ok [OF assms(1)] by metis
  then have "q = p" using assms(2) by (simp add: BlockPool_tiered_def)
  with q show "sys_inv p" "view p = Map.empty"
    by (simp_all add: sys_inv_def workers_inv_def copy_inv_def view_def fun_eq_iff)
qed

lemma reachable_sys_inv:
  assumes "reachable_pool hw m c specs p" and "specs_ok m c specs"
  shows "sys_inv p"
  using assms
proof (induction rule: reachable_pool.induct)
  case (rp_init p)
  then show ?case using sys_inv_init(1) by blast
next
  case (rp_step p oper p')
  then show ?case using pool_exec_refines [of p oper] by auto
qed

lemma worker_steps_store:
  assumes "worker_steps p q" and "sys_inv p"
  shows "sys_inv q \<and> worker_frame p q"
  using assms
proof (induction rule: worker_steps.induct)
  case (ws_refl p)
  then show ?case by simp
next
  case (ws_step p q i r)
  have i: "i < length (bp_workers q)"
    using ws_step.hyps(2) by (auto simp: worker_step_def result_simps)
  have fr: "worker_frame p q" and q: "sys_inv q" using ws_step by auto
  obtain "sys_inv r" and qr: "worker_frame q r"
    using worker_step_ok [OF q i] ws_step.hyps(2) by auto
  moreover have "live q b \<longleftrightarrow> live p b" for b using fr by (simp add: worker_frame_def live_def)
  then have "worker_frame p r" using fr qr by (simp add: worker_frame_def)
  ultimately show ?case by blast
qed

text \<open>
  \<^verbatim>\<open>wait_for_migrations()\<close> can always return while the workers run, and when it does
  nothing is in flight and no block has changed.
\<close>

lemma wait_for_migrations_store:
  assumes "sys_inv p" and "wait_for_migrations p r"
  shows "sys_inv r" and "view r = view p" and "bp_jobs r = []" and "\<not> migrating r b"
proof -
  from assms(2) obtain q where q: "worker_steps p q" "\<forall>j \<in> set (bp_jobs q). job_done j"
    "drain_migrations q = Inr r" by (auto elim: wait_for_migrations.cases)
  have w: "sys_inv q" "view q = view p" using worker_steps_store [OF q(1) assms(1)] worker_view by auto
  have "dropWhile job_done (bp_jobs q) = []" using q(2) by simp
  then show r: "sys_inv r" "view r = view p" "bp_jobs r = []"
    using drain_store [OF w(1)] w(2) q(3) by auto
  show "\<not> migrating r b" using migrating_iff [OF sys_invD(5) [OF r(1)]] r(3) by simp
qed

lemma wait_for_migrations_returns:
  assumes "sys_inv p" and "running p"
  shows "\<exists>r. wait_for_migrations p r"
proof -
  obtain q where q: "worker_steps p q" "\<forall>j \<in> set (bp_jobs q). job_done j"
    using workers_finish [OF assms] by blast
  then obtain r where "drain_migrations q = Inr r"
    using worker_steps_store [OF q(1) assms(1)] drain_store by blast
  with q show ?thesis by (blast intro: wait_done)
qed

end
