(* ===== verification/Radix_Tree.thy ===== *)
theory Radix_Tree
  imports Pool_Store "HOL-Library.AList"
begin

section \<open>The prefix tree: state and operations\<close>

text \<open>
  \<^verbatim>\<open>class RadixTree\<close> (\<^verbatim>\<open>include/kvslab/radix_tree.hpp\<close>, \<^verbatim>\<open>src/radix_tree.cpp\<close>). Clients
  hold \<^verbatim>\<open>Node*\<close> pins into the tree and nodes point to their parents, so the nodes live in
  an explicit heap: a \<^verbatim>\<open>Node*\<close> is an address, \<open>node_at\<close> follows one and is undefined
  behaviour when no node lives there. An \<^verbatim>\<open>unordered_map\<close> of children is an association
  list; its order stands for the unspecified iteration order. A \<^verbatim>\<open>unique_ptr\<close> that leaves
  scope removes the node from the heap.

  The pool is passed and returned by the operations that change it. A walk that follows
  pointers is given \<open>rt_next\<close>, the number of nodes ever created, as fuel; a walk longer than
  that is in a cycle and would never end, which the language leaves undefined. Theory
  \<open>Radix_Invariant\<close> shows that no walk of a well-formed tree runs out.
\<close>

subsection \<open>State\<close>

record Node =
  nd_tokens :: "TokenId list"
  nd_blocks :: "BlockId list"
  nd_children :: "(key \<times> nat) list"
  nd_parent :: "nat option"
  nd_lock :: nat
  nd_last :: nat

definition fresh_node :: Node where
  "fresh_node = \<lparr>nd_tokens = [], nd_blocks = [], nd_children = [], nd_parent = None,
                 nd_lock = 0, nd_last = 0\<rparr>"

record RadixTree =
  rt_nodes :: "nat \<rightharpoonup> Node"
  rt_block_tokens :: nat
  rt_root :: nat
  rt_clock :: nat
  rt_stored_blocks :: nat
  rt_num_nodes :: nat
  rt_collisions :: nat
  rt_next :: nat

record MatchResult =
  mr_num_tokens :: nat
  mr_blocks :: "BlockId list"
  mr_node :: "nat option"

definition RadixTree_new :: "nat \<Rightarrow> RadixTree result" where
  "RadixTree_new block_tokens =
     bindE (assertE (0 < block_tokens) ''block_tokens_ > 0'') (\<lambda>_.
       Inr \<lparr>rt_nodes = [0 \<mapsto> fresh_node], rt_block_tokens = block_tokens, rt_root = 0,
            rt_clock = 0, rt_stored_blocks = 0, rt_num_nodes = 0, rt_collisions = 0,
            rt_next = 1\<rparr>)"

definition node_at :: "RadixTree \<Rightarrow> nat \<Rightarrow> Node result" where
  "node_at t n = (case rt_nodes t n of
     None \<Rightarrow> Inl (UndefinedBehaviour ''dangling node pointer'')
   | Some nd \<Rightarrow> Inr nd)"

definition set_node :: "nat \<Rightarrow> Node \<Rightarrow> RadixTree \<Rightarrow> RadixTree" where
  "set_node n nd t = t\<lparr>rt_nodes := (rt_nodes t)(n \<mapsto> nd)\<rparr>"

definition touch :: "RadixTree \<Rightarrow> nat \<Rightarrow> RadixTree result" where
  "touch t n = bindE (node_at t n) (\<lambda>nd.
     let c = u64 (rt_clock t + 1)
     in Inr (set_node n (nd\<lparr>nd_last := c\<rparr>) (t\<lparr>rt_clock := c\<rparr>)))"

subsection \<open>Splitting and walking\<close>

definition split_node :: "RadixTree \<Rightarrow> nat \<Rightarrow> nat \<Rightarrow> (nat \<times> RadixTree) result" where
  "split_node t n offset =
     bindE (node_at t n) (\<lambda>nd.
     bindE (assertE (0 < offset \<and> offset < length (nd_tokens nd)) ''split offset in range'') (\<lambda>_.
     bindE (assertE (offset mod rt_block_tokens t = 0) ''split on a block boundary'') (\<lambda>_.
       case nd_parent nd of
         None \<Rightarrow> Inl (UndefinedBehaviour ''null parent pointer'')
       | Some parent \<Rightarrow> bindE (node_at t parent) (\<lambda>pn.
           let head_key = block_key (nd_tokens nd) (rt_block_tokens t);
               head_blocks = offset div rt_block_tokens t
           in case map_of (nd_children pn) head_key of
                None \<Rightarrow> Inl (UndefinedBehaviour ''split of a node its parent does not own'')
              | Some owned \<Rightarrow>
                  let h = rt_next t;
                      tail = nd\<lparr>nd_tokens := drop offset (nd_tokens nd),
                                nd_blocks := drop head_blocks (nd_blocks nd),
                                nd_parent := Some h\<rparr>;
                      tail_key = block_key (nd_tokens tail) (rt_block_tokens t);
                      head = \<lparr>nd_tokens = take offset (nd_tokens nd),
                              nd_blocks = take head_blocks (nd_blocks nd),
                              nd_children = [(tail_key, owned)],
                              nd_parent = Some parent,
                              nd_lock = nd_lock nd,
                              nd_last = nd_last nd\<rparr>;
                      pn' = pn\<lparr>nd_children := AList.update head_key h (nd_children pn)\<rparr>
                  in Inr (h, t\<lparr>rt_nodes := (rt_nodes t)(n \<mapsto> tail, h \<mapsto> head, parent \<mapsto> pn'),
                               rt_num_nodes := u64 (rt_num_nodes t + 1),
                               rt_next := h + 1\<rparr>)))))"

text \<open>The inner loop of both walks: how many whole blocks of the child agree.\<close>

function common_blocks :: "nat \<Rightarrow> TokenId list \<Rightarrow> TokenId list \<Rightarrow> nat \<Rightarrow> nat \<Rightarrow> nat \<Rightarrow> nat result" where
  "common_blocks bt child_tokens tokens pos max_blocks common =
     (if common < max_blocks then
        if (common + 1) * bt > length child_tokens \<or> pos + (common + 1) * bt > length tokens
        then Inl (UndefinedBehaviour ''token range past the end'')
        else if take bt (drop (common * bt) child_tokens) = take bt (drop (pos + common * bt) tokens)
        then common_blocks bt child_tokens tokens pos max_blocks (common + 1)
        else Inr common
      else Inr common)"
  by pat_completeness auto
termination by (relation "measure (\<lambda>(_, _, _, _, m, c). m - c)") auto

declare common_blocks.simps [simp del]

lemma bindE_cong [fundef_cong]:
  "m = m' \<Longrightarrow> (\<And>x. m' = Inr x \<Longrightarrow> f x = f' x) \<Longrightarrow> bindE m f = bindE m' f'"
  by (cases m') auto

text \<open>
  The walk of \<^verbatim>\<open>match_prefix()\<close>, with its local variables \<^verbatim>\<open>cur\<close>, \<^verbatim>\<open>pos\<close> and \<^verbatim>\<open>result\<close>. The
  constructor asserts \<^verbatim>\<open>block_tokens_ > 0\<close>; the guard repeats it so that the recursion is
  total.
\<close>

function match_loop :: "TokenId list \<Rightarrow> nat \<Rightarrow> RadixTree \<Rightarrow> nat \<Rightarrow> nat \<Rightarrow> MatchResult
    \<Rightarrow> (nat \<times> nat \<times> MatchResult \<times> RadixTree) result" where
  "match_loop tokens limit t cur pos res =
     (if pos < limit \<and> 0 < rt_block_tokens t then
        bindE (node_at t cur) (\<lambda>cn.
        case map_of (nd_children cn) (block_key (drop pos tokens) (rt_block_tokens t)) of
          None \<Rightarrow> Inr (cur, pos, res, t)
        | Some child \<Rightarrow>
            bindE (node_at t child) (\<lambda>ch.
            bindE (common_blocks (rt_block_tokens t) (nd_tokens ch) tokens pos
                     (min (length (nd_blocks ch)) ((limit - pos) div rt_block_tokens t)) 0) (\<lambda>common.
              if common = 0 then Inr (cur, pos, res, t)
              else if common < length (nd_blocks ch) then
                bindE (split_node t child (common * rt_block_tokens t)) (\<lambda>(h, t1).
                bindE (touch t1 h) (\<lambda>t2.
                  Inr (h, pos + common * rt_block_tokens t,
                       res\<lparr>mr_blocks := mr_blocks res @ take common (nd_blocks ch),
                           mr_node := Some h\<rparr>, t2)))
              else
                bindE (touch t child) (\<lambda>t1.
                  match_loop tokens limit t1 child (pos + common * rt_block_tokens t)
                    (res\<lparr>mr_blocks := mr_blocks res @ take common (nd_blocks ch),
                         mr_node := Some child\<rparr>)))))
      else Inr (cur, pos, res, t))"
  by pat_completeness auto
termination
proof (relation "measure (\<lambda>(_, limit, _, _, pos, _). limit - pos)", goal_cases)
  case 1
  show ?case by simp
next
  case (2 tokens limit t cur pos res cn child ch common t1)
  then have "pos < limit" and "0 < common * rt_block_tokens t" by simp_all
  then have "limit - (pos + common * rt_block_tokens t) < limit - pos" by linarith
  then show ?case by simp
qed

declare match_loop.simps [simp del]

definition match_prefix :: "RadixTree \<Rightarrow> TokenId list \<Rightarrow> (MatchResult \<times> RadixTree) result" where
  "match_prefix t tokens =
     bindE (match_loop tokens (length tokens div rt_block_tokens t * rt_block_tokens t)
              t (rt_root t) 0 \<lparr>mr_num_tokens = 0, mr_blocks = [], mr_node = None\<rparr>)
       (\<lambda>(cur, pos, res, t'). Inr (res\<lparr>mr_num_tokens := pos\<rparr>, t'))"

text \<open>The walk of \<^verbatim>\<open>insert()\<close> repeats the same steps without collecting a result.\<close>

function insert_loop :: "TokenId list \<Rightarrow> nat \<Rightarrow> RadixTree \<Rightarrow> nat \<Rightarrow> nat
    \<Rightarrow> (nat \<times> nat \<times> RadixTree) result" where
  "insert_loop tokens limit t cur pos =
     (if pos < limit \<and> 0 < rt_block_tokens t then
        bindE (node_at t cur) (\<lambda>cn.
        case map_of (nd_children cn) (block_key (drop pos tokens) (rt_block_tokens t)) of
          None \<Rightarrow> Inr (cur, pos, t)
        | Some child \<Rightarrow>
            bindE (node_at t child) (\<lambda>ch.
            bindE (common_blocks (rt_block_tokens t) (nd_tokens ch) tokens pos
                     (min (length (nd_blocks ch)) ((limit - pos) div rt_block_tokens t)) 0) (\<lambda>common.
              if common = 0 then Inr (cur, pos, t)
              else if common < length (nd_blocks ch) then
                bindE (split_node t child (common * rt_block_tokens t)) (\<lambda>(h, t1).
                bindE (touch t1 h) (\<lambda>t2.
                  Inr (h, pos + common * rt_block_tokens t, t2)))
              else
                bindE (touch t child) (\<lambda>t1.
                  insert_loop tokens limit t1 child (pos + common * rt_block_tokens t)))))
      else Inr (cur, pos, t))"
  by pat_completeness auto
termination
proof (relation "measure (\<lambda>(_, limit, _, _, pos). limit - pos)", goal_cases)
  case 1
  show ?case by simp
next
  case (2 tokens limit t cur pos cn child ch common t1)
  then have "pos < limit" and "0 < common * rt_block_tokens t" by simp_all
  then have "limit - (pos + common * rt_block_tokens t) < limit - pos" by linarith
  then show ?case by simp
qed

declare insert_loop.simps [simp del]

definition insert_limit :: "RadixTree \<Rightarrow> TokenId list \<Rightarrow> BlockId list \<Rightarrow> nat" where
  "insert_limit t tokens blocks =
     min (length tokens div rt_block_tokens t * rt_block_tokens t)
         (u64 (length blocks * rt_block_tokens t))"

definition tree_insert :: "RadixTree \<Rightarrow> BlockPool \<Rightarrow> TokenId list \<Rightarrow> BlockId list
    \<Rightarrow> (nat \<times> RadixTree \<times> BlockPool) result" where
  "tree_insert t p tokens blocks =
     (let bt = rt_block_tokens t; limit = insert_limit t tokens blocks in
      bindE (insert_loop tokens limit t (rt_root t) 0) (\<lambda>(cur, pos, t1).
        if pos \<ge> limit then bindE (touch t1 cur) (\<lambda>t2. Inr (0, t2, p))
        else bindE (node_at t1 cur) (\<lambda>cn.
          let key = block_key (drop pos tokens) bt in
          if map_of (nd_children cn) key \<noteq> None then
            Inr (0, t1\<lparr>rt_collisions := u64 (rt_collisions t1 + 1)\<rparr>, p)
          else
            let c = u64 (rt_clock t1 + 1);
                n = rt_next t1;
                leaf = \<lparr>nd_tokens = drop pos (take limit tokens),
                        nd_blocks = drop (pos div bt) (take (limit div bt) blocks),
                        nd_children = [], nd_parent = Some cur, nd_lock = 0, nd_last = c\<rparr>;
                adopted = length (nd_blocks leaf)
            in bindE (foldE (\<lambda>bid q. incref q bid) (nd_blocks leaf) p) (\<lambda>p'.
                 Inr (adopted,
                   t1\<lparr>rt_nodes := (rt_nodes t1)(n \<mapsto> leaf,
                         cur \<mapsto> cn\<lparr>nd_children := AList.update key n (nd_children cn)\<rparr>),
                      rt_clock := c,
                      rt_stored_blocks := u64 (rt_stored_blocks t1 + adopted),
                      rt_num_nodes := u64 (rt_num_nodes t1 + 1),
                      rt_next := n + 1\<rparr>, p')))))"

subsection \<open>Eviction\<close>

fun tree_is_sole_owner :: "BlockPool \<Rightarrow> BlockId list \<Rightarrow> bool result" where
  "tree_is_sole_owner p [] = Inr True"
| "tree_is_sole_owner p (bid # bs) =
     bindE (refcount p bid) (\<lambda>r. if r \<noteq> 1 then Inr False else tree_is_sole_owner p bs)"

definition count_decref :: "BlockId \<Rightarrow> nat \<times> BlockPool \<Rightarrow> (nat \<times> BlockPool) result" where
  "count_decref bid s =
     bindE (decref (snd s) bid) (\<lambda>(freed, p'). Inr (if freed then fst s + 1 else fst s, p'))"

definition drop_leaf :: "RadixTree \<Rightarrow> BlockPool \<Rightarrow> nat \<Rightarrow> (nat \<times> RadixTree \<times> BlockPool) result" where
  "drop_leaf t p victim =
     bindE (node_at t victim) (\<lambda>vn.
     bindE (foldE count_decref (nd_blocks vn) (0, p)) (\<lambda>(freed, p').
       case nd_parent vn of
         None \<Rightarrow> Inl (UndefinedBehaviour ''null parent pointer'')
       | Some parent \<Rightarrow> bindE (node_at t parent) (\<lambda>pn.
           let key = block_key (nd_tokens vn) (rt_block_tokens t);
               dying = (case map_of (nd_children pn) key of None \<Rightarrow> {} | Some c \<Rightarrow> {c})
           in Inr (freed,
                t\<lparr>rt_nodes := ((rt_nodes t)(parent \<mapsto>
                      pn\<lparr>nd_children := AList.delete key (nd_children pn)\<rparr>)) |` (- dying),
                  rt_stored_blocks := sub64 (rt_stored_blocks t) (length (nd_blocks vn)),
                  rt_num_nodes := sub64 (rt_num_nodes t) 1\<rparr>, p'))))"

text \<open>The guards of \<^verbatim>\<open>find_lru_leaf()\<close> on one node of the walk.\<close>

definition lru_candidate :: "RadixTree \<Rightarrow> nat list \<Rightarrow> nat \<Rightarrow> Node \<Rightarrow> bool" where
  "lru_candidate t rejected n nd \<longleftrightarrow>
     n \<noteq> rt_root t \<and> nd_children nd = [] \<and> \<not> nd_lock nd > 0 \<and> n \<notin> set rejected"

definition better :: "RadixTree \<Rightarrow> nat \<Rightarrow> Node \<Rightarrow> nat option \<Rightarrow> nat option result" where
  "better t n nd best =
     (case best of
        None \<Rightarrow> Inr (Some n)
      | Some b \<Rightarrow> bindE (node_at t b) (\<lambda>bn.
          Inr (if nd_last nd < nd_last bn then Some n else Some b)))"

fun lru_loop :: "nat \<Rightarrow> RadixTree \<Rightarrow> nat list \<Rightarrow> nat list \<Rightarrow> nat option \<Rightarrow> nat option result" where
  "lru_loop fuel t rejected [] best = Inr best"
| "lru_loop 0 t rejected (x # xs) best = Inl (UndefinedBehaviour ''endless walk'')"
| "lru_loop (Suc fuel) t rejected (x # xs) best =
     bindE (node_at t (last (x # xs))) (\<lambda>nd.
     bindE (if lru_candidate t rejected (last (x # xs)) nd then better t (last (x # xs)) nd best
            else Inr best) (\<lambda>best'.
       lru_loop fuel t rejected (butlast (x # xs) @ map snd (nd_children nd)) best'))"

definition find_lru_leaf :: "RadixTree \<Rightarrow> nat list \<Rightarrow> nat option result" where
  "find_lru_leaf t rejected = lru_loop (rt_next t) t rejected [rt_root t] None"

fun evict_loop :: "nat \<Rightarrow> nat \<Rightarrow> RadixTree \<Rightarrow> BlockPool \<Rightarrow> nat \<Rightarrow> nat list
    \<Rightarrow> (nat \<times> RadixTree \<times> BlockPool) result" where
  "evict_loop 0 want t p freed rejected =
     (if freed < want then Inl (UndefinedBehaviour ''endless eviction'') else Inr (freed, t, p))"
| "evict_loop (Suc fuel) want t p freed rejected =
     (if freed < want then
        bindE (find_lru_leaf t rejected) (\<lambda>victim. case victim of
          None \<Rightarrow> Inr (freed, t, p)
        | Some v \<Rightarrow>
            bindE (node_at t v) (\<lambda>vn.
            bindE (tree_is_sole_owner p (nd_blocks vn)) (\<lambda>sole.
              if \<not> sole then evict_loop fuel want t p freed (rejected @ [v])
              else bindE (drop_leaf t p v) (\<lambda>(reclaimed, t', p').
                bindE (assertE (0 < reclaimed) ''a sole-owner leaf freed nothing'') (\<lambda>_.
                  evict_loop fuel want t' p' (freed + reclaimed) rejected)))))
      else Inr (freed, t, p))"

definition evict :: "RadixTree \<Rightarrow> BlockPool \<Rightarrow> nat \<Rightarrow> (nat \<times> RadixTree \<times> BlockPool) result" where
  "evict t p want = evict_loop (rt_next t) want t p 0 []"

subsection \<open>Demotion victims\<close>

definition pick_block :: "BlockPool \<Rightarrow> nat \<Rightarrow> BlockId \<Rightarrow> BlockId list \<Rightarrow> BlockId list result" where
  "pick_block p num_slots bid out =
     (if length out \<ge> num_slots then Inr out
      else bindE (block_tier p bid) (\<lambda>tier.
        if tier \<noteq> 0 then Inr out
        else bindE (refcount p bid) (\<lambda>r.
          if r \<noteq> 1 then Inr out
          else if migrating p bid then Inr out
          else Inr (out @ [bid]))))"

fun pick_loop :: "nat \<Rightarrow> nat \<Rightarrow> RadixTree \<Rightarrow> BlockPool \<Rightarrow> nat list \<Rightarrow> BlockId list
    \<Rightarrow> BlockId list result" where
  "pick_loop 0 num_slots t p rejected out =
     (if length out < num_slots then Inl (UndefinedBehaviour ''endless victim search'') else Inr out)"
| "pick_loop (Suc fuel) num_slots t p rejected out =
     (if length out < num_slots then
        bindE (find_lru_leaf t rejected) (\<lambda>victim. case victim of
          None \<Rightarrow> Inr out
        | Some v \<Rightarrow>
            bindE (node_at t v) (\<lambda>vn.
            bindE (foldE (pick_block p num_slots) (nd_blocks vn) out) (\<lambda>out'.
              pick_loop fuel num_slots t p (rejected @ [v]) out')))
      else Inr out)"

text \<open>Both callers pass an empty \<^verbatim>\<open>out\<close>; the value returned is its length.\<close>

definition pick_demotion_victims :: "RadixTree \<Rightarrow> BlockPool \<Rightarrow> nat \<Rightarrow> BlockId list result" where
  "pick_demotion_victims t p num_slots = pick_loop (rt_next t) num_slots t p [] []"

subsection \<open>Pins\<close>

fun lock_loop :: "nat \<Rightarrow> RadixTree \<Rightarrow> nat option \<Rightarrow> RadixTree result" where
  "lock_loop fuel t None = Inr t"
| "lock_loop 0 t (Some n) =
     (if n = rt_root t then Inr t else Inl (UndefinedBehaviour ''endless walk''))"
| "lock_loop (Suc fuel) t (Some n) =
     (if n = rt_root t then Inr t
      else bindE (node_at t n) (\<lambda>nd.
        lock_loop fuel (set_node n (nd\<lparr>nd_lock := u32 (nd_lock nd + 1)\<rparr>) t) (nd_parent nd)))"

definition lock :: "RadixTree \<Rightarrow> nat \<Rightarrow> RadixTree result" where
  "lock t n = lock_loop (rt_next t) t (Some n)"

fun unlock_loop :: "nat \<Rightarrow> RadixTree \<Rightarrow> nat option \<Rightarrow> RadixTree result" where
  "unlock_loop fuel t None = Inr t"
| "unlock_loop 0 t (Some n) =
     (if n = rt_root t then Inr t else Inl (UndefinedBehaviour ''endless walk''))"
| "unlock_loop (Suc fuel) t (Some n) =
     (if n = rt_root t then Inr t
      else bindE (node_at t n) (\<lambda>nd.
        bindE (assertE (nd_lock nd > 0) ''unbalanced unlock'') (\<lambda>_.
          unlock_loop fuel (set_node n (nd\<lparr>nd_lock := nd_lock nd - 1\<rparr>) t) (nd_parent nd))))"

definition unlock :: "RadixTree \<Rightarrow> nat \<Rightarrow> RadixTree result" where
  "unlock t n = unlock_loop (rt_next t) t (Some n)"

subsection \<open>Destruction\<close>

definition release_blocks :: "BlockId list \<Rightarrow> BlockPool \<Rightarrow> BlockPool result" where
  "release_blocks bs p = foldE (\<lambda>bid q. bindE (decref q bid) (\<lambda>(_, q'). Inr q')) bs p"

fun destroy_loop :: "nat \<Rightarrow> (nat \<rightharpoonup> Node) \<Rightarrow> nat list \<Rightarrow> BlockPool
    \<Rightarrow> ((nat \<rightharpoonup> Node) \<times> BlockPool) result" where
  "destroy_loop fuel nodes [] p = Inr (nodes, p)"
| "destroy_loop 0 nodes (x # xs) p = Inl (UndefinedBehaviour ''endless walk'')"
| "destroy_loop (Suc fuel) nodes (x # xs) p =
     (case nodes (last (x # xs)) of
        None \<Rightarrow> Inl (UndefinedBehaviour ''dangling node pointer'')
      | Some nd \<Rightarrow> bindE (release_blocks (nd_blocks nd) p) (\<lambda>p'.
          destroy_loop fuel (nodes(last (x # xs) := None))
            (butlast (x # xs) @ map snd (nd_children nd)) p'))"

definition RadixTree_destroy :: "RadixTree \<Rightarrow> BlockPool \<Rightarrow> ((nat \<rightharpoonup> Node) \<times> BlockPool) result" where
  "RadixTree_destroy t p = destroy_loop (rt_next t) (rt_nodes t) [rt_root t] p"

end
