(* ===== verification/Binary64.thy ===== *)
theory Binary64
  imports Complex_Main "HOL-Library.Log_Nat"
begin

section \<open>Floating point\<close>

text \<open>
  The ratios of the program are computed in \<^verbatim>\<open>double\<close>, the IEEE 754 format with a significand of 53 bits,
  rounding to the nearest value and on ties to the even one. Here a value of the format is the
  rational number it stands for. The operands are 64-bit counters and quotients of them,
  which lie between \<open>2 ^ (-64)\<close> and \<open>2 ^ 64\<close>: no result is subnormal and none overflows, so
  the exponent is unbounded here.
\<close>

subsection \<open>Rounding to integers\<close>

definition round_even :: "rat \<Rightarrow> int" where
  "round_even x =
     (let n = \<lfloor>x\<rfloor>; d = x - of_int n in
      if d < 1 / 2 then n else if 1 / 2 < d then n + 1 else if even n then n else n + 1)"

lemma round_even_of_int [simp]: "round_even (of_int n) = n"
  by (simp add: round_even_def)

lemma round_even_near: "\<bar>of_int (round_even x) - x\<bar> \<le> 1 / 2"
proof -
  have "of_int \<lfloor>x\<rfloor> \<le> x" "x < of_int \<lfloor>x\<rfloor> + 1" by linarith+
  then show ?thesis unfolding round_even_def Let_def by (auto simp: abs_le_iff)
qed

lemma round_even_mono:
  assumes "x \<le> y"
  shows "round_even x \<le> round_even y"
proof -
  have f: "\<lfloor>x\<rfloor> \<le> \<lfloor>y\<rfloor>" using assms by (rule floor_mono)
  have r: "\<lfloor>z\<rfloor> \<le> round_even z \<and> round_even z \<le> \<lfloor>z\<rfloor> + 1" for z by (simp add: round_even_def Let_def)
  show ?thesis
  proof (cases "\<lfloor>x\<rfloor> = \<lfloor>y\<rfloor>")
    case True
    then show ?thesis using assms by (auto simp: round_even_def Let_def)
  next
    case False
    then show ?thesis using f r [of x] r [of y] by linarith
  qed
qed

subsection \<open>The binary order of magnitude\<close>

text \<open>The exponent of the greatest power of two that is at most \<open>x\<close>, read off the lengths of numerator and denominator.\<close>

definition magnitude :: "rat \<Rightarrow> int" where
  "magnitude x = (case quotient_of x of (a, b) \<Rightarrow>
     (let e = bitlen a - bitlen b in if power_int 2 e \<le> x then e else e - 1))"

lemma bitlen_range:
  assumes "0 < a"
  shows "power_int 2 (bitlen a - 1) \<le> (of_int a :: rat)" "(of_int a :: rat) < power_int 2 (bitlen a)"
proof -
  have "1 \<le> bitlen a" using assms by (simp add: bitlen_alt_def)
  moreover have "of_int (2 ^ nat (bitlen a - 1)) \<le> (of_int a :: rat)" "(of_int a :: rat) < of_int (2 ^ nat (bitlen a))"
    using bitlen_bounds [OF assms] by (simp_all only: of_int_le_iff of_int_less_iff)
  ultimately show "power_int 2 (bitlen a - 1) \<le> (of_int a :: rat)" "(of_int a :: rat) < power_int 2 (bitlen a)"
    by (simp_all add: power_int_def)
qed

lemma magnitude_range:
  assumes "0 < x"
  shows "power_int 2 (magnitude x) \<le> x" "x < power_int 2 (magnitude x + 1)"
proof -
  obtain a b where q: "quotient_of x = (a, b)" by fastforce
  have b: "0 < b" and x: "x = of_int a / of_int b" using quotient_of_denom_pos [OF q] quotient_of_div [OF q] by auto
  then have a: "0 < a" using assms by (simp add: zero_less_divide_iff)
  let ?e = "bitlen a - bitlen b"
  have "power_int 2 (bitlen a - 1) / power_int 2 (bitlen b) \<le> x"
    unfolding x using bitlen_range [OF a] bitlen_range [OF b] a b by (intro frac_le) auto
  then have lo: "power_int 2 (?e - 1) \<le> x" by (simp add: power_int_diff)
  have "x < power_int 2 (bitlen a) / power_int 2 (bitlen b - 1)"
    unfolding x using bitlen_range [OF a] bitlen_range [OF b] b a by (intro frac_less) auto
  then have hi: "x < power_int 2 (?e + 1)" by (simp add: power_int_diff power_int_add)
  show "power_int 2 (magnitude x) \<le> x" "x < power_int 2 (magnitude x + 1)"
    using lo hi by (auto simp: magnitude_def q Let_def)
qed

lemma magnitude_mono:
  assumes "0 < x" "x \<le> y"
  shows "magnitude x \<le> magnitude y"
proof (rule ccontr)
  assume "\<not> magnitude x \<le> magnitude y"
  then have "power_int 2 (magnitude y + 1) \<le> (power_int 2 (magnitude x) :: rat)" by (intro power_int_increasing) auto
  then show False using magnitude_range [of x] magnitude_range [of y] assms by linarith
qed

subsection \<open>Rounding to \<open>double\<close>\<close>

text \<open>Rounding of a number that is not negative to 53 significant bits.\<close>

definition double :: "rat \<Rightarrow> rat" where
  "double x = (if x \<le> 0 then 0
     else let e = magnitude x - 52 in of_int (round_even (x * power_int 2 (- e))) * power_int 2 e)"

lemma double_0 [simp]: "double 0 = 0"
  by (simp add: double_def)

lemma double_1 [simp]: "double 1 = 1"
proof -
  have "magnitude 1 = 0" by (simp add: magnitude_def bitlen_def)
  moreover have "round_even (power_int 2 52) = 2 ^ 52" using round_even_of_int [of "2 ^ 52"] by (simp add: power_int_def)
  ultimately show ?thesis by (simp add: double_def Let_def power_int_def power_divide)
qed

text \<open>The relative error is at most \<open>2 ^ (-53)\<close>.\<close>

lemma double_near:
  assumes "0 \<le> x"
  shows "\<bar>double x - x\<bar> \<le> x / 2 ^ 53"
proof (cases "x = 0")
  case False
  then have x: "0 < x" using assms by simp
  define e where "e = magnitude x - 52"
  have "double x - x = (of_int (round_even (x * power_int 2 (- e))) - x * power_int 2 (- e)) * power_int 2 e"
    using x by (simp add: double_def e_def [symmetric] Let_def algebra_simps power_int_minus)
  then have "\<bar>double x - x\<bar> \<le> 1 / 2 * power_int 2 e"
    using mult_right_mono [OF round_even_near [of "x * power_int 2 (- e)"], of "power_int 2 e"] by (simp add: abs_mult)
  also have "\<dots> = power_int 2 (magnitude x) / 2 ^ 53" by (simp add: e_def power_int_diff)
  also have "\<dots> \<le> x / 2 ^ 53" using magnitude_range(1) [OF x] by (intro divide_right_mono) auto
  finally show ?thesis .
qed simp

lemma double_bounds:
  assumes "0 \<le> x"
  shows "x * (1 - 1 / 2 ^ 53) \<le> double x" "double x \<le> x * (1 + 1 / 2 ^ 53)"
proof -
  define d where "d = x / 2 ^ 53"
  have eq: "x * (1 - 1 / 2 ^ 53) = x - d" "x * (1 + 1 / 2 ^ 53) = x + d"
    unfolding d_def by (simp_all only: right_diff_distrib distrib_left mult_1_right times_divide_eq_right)
  have "x - d \<le> double x" "double x \<le> x + d" using double_near [OF assms, folded d_def] by linarith+
  then show "x * (1 - 1 / 2 ^ 53) \<le> double x" "double x \<le> x * (1 + 1 / 2 ^ 53)" unfolding eq .
qed

lemma double_range:
  assumes "0 < x"
  shows "power_int 2 (magnitude x) \<le> double x" "double x \<le> power_int 2 (magnitude x + 1)"
proof -
  define e where "e = magnitude x - 52"
  let ?y = "x * power_int 2 (- e)"
  have p: "power_int 2 (magnitude x) * power_int 2 (- e) = (of_int (2 ^ 52) :: rat)"
    "power_int 2 (magnitude x + 1) * power_int 2 (- e) = (of_int (2 ^ 53) :: rat)"
    by (simp_all flip: power_int_add add: e_def)
  have "of_int (2 ^ 52) \<le> ?y" "?y \<le> of_int (2 ^ 53)"
    unfolding p [symmetric] using magnitude_range [OF assms] by (auto intro!: mult_right_mono)
  then have r: "2 ^ 52 \<le> round_even ?y" "round_even ?y \<le> 2 ^ 53"
    using round_even_mono [of "of_int (2 ^ 52)" ?y] round_even_mono [of ?y "of_int (2 ^ 53)"] round_even_of_int by metis+
  have d: "double x = of_int (round_even ?y) * power_int 2 e" using assms by (simp add: double_def e_def [symmetric] Let_def)
  have "power_int 2 (magnitude x) = (of_int (2 ^ 52) :: rat) * power_int 2 e" "power_int 2 (magnitude x + 1) = (of_int (2 ^ 53) :: rat) * power_int 2 e"
    unfolding p [symmetric] by (simp_all add: power_int_minus)
  then show "power_int 2 (magnitude x) \<le> double x" "double x \<le> power_int 2 (magnitude x + 1)"
    unfolding d using r by (metis mult_right_mono of_int_le_iff zero_le_numeral zero_le_power_int)+
qed

lemma double_nonneg [simp]: "0 \<le> double x"
proof (cases "0 < x")
  case True
  then show ?thesis using double_range(1) [of x] zero_le_power_int [of "2 :: rat" "magnitude x"] by linarith
qed (simp add: double_def)

lemma double_pos: "0 < x \<Longrightarrow> 0 < double x"
  using double_range(1) [of x] zero_less_power_int [of "2 :: rat" "magnitude x"] by linarith

theorem double_mono:
  assumes "x \<le> y"
  shows "double x \<le> double y"
proof (cases "0 < x")
  case False
  then show ?thesis by (simp add: double_def [of x])
next
  case True
  show ?thesis
  proof (cases "magnitude x = magnitude y")
    case same: True
    then show ?thesis
      using True assms by (auto simp: double_def Let_def intro!: mult_right_mono round_even_mono)
  next
    case False
    then have "magnitude x + 1 \<le> magnitude y" using magnitude_mono [OF True assms] by simp
    then have "power_int 2 (magnitude x + 1) \<le> (power_int 2 (magnitude y) :: rat)" by (intro power_int_increasing) auto
    then show ?thesis using double_range(2) [OF True] double_range(1) [of y] True assms by linarith
  qed
qed

end
