(* ===== verification/Cache_Manager.thy ===== *)
theory Cache_Manager
  imports Radix_Tree Binary64
begin

section \<open>The cache manager: state and operations\<close>

text \<open>
  \<^verbatim>\<open>class CacheManager\<close> (\<^verbatim>\<open>include/kvslab/cache_manager.hpp\<close>, \<^verbatim>\<open>src/cache_manager.cpp\<close>). The
  record has the class's fields. A handle (\<^verbatim>\<open>Allocation\<close>) is a value that the caller holds;
  an operation that changes one returns it. \<open>al_owner\<close> says whether \<^verbatim>\<open>owner_\<close> points to the
  manager the operation is given or is null. Statistics are 64-bit counters that wrap.

  \<^verbatim>\<open>acquire()\<close> is split at the comments of the code: \<open>acquire_match\<close> pins the cached
  prefix and keeps it from moving away, \<open>acquire_room\<close> demotes and evicts until the
  request fits, \<open>acquire_take\<close> promotes and allocates. The loop that evicts until
  there is room is given the number of nodes ever created as fuel: every turn but the last
  removes a node.
\<close>

subsection \<open>State\<close>

record Allocation =
  al_ok :: bool
  al_cached_tokens :: nat
  al_cached_blocks :: nat
  al_blocks :: "BlockId list"
  al_pinned :: "nat option"
  al_owner :: bool

definition Allocation_new :: Allocation where
  "Allocation_new = \<lparr>al_ok = False, al_cached_tokens = 0, al_cached_blocks = 0, al_blocks = [],
                     al_pinned = None, al_owner = False\<rparr>"

record Stats =
  st_requests :: nat
  st_served :: nat
  st_total_tokens :: nat
  st_hit_tokens :: nat
  st_evicted_blocks :: nat
  st_demoted_blocks :: nat
  st_background_demotions :: nat
  st_promoted_blocks :: nat
  st_alloc_failures :: nat
  st_abandoned :: nat

definition Stats_new :: Stats where
  "Stats_new = \<lparr>st_requests = 0, st_served = 0, st_total_tokens = 0, st_hit_tokens = 0,
     st_evicted_blocks = 0, st_demoted_blocks = 0, st_background_demotions = 0,
     st_promoted_blocks = 0, st_alloc_failures = 0, st_abandoned = 0\<rparr>"

text \<open>Both counters are converted to \<^verbatim>\<open>double\<close>, and the quotient is rounded again.\<close>

definition hit_rate :: "Stats \<Rightarrow> rat" where
  "hit_rate s = (if st_total_tokens s = 0 then 0
     else double (double (of_nat (st_hit_tokens s)) / double (of_nat (st_total_tokens s))))"

record Options =
  op_spill_watermark :: nat
  op_async_promotion :: bool

definition Options_new :: Options where
  "Options_new = \<lparr>op_spill_watermark = 0, op_async_promotion = False\<rparr>"

record CacheManager =
  cm_cfg :: CacheConfig
  cm_pool :: BlockPool
  cm_tree :: RadixTree
  cm_stats :: Stats
  cm_options :: Options
  cm_victims :: "BlockId list"

definition bump :: "nat \<Rightarrow> nat" where
  "bump n = u64 (n + 1)"

subsection \<open>Construction\<close>

definition CacheManager_on :: "BlockPool result \<Rightarrow> CacheConfig \<Rightarrow> Options \<Rightarrow> CacheManager result" where
  "CacheManager_on pool c options =
     bindE pool (\<lambda>p.
     bindE (RadixTree_new (cfg_block_tokens c)) (\<lambda>t.
       Inr \<lparr>cm_cfg = c, cm_pool = p, cm_tree = t, cm_stats = Stats_new, cm_options = options,
            cm_victims = []\<rparr>))"

definition CacheManager_owning ::
    "(nat \<Rightarrow> nat \<Rightarrow> byte list option) \<Rightarrow> nat \<Rightarrow> CacheConfig \<Rightarrow> CacheManager result" where
  "CacheManager_owning aligned_alloc hw c =
     CacheManager_on (BlockPool_owning aligned_alloc hw c) c Options_new"

definition CacheManager_tiered ::
    "nat \<Rightarrow> memory \<Rightarrow> TierSpec list \<Rightarrow> CacheConfig \<Rightarrow> Options \<Rightarrow> CacheManager result" where
  "CacheManager_tiered hw m specs c options =
     CacheManager_on (BlockPool_tiered hw m specs c) c options"

definition CacheManager_tiered_default ::
    "nat \<Rightarrow> memory \<Rightarrow> TierSpec list \<Rightarrow> CacheConfig \<Rightarrow> CacheManager result" where
  "CacheManager_tiered_default hw m specs c = CacheManager_tiered hw m specs c Options_new"

subsection \<open>Handles\<close>

definition disarm :: "Allocation \<Rightarrow> Allocation" where
  "disarm a = a\<lparr>al_ok := False, al_cached_tokens := 0, al_cached_blocks := 0, al_blocks := [],
                al_pinned := None, al_owner := False\<rparr>"

definition unpin :: "nat option \<Rightarrow> CacheManager \<Rightarrow> CacheManager result" where
  "unpin pinned m =
     (case pinned of
        None \<Rightarrow> Inr m
      | Some n \<Rightarrow> bindE (unlock (cm_tree m) n) (\<lambda>t. Inr (m\<lparr>cm_tree := t\<rparr>)))"

definition drop_fresh :: "Allocation \<Rightarrow> CacheManager \<Rightarrow> CacheManager result" where
  "drop_fresh a m =
     bindE (release_blocks (drop (al_cached_blocks a) (al_blocks a)) (cm_pool m)) (\<lambda>p.
       Inr (m\<lparr>cm_pool := p\<rparr>))"

definition abandon :: "CacheManager \<Rightarrow> Allocation \<Rightarrow> (Allocation \<times> CacheManager) result" where
  "abandon m a =
     bindE (drop_fresh a m) (\<lambda>m1.
     bindE (unpin (al_pinned a) m1) (\<lambda>m2.
       Inr (disarm a, m2\<lparr>cm_stats := (cm_stats m2)\<lparr>st_abandoned := bump (st_abandoned (cm_stats m2))\<rparr>\<rparr>)))"

definition Allocation_destroy :: "CacheManager \<Rightarrow> Allocation \<Rightarrow> CacheManager result" where
  "Allocation_destroy m a =
     (if al_ok a \<and> al_owner a then bindE (abandon m a) (\<lambda>(_, m'). Inr m') else Inr m)"

text \<open>The move constructor returns the new handle and what is left of the old one.\<close>

definition Allocation_move :: "Allocation \<Rightarrow> Allocation \<times> Allocation" where
  "Allocation_move other =
     (\<lparr>al_ok = al_ok other, al_cached_tokens = al_cached_tokens other,
       al_cached_blocks = al_cached_blocks other, al_blocks = al_blocks other,
       al_pinned = al_pinned other, al_owner = al_owner other\<rparr>,
      disarm (other\<lparr>al_blocks := []\<rparr>))"

text \<open>
  Move assignment between two distinct handles returns both; \<open>move_assign_self\<close> is the
  branch where they are the same object.
\<close>

definition move_assign ::
    "CacheManager \<Rightarrow> Allocation \<Rightarrow> Allocation \<Rightarrow> (Allocation \<times> Allocation \<times> CacheManager) result" where
  "move_assign m this other =
     bindE (if al_ok this \<and> al_owner this then abandon m this else Inr (this, m)) (\<lambda>(this1, m1).
       Inr (this1\<lparr>al_ok := al_ok other, al_cached_tokens := al_cached_tokens other,
                  al_cached_blocks := al_cached_blocks other, al_blocks := al_blocks other,
                  al_pinned := al_pinned other, al_owner := al_owner other\<rparr>,
            disarm (other\<lparr>al_blocks := []\<rparr>), m1))"

definition move_assign_self :: "CacheManager \<Rightarrow> Allocation \<Rightarrow> (Allocation \<times> CacheManager) result" where
  "move_assign_self m this = Inr (this, m)"

fun all_compute :: "BlockPool \<Rightarrow> BlockId list \<Rightarrow> bool result" where
  "all_compute p [] = Inr True"
| "all_compute p (b # bs) =
     bindE (block_tier p b) (\<lambda>t. if t \<noteq> 0 then Inr False else all_compute p bs)"

definition ready :: "CacheManager \<Rightarrow> Allocation \<Rightarrow> (bool \<times> CacheManager) result" where
  "ready m a =
     (if \<not> al_ok a \<or> \<not> al_owner a then Inr (True, m)
      else bindE (drain_migrations (cm_pool m)) (\<lambda>p.
           bindE (all_compute p (al_blocks a)) (\<lambda>r. Inr (r, m\<lparr>cm_pool := p\<rparr>))))"

text \<open>The loop of \<^verbatim>\<open>wait_ready()\<close>; the workers run while it waits.\<close>

inductive wait_ready :: "CacheManager \<Rightarrow> Allocation \<Rightarrow> CacheManager \<Rightarrow> bool" where
  wr_ready: "ready m a = Inr (True, m') \<Longrightarrow> wait_ready m a m'"
| wr_wait: "ready m a = Inr (False, m1) \<Longrightarrow> wait_for_migrations (cm_pool m1) p \<Longrightarrow>
     wait_ready (m1\<lparr>cm_pool := p\<rparr>) a m' \<Longrightarrow> wait_ready m a m'"

subsection \<open>Background demotion\<close>

fun demote_async :: "BlockId list \<Rightarrow> CacheManager \<Rightarrow> CacheManager result" where
  "demote_async [] m = Inr m"
| "demote_async (b # bs) m =
     bindE (migrate_async (cm_pool m) b 1) (\<lambda>(moved, p).
       if \<not> moved then Inr (m\<lparr>cm_pool := p\<rparr>)
       else demote_async bs (m\<lparr>cm_pool := p, cm_stats := (cm_stats m)
              \<lparr>st_background_demotions := bump (st_background_demotions (cm_stats m))\<rparr>\<rparr>))"

definition maintain :: "CacheManager \<Rightarrow> CacheManager result" where
  "maintain m =
     (if num_tiers (cm_pool m) < 2 \<or> op_spill_watermark (cm_options m) = 0 then Inr m
      else bindE (num_free (cm_pool m)) (\<lambda>free.
           bindE (pending_departures (cm_pool m) 0) (\<lambda>departing.
             let projected = u64 (free + departing) in
             if projected \<ge> op_spill_watermark (cm_options m) then Inr m
             else bindE (pick_demotion_victims (cm_tree m) (cm_pool m)
                           (op_spill_watermark (cm_options m) - projected)) (\<lambda>victims.
                    demote_async victims (m\<lparr>cm_victims := victims\<rparr>)))))"

subsection \<open>Acquire\<close>

text \<open>A matched block that a demotion is about to move away.\<close>

definition keep_block :: "BlockId \<Rightarrow> BlockPool \<Rightarrow> BlockPool result" where
  "keep_block b p =
     (if migrating p b then
        bindE (migration_target p b) (\<lambda>target.
          if target \<noteq> 0 then cancel_migration p b else Inr p)
      else Inr p)"

definition acquire_match :: "CacheManager \<Rightarrow> TokenId list \<Rightarrow> (Allocation \<times> CacheManager) result" where
  "acquire_match m tokens =
     bindE (drain_migrations (cm_pool m)) (\<lambda>p.
     bindE (match_prefix (cm_tree m) tokens) (\<lambda>(res, t).
     bindE (case mr_node res of None \<Rightarrow> Inr t | Some n \<Rightarrow> lock t n) (\<lambda>t'.
     bindE (foldE keep_block (mr_blocks res) p) (\<lambda>p'.
       Inr (Allocation_new\<lparr>al_pinned := mr_node res, al_cached_tokens := mr_num_tokens res,
                           al_cached_blocks := length (mr_blocks res), al_blocks := mr_blocks res\<rparr>,
            m\<lparr>cm_pool := p', cm_tree := t'\<rparr>)))))"

definition count_promotions :: "BlockPool \<Rightarrow> BlockId list \<Rightarrow> nat result" where
  "count_promotions p bs =
     foldE (\<lambda>b n. bindE (block_tier p b) (\<lambda>t.
        Inr (if t \<noteq> 0 \<and> \<not> migrating p b then n + 1 else n))) bs 0"

fun demote_sync :: "BlockId list \<Rightarrow> CacheManager \<Rightarrow> CacheManager result" where
  "demote_sync [] m = Inr m"
| "demote_sync (b # bs) m =
     bindE (migrate (cm_pool m) b 1) (\<lambda>(moved, p).
       if \<not> moved then Inr (m\<lparr>cm_pool := p\<rparr>)
       else demote_sync bs (m\<lparr>cm_pool := p, cm_stats := (cm_stats m)
              \<lparr>st_demoted_blocks := bump (st_demoted_blocks (cm_stats m))\<rparr>\<rparr>))"

fun evict_until :: "nat \<Rightarrow> nat \<Rightarrow> CacheManager \<Rightarrow> CacheManager result" where
  "evict_until fuel demand m =
     bindE (num_free (cm_pool m)) (\<lambda>free.
       if free < demand then
         (case fuel of
            0 \<Rightarrow> Inl (UndefinedBehaviour ''endless eviction'')
          | Suc fuel' \<Rightarrow>
              bindE (evict (cm_tree m) (cm_pool m) (demand - free)) (\<lambda>(evicted, t, p).
                if evicted = 0 then Inr (m\<lparr>cm_tree := t, cm_pool := p\<rparr>)
                else evict_until fuel' demand
                       (m\<lparr>cm_tree := t, cm_pool := p, cm_stats := (cm_stats m)
                          \<lparr>st_evicted_blocks := u64 (st_evicted_blocks (cm_stats m) + evicted)\<rparr>\<rparr>)))
       else Inr m)"

declare evict_until.simps [simp del]

definition acquire_room :: "nat \<Rightarrow> CacheManager \<Rightarrow> CacheManager result" where
  "acquire_room demand m =
     bindE (num_free (cm_pool m)) (\<lambda>free.
     bindE (if free < demand \<and> num_tiers (cm_pool m) > 1 then
              bindE (pick_demotion_victims (cm_tree m) (cm_pool m) (demand - free)) (\<lambda>victims.
                demote_sync victims (m\<lparr>cm_victims := victims\<rparr>))
            else Inr m) (\<lambda>m1.
       evict_until (rt_next (cm_tree m1)) demand m1))"

definition promote_block :: "BlockId \<Rightarrow> CacheManager \<Rightarrow> CacheManager result" where
  "promote_block b m =
     bindE (block_tier (cm_pool m) b) (\<lambda>t.
       if t = 0 \<or> migrating (cm_pool m) b then Inr m
       else
         bindE (if op_async_promotion (cm_options m) then
                  bindE (migrate_async (cm_pool m) b 0) (\<lambda>(moved, p).
                    if \<not> moved then migrate p b 0 else Inr (moved, p))
                else migrate (cm_pool m) b 0) (\<lambda>(moved, p).
         bindE (assertE moved ''promotion failed despite reserved compute slots'') (\<lambda>_.
           Inr (m\<lparr>cm_pool := p, cm_stats := (cm_stats m)
                  \<lparr>st_promoted_blocks := bump (st_promoted_blocks (cm_stats m))\<rparr>\<rparr>))))"

fun allocate_fresh :: "nat \<Rightarrow> BlockPool \<Rightarrow> BlockId list \<Rightarrow> (BlockId list \<times> BlockPool) result" where
  "allocate_fresh 0 p bs = Inr (bs, p)"
| "allocate_fresh (Suc n) p bs =
     bindE (allocate p) (\<lambda>(b, p').
     bindE (assertE (b \<noteq> kInvalidBlock) ''free list disagrees with num_free()'') (\<lambda>_.
       allocate_fresh n p' (bs @ [b])))"

definition acquire_take :: "Allocation \<Rightarrow> nat \<Rightarrow> nat \<Rightarrow> CacheManager \<Rightarrow> (Allocation \<times> CacheManager) result" where
  "acquire_take a fresh num_tokens m =
     bindE (foldE promote_block (al_blocks a) m) (\<lambda>m1.
     bindE (allocate_fresh fresh (cm_pool m1) (al_blocks a)) (\<lambda>(bs, p).
       let st = cm_stats m1;
           m2 = m1\<lparr>cm_pool := p, cm_stats := st\<lparr>st_served := bump (st_served st),
                     st_total_tokens := u64 (st_total_tokens st + num_tokens),
                     st_hit_tokens := u64 (st_hit_tokens st + al_cached_tokens a)\<rparr>\<rparr>
       in bindE (maintain m2) (\<lambda>m3.
            Inr (a\<lparr>al_blocks := bs, al_ok := True, al_owner := True\<rparr>, m3))))"

definition acquire :: "CacheManager \<Rightarrow> TokenId list \<Rightarrow> (Allocation \<times> CacheManager) result" where
  "acquire m0 tokens =
     (let m = m0\<lparr>cm_stats := (cm_stats m0)\<lparr>st_requests := bump (st_requests (cm_stats m0))\<rparr>\<rparr> in
      if tokens = [] then
        Inr (Allocation_new\<lparr>al_ok := True\<rparr>,
             m\<lparr>cm_stats := (cm_stats m)\<lparr>st_served := bump (st_served (cm_stats m))\<rparr>\<rparr>)
      else
        let bt = cfg_block_tokens (cm_cfg m);
            need_blocks = sub64 (u64 (length tokens + bt)) 1 div bt
        in bindE (acquire_match m tokens) (\<lambda>(a, m1).
             let fresh = sub64 need_blocks (al_cached_blocks a) in
             bindE (count_promotions (cm_pool m1) (al_blocks a)) (\<lambda>promotions.
               let demand = u64 (fresh + promotions) in
               bindE (acquire_room demand m1) (\<lambda>m2.
               bindE (num_free (cm_pool m2)) (\<lambda>free.
                 if free < demand then
                   bindE (unpin (al_pinned a) m2) (\<lambda>m3.
                     Inr (Allocation_new, m3\<lparr>cm_stats := (cm_stats m3)
                            \<lparr>st_alloc_failures := bump (st_alloc_failures (cm_stats m3))\<rparr>\<rparr>))
                 else acquire_take a fresh (length tokens) m2)))))"

subsection \<open>Release\<close>

definition release :: "CacheManager \<Rightarrow> TokenId list \<Rightarrow> Allocation \<Rightarrow> (Allocation \<times> CacheManager) result" where
  "release m tokens a =
     (if \<not> al_ok a then Inr (a, m)
      else
        bindE (tree_insert (cm_tree m) (cm_pool m) tokens (al_blocks a)) (\<lambda>(_, t, p).
        bindE (drop_fresh a (m\<lparr>cm_tree := t, cm_pool := p\<rparr>)) (\<lambda>m1.
        bindE (unpin (al_pinned a) m1) (\<lambda>m2.
        bindE (drain_migrations (cm_pool m2)) (\<lambda>p'.
        bindE (maintain (m2\<lparr>cm_pool := p'\<rparr>)) (\<lambda>m3.
          Inr (disarm a, m3)))))))"

subsection \<open>Destruction\<close>

text \<open>
  The implicit destructor of \<^verbatim>\<open>CacheManager\<close> destroys the members in reverse order: the
  tree, which gives its blocks back, then the pool, which joins its workers and frees the tier it owns.
\<close>

inductive CacheManager_destroy :: "nat option \<Rightarrow> CacheManager \<Rightarrow> ((nat \<rightharpoonup> Node) \<times> BlockPool) result \<Rightarrow> bool" where
  cd_error: "RadixTree_destroy (cm_tree m) (cm_pool m) = Inl e \<Longrightarrow> CacheManager_destroy owned_tier m (Inl e)"
| cd_gone: "RadixTree_destroy (cm_tree m) (cm_pool m) = Inr (nodes, p) \<Longrightarrow> BlockPool_destroy owned_tier p p' \<Longrightarrow>
     CacheManager_destroy owned_tier m (Inr (nodes, p'))"

end
