(* ===== verification/Bench_Prefix_Cache.thy ===== *)
theory Bench_Prefix_Cache
  imports Cache_Manager
begin

section \<open>The benchmark: workloads and clients\<close>

text \<open>
  \<^verbatim>\<open>bench/bench_prefix_cache.cpp\<close>: the generator \<^verbatim>\<open>Lcg\<close>, the four workloads, and the clients
  that play them against a manager, \<^verbatim>\<open>run()\<close> and \<^verbatim>\<open>run_manager()\<close> one request at a time,
  \<^verbatim>\<open>run_pipelined()\<close> with a window of requests in flight. The generator's 64-bit state is a
  word; \<^verbatim>\<open>std::vector\<close> and \<^verbatim>\<open>std::deque\<close> are lists. Time, \<^verbatim>\<open>double\<close> ratios and printing are
  left out, so a result keeps its counters only.

  The workers of the manager's pool run while the client runs: \<open>idle\<close> lets any number of
  worker steps pass, and the clients are relations that allow it before every call. An
  outcome is a \<open>result\<close>, so that an exception, a failed assertion or a call on an empty deque
  is an outcome and not a missing one.
\<close>

subsection \<open>Random tokens\<close>

record Lcg =
  lcg_state :: "64 word"

definition Lcg_new :: "64 word \<Rightarrow> Lcg" where
  "Lcg_new seed = \<lparr>lcg_state = seed\<rparr>"

definition Lcg_next :: "Lcg \<Rightarrow> 32 word \<times> Lcg" where
  "Lcg_next g =
     (let s = lcg_state g * 6364136223846793005 + 1442695040888963407
      in (ucast (drop_bit 33 s), g\<lparr>lcg_state := s\<rparr>))"

definition Lcg_token :: "Lcg \<Rightarrow> TokenId \<times> Lcg" where
  "Lcg_token g = (let (x, g') = Lcg_next g in (x mod 32000, g'))"

fun token_loop :: "nat \<Rightarrow> TokenId list \<Rightarrow> Lcg \<Rightarrow> TokenId list \<times> Lcg" where
  "token_loop 0 tokens g = (tokens, g)"
| "token_loop (Suc n) tokens g = (let (x, g') = Lcg_token g in token_loop n (tokens @ [x]) g')"

definition random_tokens :: "Lcg \<Rightarrow> nat \<Rightarrow> TokenId list \<times> Lcg" where
  "random_tokens g n = token_loop n [] g"

subsection \<open>Workloads\<close>

type_synonym workload = "TokenId list list"

text \<open>The loop of \<^verbatim>\<open>workload_cold()\<close>, and the first loop of \<^verbatim>\<open>workload_oversubscribed()\<close>.\<close>

fun sequence_loop :: "nat \<Rightarrow> nat \<Rightarrow> workload \<Rightarrow> Lcg \<Rightarrow> workload \<times> Lcg" where
  "sequence_loop 0 len out g = (out, g)"
| "sequence_loop (Suc n) len out g =
     (let (tokens, g') = random_tokens g len in sequence_loop n len (out @ [tokens]) g')"

definition workload_cold :: "nat \<Rightarrow> nat \<Rightarrow> workload" where
  "workload_cold requests len = fst (sequence_loop requests len [] (Lcg_new 1))"

fun suffix_loop :: "nat \<Rightarrow> TokenId list \<Rightarrow> nat \<Rightarrow> workload \<Rightarrow> Lcg \<Rightarrow> workload \<times> Lcg" where
  "suffix_loop 0 pre len out g = (out, g)"
| "suffix_loop (Suc n) pre len out g =
     (let (post, g') = random_tokens g len in suffix_loop n pre len (out @ [pre @ post]) g')"

definition workload_shared_prefix :: "nat \<Rightarrow> nat \<Rightarrow> nat \<Rightarrow> workload" where
  "workload_shared_prefix requests prefix_len suffix_len =
     (let (pre, g) = random_tokens (Lcg_new 2) prefix_len
      in fst (suffix_loop requests pre suffix_len [] g))"

fun turn_loop :: "nat \<Rightarrow> nat \<Rightarrow> TokenId list \<Rightarrow> workload \<Rightarrow> Lcg \<Rightarrow> workload \<times> Lcg" where
  "turn_loop 0 len history out g = (out, g)"
| "turn_loop (Suc n) len history out g =
     (let (turn, g') = random_tokens g len; history' = history @ turn
      in turn_loop n len history' (out @ [history']) g')"

fun conversation_loop :: "nat \<Rightarrow> nat \<Rightarrow> nat \<Rightarrow> workload \<Rightarrow> Lcg \<Rightarrow> workload \<times> Lcg" where
  "conversation_loop 0 turns len out g = (out, g)"
| "conversation_loop (Suc n) turns len out g =
     (let (out', g') = turn_loop turns len [] out g in conversation_loop n turns len out' g')"

definition workload_multi_turn :: "nat \<Rightarrow> nat \<Rightarrow> nat \<Rightarrow> workload" where
  "workload_multi_turn conversations turns turn_len =
     fst (conversation_loop conversations turns turn_len [] (Lcg_new 3))"

fun pass_loop :: "nat \<Rightarrow> workload \<Rightarrow> workload \<Rightarrow> workload" where
  "pass_loop 0 unique out = out"
| "pass_loop (Suc n) unique out = pass_loop n unique (fold (\<lambda>seq out. out @ [seq]) unique out)"

definition workload_oversubscribed :: "nat \<Rightarrow> nat \<Rightarrow> nat \<Rightarrow> workload" where
  "workload_oversubscribed sequences len passes =
     (let (unique, g) = sequence_loop sequences len [] (Lcg_new 4) in pass_loop passes unique [])"

subsection \<open>One request at a time\<close>

definition idle :: "CacheManager \<Rightarrow> CacheManager \<Rightarrow> bool" where
  "idle m m' \<longleftrightarrow> (\<exists>p. worker_steps (cm_pool m) p \<and> m' = m\<lparr>cm_pool := p\<rparr>)"

text \<open>The body of the loop; the handle is destroyed where its scope ends.\<close>

inductive serve :: "CacheManager \<Rightarrow> TokenId list \<Rightarrow> CacheManager result \<Rightarrow> bool" where
  sv_error: "idle m m0 \<Longrightarrow> acquire m0 tokens = Inl e \<Longrightarrow> serve m tokens (Inl e)"
| sv_refused: "idle m m0 \<Longrightarrow> acquire m0 tokens = Inr (a, m1) \<Longrightarrow> \<not> al_ok a \<Longrightarrow>
     serve m tokens (Allocation_destroy m1 a)"
| sv_served: "idle m m0 \<Longrightarrow> acquire m0 tokens = Inr (a, m1) \<Longrightarrow> al_ok a \<Longrightarrow> idle m1 m2 \<Longrightarrow>
     serve m tokens (bindE (release m2 tokens a) (\<lambda>(a', m3). Allocation_destroy m3 a'))"

inductive run_manager :: "CacheManager \<Rightarrow> workload \<Rightarrow> CacheManager result \<Rightarrow> bool" where
  rm_done: "run_manager m [] (Inr m)"
| rm_next: "serve m tokens (Inr m') \<Longrightarrow> run_manager m' workload r \<Longrightarrow> run_manager m (tokens # workload) r"
| rm_error: "serve m tokens (Inl e) \<Longrightarrow> run_manager m (tokens # workload) (Inl e)"

text \<open>The fields of \<^verbatim>\<open>Result\<close> but the time it took.\<close>

record Result =
  res_hit_rate :: rat
  res_requests :: nat
  res_tokens :: nat
  res_evicted :: nat
  res_failures :: nat

definition result_of :: "Stats \<Rightarrow> Result" where
  "result_of s = \<lparr>res_hit_rate = hit_rate s, res_requests = st_requests s, res_tokens = st_total_tokens s,
                  res_evicted = st_evicted_blocks s, res_failures = st_alloc_failures s\<rparr>"

text \<open>
  \<^verbatim>\<open>run()\<close> owns its manager: it returns the counters, and what the destructor left of the
  nodes and the pool.
\<close>

inductive run :: "(nat \<Rightarrow> nat \<Rightarrow> byte list option) \<Rightarrow> nat \<Rightarrow> CacheConfig \<Rightarrow> workload
    \<Rightarrow> (Result \<times> (nat \<rightharpoonup> Node) \<times> BlockPool) result \<Rightarrow> bool" for aligned_alloc hw cfg workload where
  rn_refused: "CacheManager_owning aligned_alloc hw cfg = Inl e \<Longrightarrow> run aligned_alloc hw cfg workload (Inl e)"
| rn_error: "CacheManager_owning aligned_alloc hw cfg = Inr cm \<Longrightarrow> run_manager cm workload (Inl e) \<Longrightarrow>
     run aligned_alloc hw cfg workload (Inl e)"
| rn_run: "CacheManager_owning aligned_alloc hw cfg = Inr cm \<Longrightarrow> run_manager cm workload (Inr cm') \<Longrightarrow>
     CacheManager_destroy (Some 0) cm' d \<Longrightarrow>
     run aligned_alloc hw cfg workload (bindE d (\<lambda>(nodes, p). Inr (result_of (cm_stats cm'), nodes, p)))"

subsection \<open>A window of requests\<close>

type_synonym window = "(Allocation \<times> TokenId list) list"

text \<open>Wait for the oldest request, release it and drop it from the window.\<close>

inductive retire :: "CacheManager \<Rightarrow> window \<Rightarrow> (CacheManager \<times> window) result \<Rightarrow> bool" where
  rt_empty: "retire m [] (Inl (UndefinedBehaviour ''front() of an empty deque''))"
| rt_front: "idle m m0 \<Longrightarrow> wait_ready m0 a m1 \<Longrightarrow> idle m1 m2 \<Longrightarrow>
     retire m ((a, tokens) # window)
       (bindE (release m2 tokens a) (\<lambda>(a', m3).
        bindE (Allocation_destroy m3 a') (\<lambda>m4. Inr (m4, window))))"

text \<open>The body of the loop over the workload. \<^verbatim>\<open>alloc\<close>, moved from or not, dies at its end.\<close>

inductive pipe_step :: "nat \<Rightarrow> CacheManager \<Rightarrow> window \<Rightarrow> TokenId list \<Rightarrow> (CacheManager \<times> window) result \<Rightarrow> bool"
  for depth where
  ps_error: "idle m m0 \<Longrightarrow> acquire m0 tokens = Inl e \<Longrightarrow> pipe_step depth m window tokens (Inl e)"
| ps_room: "idle m m0 \<Longrightarrow> acquire m0 tokens = Inr (a, m1) \<Longrightarrow>
     (window', alloc) = (if al_ok a then (window @ [(fst (Allocation_move a), tokens)], snd (Allocation_move a)) else (window, a)) \<Longrightarrow>
     length window' < depth \<Longrightarrow>
     pipe_step depth m window tokens (bindE (Allocation_destroy m1 alloc) (\<lambda>m2. Inr (m2, window')))"
| ps_full: "idle m m0 \<Longrightarrow> acquire m0 tokens = Inr (a, m1) \<Longrightarrow>
     (window', alloc) = (if al_ok a then (window @ [(fst (Allocation_move a), tokens)], snd (Allocation_move a)) else (window, a)) \<Longrightarrow>
     depth \<le> length window' \<Longrightarrow> retire m1 window' r \<Longrightarrow>
     pipe_step depth m window tokens
       (bindE r (\<lambda>(m2, window''). bindE (Allocation_destroy m2 alloc) (\<lambda>m3. Inr (m3, window''))))"

inductive run_pipelined :: "nat \<Rightarrow> CacheManager \<Rightarrow> workload \<Rightarrow> window \<Rightarrow> CacheManager result \<Rightarrow> bool" for depth where
  rp_next: "pipe_step depth m window tokens (Inr (m', window')) \<Longrightarrow> run_pipelined depth m' workload window' r \<Longrightarrow>
     run_pipelined depth m (tokens # workload) window r"
| rp_error: "pipe_step depth m window tokens (Inl e) \<Longrightarrow> run_pipelined depth m (tokens # workload) window (Inl e)"
| rp_last: "window \<noteq> [] \<Longrightarrow> retire m window (Inr (m', window')) \<Longrightarrow> run_pipelined depth m' [] window' r \<Longrightarrow>
     run_pipelined depth m [] window r"
| rp_last_error: "window \<noteq> [] \<Longrightarrow> retire m window (Inl e) \<Longrightarrow> run_pipelined depth m [] window (Inl e)"
| rp_done: "run_pipelined depth m [] [] (Inr m)"

subsection \<open>The configurations of the benchmark\<close>

definition bench_cfg :: CacheConfig where
  "bench_cfg = \<lparr>cfg_num_blocks = 8192, cfg_block_tokens = 16, cfg_num_layers = 32, cfg_num_kv_heads = 8,
                cfg_head_dim = 128, cfg_dtype_bytes = 2\<rparr>"

definition main_workloads :: "workload list" where
  "main_workloads = [workload_cold 20000 512, workload_shared_prefix 20000 1024 64, workload_multi_turn 2000 8 256]"

text \<open>\<^verbatim>\<open>bench_tiering()\<close>: the working set is twice the compute tier.\<close>

definition tiering_workload :: "CacheConfig \<Rightarrow> workload" where
  "tiering_workload cfg =
     (let compute_blocks = 1024; seq_blocks = 16; sequences = 2 * compute_blocks div seq_blocks
      in workload_oversubscribed sequences (seq_blocks * cfg_block_tokens cfg) 5)"

definition tiering_specs :: "TierSpec list" where
  "tiering_specs = [\<lparr>spec_tier = Some 0, spec_num_blocks = 1024\<rparr>, \<lparr>spec_tier = Some 1, spec_num_blocks = 2048\<rparr>]"

definition tiering_memory :: "(nat \<Rightarrow> nat \<Rightarrow> byte list option) \<Rightarrow> CacheConfig \<Rightarrow> memory result" where
  "tiering_memory aligned_alloc cfg =
     bindE (HostTier_new aligned_alloc (u64 (1024 * block_bytes cfg))) (\<lambda>compute.
     bindE (HostTier_new aligned_alloc (u64 (2048 * block_bytes cfg))) (\<lambda>spill. Inr [compute, spill]))"

text \<open>
  A row of the table over two tiers: without a depth it is \<^verbatim>\<open>run_manager()\<close>, with one
  \<^verbatim>\<open>run_pipelined()\<close>; the outcome is the manager whose statistics are printed, before its
  destructor. The row over one tier is \<open>run\<close> with 1024 blocks.
\<close>

inductive tiered_row :: "(nat \<Rightarrow> nat \<Rightarrow> byte list option) \<Rightarrow> nat \<Rightarrow> CacheConfig \<Rightarrow> Options \<Rightarrow> nat option
    \<Rightarrow> CacheManager result \<Rightarrow> bool" for aligned_alloc hw cfg options where
  tr_refused: "bindE (tiering_memory aligned_alloc cfg) (\<lambda>mem. CacheManager_tiered hw mem tiering_specs cfg options) = Inl e \<Longrightarrow>
     tiered_row aligned_alloc hw cfg options depth (Inl e)"
| tr_run: "bindE (tiering_memory aligned_alloc cfg) (\<lambda>mem. CacheManager_tiered hw mem tiering_specs cfg options) = Inr cm \<Longrightarrow>
     run_manager cm (tiering_workload cfg) r \<Longrightarrow> tiered_row aligned_alloc hw cfg options None r"
| tr_pipelined: "bindE (tiering_memory aligned_alloc cfg) (\<lambda>mem. CacheManager_tiered hw mem tiering_specs cfg options) = Inr cm \<Longrightarrow>
     run_pipelined depth cm (tiering_workload cfg) [] r \<Longrightarrow> tiered_row aligned_alloc hw cfg options (Some depth) r"

definition tiering_rows :: "(Options \<times> nat option) list" where
  "tiering_rows = [(Options_new, None),
     (\<lparr>op_spill_watermark = 1024 div 4, op_async_promotion = False\<rparr>, None),
     (\<lparr>op_spill_watermark = 1024 div 4, op_async_promotion = True\<rparr>, Some 8)]"

subsection \<open>The shape of the workloads\<close>

lemma Lcg_token_range: "fst (Lcg_token g) < 32000"
proof -
  have "x mod 32000 < (32000 :: 32 word)" for x by (rule word_mod_less_divisor) simp
  then show ?thesis by (simp add: Lcg_token_def split_def Let_def)
qed

lemma token_loop_shape:
  "length (fst (token_loop n tokens g)) = length tokens + n
   \<and> set (fst (token_loop n tokens g)) \<subseteq> set tokens \<union> {x. x < 32000}"
proof (induction n arbitrary: tokens g)
  case (Suc n)
  show ?case
    using Suc [of "tokens @ [fst (Lcg_token g)]" "snd (Lcg_token g)"] Lcg_token_range [of g] by (auto simp: split_def Let_def)
qed simp

lemma random_tokens_shape:
  "length (fst (random_tokens g n)) = n" "set (fst (random_tokens g n)) \<subseteq> {x. x < 32000}"
  using token_loop_shape [of n "[]" g] by (simp_all add: random_tokens_def)

text \<open>A loop that appends to \<^verbatim>\<open>out\<close> appends what it would have put into an empty one.\<close>

lemma sequence_loop_out: "fst (sequence_loop n len out g) = out @ fst (sequence_loop n len [] g)"
proof (induction n arbitrary: out g)
  case (Suc n)
  show ?case
    using Suc [of "out @ [fst (random_tokens g len)]"] Suc [of "[fst (random_tokens g len)]"] by (simp add: split_def Let_def)
qed simp

lemma sequence_loop_shape:
  "length (fst (sequence_loop n len [] g)) = n
   \<and> (\<forall>ts \<in> set (fst (sequence_loop n len [] g)). length ts = len \<and> set ts \<subseteq> {x. x < 32000})"
proof (induction n arbitrary: g)
  case (Suc n)
  show ?case
    using Suc [of "snd (random_tokens g len)"] sequence_loop_out [of n len "[fst (random_tokens g len)]"] random_tokens_shape [of g len]
    by (simp add: split_def Let_def)
qed simp

lemma suffix_loop_eq: "fst (suffix_loop n pre len out g) = out @ map ((@) pre) (fst (sequence_loop n len [] g))"
proof (induction n arbitrary: out g)
  case (Suc n)
  show ?case
    using Suc sequence_loop_out [of n len "[fst (random_tokens g len)]"] by (simp add: split_def Let_def)
qed simp

text \<open>Every history of a conversation continues the one before.\<close>

lemma turn_loop_out: "turn_loop n len h out g = (out @ fst (turn_loop n len h [] g), snd (turn_loop n len h [] g))"
proof (induction n arbitrary: h out g)
  case (Suc n)
  show ?case
    using Suc [of "h @ fst (random_tokens g len)" "out @ [h @ fst (random_tokens g len)]"]
      Suc [of "h @ fst (random_tokens g len)" "[h @ fst (random_tokens g len)]"] by (simp add: split_def Let_def)
qed simp

lemma turn_loop_shape:
  "length (fst (turn_loop n len h [] g)) = n
   \<and> (\<forall>i < n. length (fst (turn_loop n len h [] g) ! i) = length h + (i + 1) * len
        \<and> take (length h + i * len) (fst (turn_loop n len h [] g) ! i) = (h # fst (turn_loop n len h [] g)) ! i)"
proof (induction n arbitrary: h g)
  case (Suc n)
  let ?t = "fst (random_tokens g len)" and ?g = "snd (random_tokens g len)"
  have eq: "fst (turn_loop (Suc n) len h [] g) = (h @ ?t) # fst (turn_loop n len (h @ ?t) [] ?g)"
    using turn_loop_out [of n len "h @ ?t" "[h @ ?t]"] by (simp add: split_def Let_def)
  show ?case
    unfolding eq using Suc [of "h @ ?t" ?g] random_tokens_shape(1) [of g len]
    by (auto simp: nth_Cons add.assoc split: nat.split)
qed simp

lemma conversation_loop_out:
  "conversation_loop n turns len out g = (out @ fst (conversation_loop n turns len [] g), snd (conversation_loop n turns len [] g))"
proof (induction n arbitrary: out g)
  case (Suc n)
  show ?case
    using Suc [of "out @ fst (turn_loop turns len [] [] g)" "snd (turn_loop turns len [] [] g)"]
      Suc [of "fst (turn_loop turns len [] [] g)" "snd (turn_loop turns len [] [] g)"] turn_loop_out [of turns len "[]" out g]
    by (simp add: split_def Let_def)
qed simp

lemma conversation_loop_shape:
  "length (fst (conversation_loop n turns len [] g)) = n * turns
   \<and> (\<forall>c < n. \<forall>t < turns. length (fst (conversation_loop n turns len [] g) ! (c * turns + t)) = (t + 1) * len
        \<and> (0 < t \<longrightarrow> take (t * len) (fst (conversation_loop n turns len [] g) ! (c * turns + t))
              = fst (conversation_loop n turns len [] g) ! (c * turns + t - 1)))"
proof (induction n arbitrary: g)
  case (Suc n)
  let ?w = "fst (turn_loop turns len [] [] g)" and ?r = "fst (conversation_loop n turns len [] (snd (turn_loop turns len [] [] g)))"
  have eq: "fst (conversation_loop (Suc n) turns len [] g) = ?w @ ?r"
    using conversation_loop_out [of n turns len ?w] turn_loop_out [of turns len "[]" "[]" g] by (simp add: split_def Let_def)
  note T = turn_loop_shape [of turns len "[]" g] and IH = Suc.IH [of "snd (turn_loop turns len [] [] g)"]
  have "length ((?w @ ?r) ! (c * turns + t)) = (t + 1) * len \<and> (0 < t \<longrightarrow> take (t * len) ((?w @ ?r) ! (c * turns + t)) = (?w @ ?r) ! (c * turns + t - 1))"
    if c: "c < Suc n" and t: "t < turns" for c t
  proof (cases c)
    case 0
    then show ?thesis using T t by (auto simp: nth_append nth_Cons')
  next
    case (Suc c')
    have "(?w @ ?r) ! (c * turns + t) = ?r ! (c' * turns + t)" using T by (simp add: Suc nth_append)
    moreover have "(?w @ ?r) ! (c * turns + t - 1) = ?r ! (c' * turns + t - 1)" if "0 < t"
    proof -
      have "c * turns + t - 1 = length ?w + (c' * turns + t - 1)" using T that by (simp add: Suc)
      then show ?thesis by (simp only: nth_append_length_plus)
    qed
    ultimately show ?thesis using IH t c Suc by simp
  qed
  then show ?case unfolding eq using T IH by simp
qed simp

lemma pass_loop_eq: "pass_loop n unique out = out @ concat (replicate n unique)"
proof -
  have "fold (\<lambda>seq out. out @ [seq]) xs out = out @ xs" for xs out :: "TokenId list list" by (induction xs arbitrary: out) simp_all
  then show ?thesis by (induction n arbitrary: out) simp_all
qed

end
