(* ===== verification/Radix_Invariant.thy ===== *)
theory Radix_Invariant
  imports Radix_Tree
begin

section \<open>The prefix tree: shape invariant and the index it stores\<close>

text \<open>
  \<open>chain H r n xs\<close> says that following parent pointers from \<open>n\<close> visits \<open>xs\<close> and ends at
  the root. \<open>tree_wf\<close> is the shape invariant: parents and children agree, every child sits
  under the key of its first block of tokens, a node's tokens are as many whole blocks as
  it has block identifiers, and every node hangs below the root. \<open>cached\<close> is what the tree
  means: the partial map from block-aligned token prefixes to the block that holds the last
  block of that prefix.
\<close>

subsection \<open>Chains of parents\<close>

type_synonym heap = "nat \<rightharpoonup> Node"

inductive chain :: "heap \<Rightarrow> nat \<Rightarrow> nat \<Rightarrow> nat list \<Rightarrow> bool" for H r where
  ch_root: "chain H r r []"
| ch_node: "n \<noteq> r \<Longrightarrow> H n = Some nd \<Longrightarrow> nd_parent nd = Some q \<Longrightarrow> chain H r q xs \<Longrightarrow>
     chain H r n (n # xs)"

inductive_cases chain_ConsE: "chain H r n (m # xs)"
inductive_cases chain_NilE: "chain H r n []"

lemma chain_unique: "chain H r n xs \<Longrightarrow> chain H r n ys \<Longrightarrow> xs = ys"
proof (induction arbitrary: ys rule: chain.induct)
  case ch_root
  then show ?case by (cases rule: chain.cases) simp_all
next
  case (ch_node n nd q xs)
  from ch_node.prems show ?case
  proof (cases rule: chain.cases)
    case ch_root
    then show ?thesis using ch_node.hyps(1) by simp
  next
    case (ch_node nd' q' ys')
    have "q' = q" using ch_node(3,4) \<open>H n = Some nd\<close> \<open>nd_parent nd = Some q\<close> by simp
    then show ?thesis using ch_node(1,5) \<open>\<And>ys. chain H r q ys \<Longrightarrow> xs = ys\<close> by simp
  qed
qed

lemma chain_length_less:
  assumes "chain H r n xs" and "m \<in> set xs" and "m \<noteq> n"
  shows "\<exists>ys. chain H r m ys \<and> length ys < length xs"
  using assms
proof (induction rule: chain.induct)
  case (ch_node n nd q xs)
  then show ?case
  proof (cases "m = q")
    case True
    then show ?thesis using ch_node.hyps(4) by auto
  next
    case False
    then show ?thesis using ch_node by fastforce
  qed
qed simp

lemma chain_mem:
  "chain H r n xs \<Longrightarrow> m \<in> set xs \<Longrightarrow> m \<noteq> r \<and> m \<in> dom H"
  by (induction rule: chain.induct) auto

lemma chain_suffix:
  "chain H r n xs \<Longrightarrow> m \<in> set xs \<Longrightarrow> \<exists>us ys. xs = us @ m # ys \<and> chain H r m (m # ys)"
proof (induction rule: chain.induct)
  case (ch_node n nd q xs)
  show ?case
  proof (cases "m = n")
    case True
    then show ?thesis using chain.ch_node [OF ch_node.hyps] by (metis append_Nil)
  next
    case False
    then obtain us ys where "xs = us @ m # ys" "chain H r m (m # ys)" using ch_node by auto
    then show ?thesis by (metis append_Cons)
  qed
qed simp

lemma chain_distinct: "chain H r n xs \<Longrightarrow> distinct xs"
proof (induction rule: chain.induct)
  case (ch_node n nd q xs)
  have "n \<notin> set xs"
  proof
    assume "n \<in> set xs"
    then obtain us ys where s: "xs = us @ n # ys" "chain H r n (n # ys)"
      using chain_suffix [OF ch_node.hyps(4)] by blast
    have "chain H r n (n # xs)" by (rule chain.ch_node [OF ch_node.hyps])
    from chain_unique [OF this s(2)] s(1) show False by simp
  qed
  with ch_node.IH show ?case by simp
qed simp

lemma chain_head: "chain H r n xs \<Longrightarrow> n \<noteq> r \<Longrightarrow> \<exists>ys. xs = n # ys"
  by (auto elim: chain.cases)

text \<open>A chain only looks at the parent pointers of its members.\<close>

lemma chain_cong:
  assumes "chain H r n xs"
    and "\<And>m. m \<in> set xs \<Longrightarrow> map_option nd_parent (H' m) = map_option nd_parent (H m)"
  shows "chain H' r n xs"
  using assms
proof (induction rule: chain.induct)
  case ch_root
  show ?case by (rule chain.ch_root)
next
  case (ch_node n nd q xs)
  have "map_option nd_parent (H' n) = Some (Some q)" using ch_node by simp
  then obtain nd' where "H' n = Some nd'" "nd_parent nd' = Some q" by auto
  then show ?case using ch_node by (intro chain.ch_node) simp_all
qed

subsection \<open>Paths and the index\<close>

definition path :: "heap \<Rightarrow> nat list \<Rightarrow> TokenId list" where
  "path H xs = concat (map (\<lambda>n. nd_tokens (the (H n))) (rev xs))"

definition path_blocks :: "heap \<Rightarrow> nat list \<Rightarrow> BlockId list" where
  "path_blocks H xs = concat (map (\<lambda>n. nd_blocks (the (H n))) (rev xs))"

lemma path_simps [simp]:
  "path H [] = []" "path H (n # xs) = path H xs @ nd_tokens (the (H n))"
  "path_blocks H [] = []" "path_blocks H (n # xs) = path_blocks H xs @ nd_blocks (the (H n))"
  by (simp_all add: path_def path_blocks_def)

lemma path_append: "path H (xs @ ys) = path H ys @ path H xs"
  by (simp add: path_def)

lemma path_blocks_append: "path_blocks H (xs @ ys) = path_blocks H ys @ path_blocks H xs"
  by (simp add: path_blocks_def)

definition cached :: "RadixTree \<Rightarrow> TokenId list \<Rightarrow> BlockId \<Rightarrow> bool" where
  "cached t P b \<longleftrightarrow> (\<exists>n xs i. chain (rt_nodes t) (rt_root t) n xs \<and> i < length (path_blocks (rt_nodes t) xs)
     \<and> P = take ((i + 1) * rt_block_tokens t) (path (rt_nodes t) xs) \<and> b = path_blocks (rt_nodes t) xs ! i)"

subsection \<open>Well-formed trees\<close>

definition root_ok :: "RadixTree \<Rightarrow> bool" where
  "root_ok t \<longleftrightarrow> (case rt_nodes t (rt_root t) of None \<Rightarrow> False
     | Some rn \<Rightarrow> nd_parent rn = None \<and> nd_tokens rn = [] \<and> nd_blocks rn = [])"

definition links_ok :: "RadixTree \<Rightarrow> nat \<Rightarrow> Node \<Rightarrow> bool" where
  "links_ok t n nd \<longleftrightarrow> distinct (map fst (nd_children nd))
     \<and> (\<forall>k c. map_of (nd_children nd) k = Some c \<longrightarrow> c \<noteq> rt_root t
          \<and> (\<exists>cn. rt_nodes t c = Some cn \<and> nd_parent cn = Some n
                \<and> k = block_key (nd_tokens cn) (rt_block_tokens t)))"

definition body_ok :: "RadixTree \<Rightarrow> nat \<Rightarrow> Node \<Rightarrow> bool" where
  "body_ok t n nd \<longleftrightarrow> nd_blocks nd \<noteq> [] \<and> length (nd_tokens nd) = length (nd_blocks nd) * rt_block_tokens t
     \<and> (\<exists>q qn. nd_parent nd = Some q \<and> rt_nodes t q = Some qn
          \<and> map_of (nd_children qn) (block_key (nd_tokens nd) (rt_block_tokens t)) = Some n)"

definition tree_wf :: "RadixTree \<Rightarrow> bool" where
  "tree_wf t \<longleftrightarrow> 0 < rt_block_tokens t \<and> root_ok t
     \<and> (\<forall>n nd. rt_nodes t n = Some nd \<longrightarrow> n < rt_next t \<and> links_ok t n nd
          \<and> (n \<noteq> rt_root t \<longrightarrow> body_ok t n nd) \<and> (\<exists>xs. chain (rt_nodes t) (rt_root t) n xs))"

lemma tree_wfD:
  assumes "tree_wf t"
  shows "0 < rt_block_tokens t"
    and "rt_nodes t n = Some nd \<Longrightarrow> n < rt_next t"
    and "rt_nodes t n = Some nd \<Longrightarrow> links_ok t n nd"
    and "rt_nodes t n = Some nd \<Longrightarrow> n \<noteq> rt_root t \<Longrightarrow> body_ok t n nd"
    and "rt_nodes t n = Some nd \<Longrightarrow> \<exists>xs. chain (rt_nodes t) (rt_root t) n xs"
    and "\<exists>rn. rt_nodes t (rt_root t) = Some rn \<and> nd_parent rn = None \<and> nd_tokens rn = [] \<and> nd_blocks rn = []"
  using assms by (auto simp: tree_wf_def root_ok_def split: option.splits)

lemma tree_wf_new: "RadixTree_new bt = Inr t \<Longrightarrow> tree_wf t"
proof -
  assume "RadixTree_new bt = Inr t"
  then have bt: "0 < bt" and t: "t = \<lparr>rt_nodes = [0 \<mapsto> fresh_node], rt_block_tokens = bt, rt_root = 0,
            rt_clock = 0, rt_stored_blocks = 0, rt_num_nodes = 0, rt_collisions = 0, rt_next = 1\<rparr>"
    by (auto simp: RadixTree_new_def result_simps)
  have "n < rt_next t \<and> links_ok t n nd \<and> (n \<noteq> rt_root t \<longrightarrow> body_ok t n nd)
      \<and> (\<exists>xs. chain (rt_nodes t) (rt_root t) n xs)" if "rt_nodes t n = Some nd" for n nd
  proof -
    have n: "n = rt_root t" "nd = fresh_node" "n < rt_next t"
      using that by (simp_all add: t split: if_splits)
    have "\<exists>xs. chain (rt_nodes t) (rt_root t) n xs" unfolding n(1) by (rule exI) (rule ch_root)
    moreover have "links_ok t n nd" by (simp add: links_ok_def n(2) fresh_node_def)
    ultimately show ?thesis using n by blast
  qed
  moreover have "root_ok t" "0 < rt_block_tokens t" using bt by (simp_all add: root_ok_def t fresh_node_def)
  ultimately show ?thesis unfolding tree_wf_def by blast
qed

lemma node_at_eq_Inr [result_simps]: "node_at t n = Inr nd \<longleftrightarrow> rt_nodes t n = Some nd"
  by (auto simp: node_at_def split: option.splits)

lemma node_at_Some [simp]: "rt_nodes t n = Some nd \<Longrightarrow> node_at t n = Inr nd"
  by (simp add: node_at_def)

lemma wf_child:
  assumes "tree_wf t" and "rt_nodes t n = Some nd" and "map_of (nd_children nd) k = Some c"
  obtains cn where "rt_nodes t c = Some cn" "c \<noteq> rt_root t" "nd_parent cn = Some n"
    "k = block_key (nd_tokens cn) (rt_block_tokens t)"
  using tree_wfD(3) [OF assms(1,2)] assms(3) unfolding links_ok_def by blast

lemma wf_parent:
  assumes "tree_wf t" and "rt_nodes t n = Some nd" and "n \<noteq> rt_root t"
  obtains q qn where "nd_parent nd = Some q" "rt_nodes t q = Some qn"
    "map_of (nd_children qn) (block_key (nd_tokens nd) (rt_block_tokens t)) = Some n"
  using tree_wfD(4) [OF assms] by (auto simp: body_ok_def)

lemma wf_body:
  assumes "tree_wf t" and "rt_nodes t n = Some nd" and "n \<noteq> rt_root t"
  shows "nd_blocks nd \<noteq> []" "length (nd_tokens nd) = length (nd_blocks nd) * rt_block_tokens t"
  using tree_wfD(4) [OF assms] by (auto simp: body_ok_def)

lemma wf_path_length:
  assumes wf: "tree_wf t" and "chain (rt_nodes t) (rt_root t) n xs"
  shows "length (path (rt_nodes t) xs) = length (path_blocks (rt_nodes t) xs) * rt_block_tokens t"
  using assms(2)
proof (induction rule: chain.induct)
  case (ch_node n nd q xs)
  then show ?case using wf_body(2) [OF wf ch_node.hyps(2,1)] by (simp add: distrib_right)
qed simp

lemma chain_child:
  assumes wf: "tree_wf t" and "chain (rt_nodes t) (rt_root t) n xs" and "rt_nodes t n = Some nd"
    and "map_of (nd_children nd) k = Some c"
  shows "chain (rt_nodes t) (rt_root t) c (c # xs)"
proof -
  obtain cn where "rt_nodes t c = Some cn" "c \<noteq> rt_root t" "nd_parent cn = Some n"
    using wf_child [OF wf assms(3,4)] .
  then show ?thesis using assms(2) by (intro ch_node) simp_all
qed

lemma chain_length:
  assumes "tree_wf t" and "chain (rt_nodes t) (rt_root t) n xs"
  shows "length xs < rt_next t"
proof -
  have "set (rt_root t # xs) \<subseteq> {..<rt_next t}"
    using chain_mem [OF assms(2)] tree_wfD(2,6) [OF assms(1)] by (auto simp: dom_def)
  moreover have "distinct (rt_root t # xs)" using chain_distinct [OF assms(2)] chain_mem [OF assms(2)] by auto
  ultimately have "length (rt_root t # xs) \<le> rt_next t"
    by (metis card_mono card_lessThan distinct_card finite_lessThan)
  then show ?thesis by simp
qed

text \<open>A key of a block depends only on the first block of tokens.\<close>

lemma block_key_cong: "take n ts = take n us \<Longrightarrow> block_key ts n = block_key us n"
  by (simp add: block_key_def)


subsection \<open>Changes that keep the shape\<close>

text \<open>Recency and pin counts may change; tokens, blocks and links may not.\<close>

definition skel :: "Node \<Rightarrow> TokenId list \<times> BlockId list \<times> (key \<times> nat) list \<times> nat option" where
  "skel nd = (nd_tokens nd, nd_blocks nd, nd_children nd, nd_parent nd)"

definition same_shape :: "RadixTree \<Rightarrow> RadixTree \<Rightarrow> bool" where
  "same_shape t t' \<longleftrightarrow> rt_root t' = rt_root t \<and> rt_block_tokens t' = rt_block_tokens t
     \<and> rt_next t' = rt_next t \<and> (\<forall>n. map_option skel (rt_nodes t' n) = map_option skel (rt_nodes t n))"

lemma same_shape_refl [simp]: "same_shape t t"
  by (simp add: same_shape_def)

lemma same_shape_sym: "same_shape t t' \<Longrightarrow> same_shape t' t"
  by (simp add: same_shape_def)

lemma same_shape_trans: "same_shape t t' \<Longrightarrow> same_shape t' t'' \<Longrightarrow> same_shape t t''"
  by (simp add: same_shape_def)

lemma same_shape_node:
  assumes "same_shape t t'" and "rt_nodes t n = Some nd"
  obtains nd' where "rt_nodes t' n = Some nd'" "nd_tokens nd' = nd_tokens nd" "nd_blocks nd' = nd_blocks nd"
    "nd_children nd' = nd_children nd" "nd_parent nd' = nd_parent nd"
proof -
  have "map_option skel (rt_nodes t' n) = Some (skel nd)" using assms by (simp add: same_shape_def)
  then show thesis using that by (auto simp: skel_def)
qed

lemma same_shape_chain:
  assumes "same_shape t t'"
  shows "chain (rt_nodes t') (rt_root t') n xs \<longleftrightarrow> chain (rt_nodes t) (rt_root t) n xs"
proof -
  have "map_option nd_parent (rt_nodes t' m) = map_option nd_parent (rt_nodes t m)" for m
  proof -
    have "map_option (snd \<circ> snd \<circ> snd \<circ> skel) (rt_nodes t' m) = map_option (snd \<circ> snd \<circ> snd \<circ> skel) (rt_nodes t m)"
      using assms by (simp add: same_shape_def flip: option.map_comp)
    then show ?thesis by (simp add: comp_def skel_def)
  qed
  then show ?thesis
    using chain_cong [of "rt_nodes t" "rt_root t" n xs "rt_nodes t'"]
      chain_cong [of "rt_nodes t'" "rt_root t'" n xs "rt_nodes t"] assms by (auto simp: same_shape_def)
qed

lemma same_shape_the:
  assumes "same_shape t t'"
  shows "nd_tokens (the (rt_nodes t' n)) = nd_tokens (the (rt_nodes t n))"
    "nd_blocks (the (rt_nodes t' n)) = nd_blocks (the (rt_nodes t n))"
proof -
  have "map_option skel (rt_nodes t' n) = map_option skel (rt_nodes t n)"
    using assms by (simp add: same_shape_def)
  then show "nd_tokens (the (rt_nodes t' n)) = nd_tokens (the (rt_nodes t n))"
    "nd_blocks (the (rt_nodes t' n)) = nd_blocks (the (rt_nodes t n))"
    by (cases "rt_nodes t n"; auto simp: skel_def)+
qed

lemma same_shape_path:
  "same_shape t t' \<Longrightarrow> path (rt_nodes t') xs = path (rt_nodes t) xs"
  "same_shape t t' \<Longrightarrow> path_blocks (rt_nodes t') xs = path_blocks (rt_nodes t) xs"
  using same_shape_the by (simp_all add: path_def path_blocks_def)

lemma same_shape_cached: "same_shape t t' \<Longrightarrow> cached t' P b \<longleftrightarrow> cached t P b"
  unfolding cached_def
  by (simp only: same_shape_chain [of t t'] same_shape_path [of t t'])
    (simp only: same_shape_def)

lemma same_shape_links:
  assumes s: "same_shape t t'" and ch: "nd_children nd' = nd_children nd" and ok: "links_ok t n nd"
  shows "links_ok t' n nd'"
proof -
  have "c \<noteq> rt_root t' \<and> (\<exists>cn. rt_nodes t' c = Some cn \<and> nd_parent cn = Some n
      \<and> k = block_key (nd_tokens cn) (rt_block_tokens t'))" if k: "map_of (nd_children nd) k = Some c" for k c
  proof -
    obtain cn where cn: "c \<noteq> rt_root t" "rt_nodes t c = Some cn" "nd_parent cn = Some n"
      "k = block_key (nd_tokens cn) (rt_block_tokens t)"
      using ok k unfolding links_ok_def by blast
    obtain cn' where "rt_nodes t' c = Some cn'" "nd_tokens cn' = nd_tokens cn" "nd_parent cn' = nd_parent cn"
      using same_shape_node [OF s cn(2)] .
    with cn s show ?thesis by (simp add: same_shape_def)
  qed
  with ok ch show ?thesis by (simp add: links_ok_def)
qed

lemma same_shape_body:
  assumes s: "same_shape t t'" and eq: "nd_tokens nd' = nd_tokens nd" "nd_blocks nd' = nd_blocks nd"
    "nd_parent nd' = nd_parent nd" and ok: "body_ok t n nd"
  shows "body_ok t' n nd'"
proof -
  obtain q qn where q: "nd_parent nd = Some q" "rt_nodes t q = Some qn"
    "map_of (nd_children qn) (block_key (nd_tokens nd) (rt_block_tokens t)) = Some n"
    using ok unfolding body_ok_def by blast
  obtain qn' where "rt_nodes t' q = Some qn'" "nd_children qn' = nd_children qn"
    using same_shape_node [OF s q(2)] .
  with q ok eq s show ?thesis by (simp add: body_ok_def same_shape_def)
qed

lemma same_shape_wf:
  assumes s: "same_shape t t'" and wf: "tree_wf t" shows "tree_wf t'"
proof -
  obtain rn where rn: "rt_nodes t (rt_root t) = Some rn" "nd_parent rn = None" "nd_tokens rn = []"
    "nd_blocks rn = []" using tree_wfD(6) [OF wf] by blast
  obtain rn' where "rt_nodes t' (rt_root t) = Some rn'" "nd_tokens rn' = nd_tokens rn"
    "nd_blocks rn' = nd_blocks rn" "nd_parent rn' = nd_parent rn"
    using same_shape_node [OF s rn(1)] .
  with rn s have "root_ok t'" by (simp add: root_ok_def same_shape_def)
  moreover have "n < rt_next t' \<and> links_ok t' n nd' \<and> (n \<noteq> rt_root t' \<longrightarrow> body_ok t' n nd')
      \<and> (\<exists>xs. chain (rt_nodes t') (rt_root t') n xs)" if n': "rt_nodes t' n = Some nd'" for n nd'
  proof -
    obtain nd where nd: "rt_nodes t n = Some nd" "nd_tokens nd = nd_tokens nd'" "nd_blocks nd = nd_blocks nd'"
      "nd_children nd = nd_children nd'" "nd_parent nd = nd_parent nd'"
      using same_shape_node [OF same_shape_sym [OF s] n'] .
    have "links_ok t' n nd'" by (rule same_shape_links [OF s _ tree_wfD(3) [OF wf nd(1)]]) (simp add: nd)
    moreover have "n \<noteq> rt_root t' \<Longrightarrow> body_ok t' n nd'"
      using tree_wfD(4) [OF wf nd(1)] s
      by (intro same_shape_body [OF s, of nd' nd]) (simp_all add: nd same_shape_def)
    moreover have "\<exists>xs. chain (rt_nodes t') (rt_root t') n xs"
      using tree_wfD(5) [OF wf nd(1)] same_shape_chain [OF s] by blast
    ultimately show ?thesis using tree_wfD(2) [OF wf nd(1)] s by (simp add: same_shape_def)
  qed
  moreover have "0 < rt_block_tokens t'" using tree_wfD(1) [OF wf] s by (simp add: same_shape_def)
  ultimately show ?thesis unfolding tree_wf_def by blast
qed

lemma same_shape_set_node:
  "rt_nodes t n = Some nd \<Longrightarrow> skel nd' = skel nd \<Longrightarrow> same_shape t (set_node n nd' t)"
  by (simp add: same_shape_def set_node_def)

lemma same_shape_counters [simp]:
  "same_shape t (t\<lparr>rt_clock := c\<rparr>)" "same_shape t (t\<lparr>rt_collisions := c\<rparr>)"
  by (simp_all add: same_shape_def)

lemma touch_ok:
  assumes "rt_nodes t n = Some nd"
  shows "\<exists>t'. touch t n = Inr t' \<and> same_shape t t' \<and> rt_stored_blocks t' = rt_stored_blocks t
     \<and> rt_num_nodes t' = rt_num_nodes t \<and> rt_collisions t' = rt_collisions t
     \<and> rt_nodes t' = (rt_nodes t)(n \<mapsto> nd\<lparr>nd_last := u64 (rt_clock t + 1)\<rparr>)
     \<and> rt_clock t' = u64 (rt_clock t + 1)"
  using assms by (simp add: touch_def same_shape_def set_node_def skel_def Let_def)

end
