(* ===== verification/Radix_Walk.thy ===== *)
theory Radix_Walk
  imports Radix_Invariant
begin

section \<open>The prefix tree: splitting, matching and inserting\<close>

text \<open>
  Splitting a node changes its links but nothing of the index. The walk of
  \<^verbatim>\<open>match_prefix()\<close> finds the longest cached prefix, whatever hash collisions the tree
  contains, and \<^verbatim>\<open>insert()\<close> adds exactly the missing suffix or, on a collision, nothing.
\<close>

subsection \<open>split_node\<close>

definition split_tail :: "RadixTree \<Rightarrow> Node \<Rightarrow> nat \<Rightarrow> Node" where
  "split_tail t cn k = cn\<lparr>nd_tokens := drop (k * rt_block_tokens t) (nd_tokens cn),
     nd_blocks := drop k (nd_blocks cn), nd_parent := Some (rt_next t)\<rparr>"

definition split_head :: "RadixTree \<Rightarrow> nat \<Rightarrow> Node \<Rightarrow> nat \<Rightarrow> Node" where
  "split_head t c cn k = \<lparr>nd_tokens = take (k * rt_block_tokens t) (nd_tokens cn),
     nd_blocks = take k (nd_blocks cn),
     nd_children = [(block_key (drop (k * rt_block_tokens t) (nd_tokens cn)) (rt_block_tokens t), c)],
     nd_parent = nd_parent cn, nd_lock = nd_lock cn, nd_last = nd_last cn\<rparr>"

definition split_top :: "RadixTree \<Rightarrow> Node \<Rightarrow> Node \<Rightarrow> Node" where
  "split_top t cn qn = qn\<lparr>nd_children :=
     AList.update (block_key (nd_tokens cn) (rt_block_tokens t)) (rt_next t) (nd_children qn)\<rparr>"

definition split_tree :: "RadixTree \<Rightarrow> nat \<Rightarrow> Node \<Rightarrow> nat \<Rightarrow> Node \<Rightarrow> nat \<Rightarrow> RadixTree" where
  "split_tree t c cn q qn k =
     t\<lparr>rt_nodes := (rt_nodes t)(c \<mapsto> split_tail t cn k, rt_next t \<mapsto> split_head t c cn k,
                                q \<mapsto> split_top t cn qn),
       rt_num_nodes := u64 (rt_num_nodes t + 1), rt_next := rt_next t + 1\<rparr>"

text \<open>What a split starts from.\<close>

definition splittable :: "RadixTree \<Rightarrow> nat \<Rightarrow> Node \<Rightarrow> nat \<Rightarrow> Node \<Rightarrow> nat \<Rightarrow> bool" where
  "splittable t c cn q qn k \<longleftrightarrow> tree_wf t \<and> rt_nodes t c = Some cn \<and> c \<noteq> rt_root t
     \<and> nd_parent cn = Some q \<and> rt_nodes t q = Some qn
     \<and> map_of (nd_children qn) (block_key (nd_tokens cn) (rt_block_tokens t)) = Some c
     \<and> 0 < k \<and> k < length (nd_blocks cn)"

lemma splittableI:
  assumes "tree_wf t" and "rt_nodes t c = Some cn" and "c \<noteq> rt_root t" and "0 < k" "k < length (nd_blocks cn)"
  obtains q qn where "splittable t c cn q qn k"
  using wf_parent [OF assms(1-3)] assms unfolding splittable_def by blast

lemma split_node_eq:
  assumes s: "splittable t c cn q qn k"
  shows "split_node t c (k * rt_block_tokens t) = Inr (rt_next t, split_tree t c cn q qn k)"
proof -
  have wf: "tree_wf t" and c: "rt_nodes t c = Some cn" "c \<noteq> rt_root t" and k: "0 < k" "k < length (nd_blocks cn)"
    using s by (simp_all add: splittable_def)
  have bt: "0 < rt_block_tokens t" by (rule tree_wfD(1) [OF wf])
  have "k * rt_block_tokens t < length (nd_tokens cn)" using wf_body(2) [OF wf c] k bt by simp
  then show ?thesis
    using s bt k by (simp add: split_node_def splittable_def Let_def split_tree_def split_tail_def
        split_head_def split_top_def)
qed

lemma splittable_distinct:
  assumes s: "splittable t c cn q qn k"
  shows "c \<noteq> q" "rt_next t \<noteq> c" "rt_next t \<noteq> q" "rt_next t \<noteq> rt_root t" "rt_nodes t (rt_next t) = None"
    "rt_block_tokens t \<le> k * rt_block_tokens t"
    "k * rt_block_tokens t + rt_block_tokens t \<le> length (nd_tokens cn)"
proof -
  have wf: "tree_wf t" and c: "rt_nodes t c = Some cn" "c \<noteq> rt_root t" and q: "nd_parent cn = Some q" "rt_nodes t q = Some qn"
    and k: "0 < k" "k < length (nd_blocks cn)"
    using s by (simp_all add: splittable_def)
  have next_free: "rt_nodes t n = Some nd \<Longrightarrow> n \<noteq> rt_next t" for n nd using tree_wfD(2) [OF wf] by blast
  show "rt_next t \<noteq> c" "rt_next t \<noteq> q" using next_free c(1) q(2) by blast+
  show "rt_next t \<noteq> rt_root t" using next_free tree_wfD(6) [OF wf] by metis
  show "rt_nodes t (rt_next t) = None" using next_free by fastforce
  obtain xs where xs: "chain (rt_nodes t) (rt_root t) q xs" using tree_wfD(5) [OF wf q(2)] by blast
  then have ch: "chain (rt_nodes t) (rt_root t) c (c # xs)" using c q(1) by (intro ch_node) simp_all
  show "c \<noteq> q" using chain_unique [OF ch, of xs] xs by auto
  show "rt_block_tokens t \<le> k * rt_block_tokens t" using k(1) by simp
  have "(k + 1) * rt_block_tokens t \<le> length (nd_tokens cn)"
    using k(2) wf_body(2) [OF wf c] by (simp only: mult_le_mono1)
  then show "k * rt_block_tokens t + rt_block_tokens t \<le> length (nd_tokens cn)" by simp
qed

lemma split_tree_simps [simp]:
  "rt_root (split_tree t c cn q qn k) = rt_root t"
  "rt_block_tokens (split_tree t c cn q qn k) = rt_block_tokens t"
  "rt_next (split_tree t c cn q qn k) = rt_next t + 1"
  "rt_clock (split_tree t c cn q qn k) = rt_clock t"
  "rt_stored_blocks (split_tree t c cn q qn k) = rt_stored_blocks t"
  "rt_num_nodes (split_tree t c cn q qn k) = u64 (rt_num_nodes t + 1)"
  "rt_collisions (split_tree t c cn q qn k) = rt_collisions t"
  by (simp_all add: split_tree_def)

lemma split_nodes:
  assumes s: "splittable t c cn q qn k"
  defines "H \<equiv> rt_nodes (split_tree t c cn q qn k)"
  shows "H c = Some (split_tail t cn k)" "H (rt_next t) = Some (split_head t c cn k)"
    "H q = Some (split_top t cn qn)"
    "n \<noteq> c \<Longrightarrow> n \<noteq> q \<Longrightarrow> n \<noteq> rt_next t \<Longrightarrow> H n = rt_nodes t n"
  using splittable_distinct [OF s] by (simp_all add: H_def split_tree_def)

text \<open>Any old node other than the split one keeps its tokens, blocks, parent and counters.\<close>

lemma split_other:
  assumes s: "splittable t c cn q qn k" and n: "n \<noteq> c" "rt_nodes t n = Some nd"
  obtains nd' where "rt_nodes (split_tree t c cn q qn k) n = Some nd'" "nd_tokens nd' = nd_tokens nd"
    "nd_blocks nd' = nd_blocks nd" "nd_parent nd' = nd_parent nd" "nd_lock nd' = nd_lock nd"
    "nd_last nd' = nd_last nd" "n \<noteq> q \<Longrightarrow> nd_children nd' = nd_children nd"
proof (cases "n = q")
  case True
  then have "nd = qn" using n s by (simp add: splittable_def)
  then show thesis
    using that [of "split_top t cn qn"] split_nodes(3) [OF s] True by (simp add: split_top_def)
next
  case False
  have "n \<noteq> rt_next t" using splittable_distinct(5) [OF s] n by auto
  then show thesis using that [of nd] split_nodes(4) [OF s] False n by simp
qed

lemma split_dom:
  assumes s: "splittable t c cn q qn k" and n: "rt_nodes (split_tree t c cn q qn k) n = Some nd"
  shows "n = rt_next t \<or> (\<exists>nd0. rt_nodes t n = Some nd0)"
proof (cases "n = c \<or> n = q")
  case True
  then show ?thesis using s by (auto simp: splittable_def)
next
  case False
  then show ?thesis using split_nodes(4) [OF s, of n] n by metis
qed

subsubsection \<open>Chains after a split\<close>

definition with_head :: "RadixTree \<Rightarrow> nat \<Rightarrow> nat list \<Rightarrow> nat list" where
  "with_head t c xs = concat (map (\<lambda>x. if x = c then [c, rt_next t] else [x]) xs)"

lemma with_head_simps [simp]:
  "with_head t c [] = []" "with_head t c (x # xs) = (if x = c then c # rt_next t # with_head t c xs else x # with_head t c xs)"
  by (simp_all add: with_head_def)

lemma with_head_id: "c \<notin> set xs \<Longrightarrow> with_head t c xs = xs"
  by (induction xs) auto

lemma split_chain:
  assumes s: "splittable t c cn q qn k" and "chain (rt_nodes t) (rt_root t) n xs"
  shows "chain (rt_nodes (split_tree t c cn q qn k)) (rt_root t) n (with_head t c xs)"
  using assms(2)
proof (induction rule: chain.induct)
  case ch_root
  show ?case using chain.ch_root by simp
next
  case (ch_node n nd m xs)
  show ?case
  proof (cases "n = c")
    case True
    then have "m = q" using ch_node.hyps s by (simp add: splittable_def)
    then have "chain (rt_nodes (split_tree t c cn q qn k)) (rt_root t) (rt_next t) (rt_next t # with_head t c xs)"
      using ch_node.IH splittable_distinct(4) [OF s] split_nodes(2) [OF s] s
      by (intro chain.ch_node) (auto simp: split_head_def splittable_def)
    then show ?thesis
      using True ch_node.hyps(1) split_nodes(1) [OF s]
      by (simp add: chain.ch_node split_tail_def)
  next
    case False
    then show ?thesis
      using split_other [OF s False ch_node.hyps(2)] ch_node by (auto intro: chain.ch_node)
  qed
qed

lemma split_head_chain:
  assumes s: "splittable t c cn q qn k" and "chain (rt_nodes t) (rt_root t) q xs"
  shows "chain (rt_nodes (split_tree t c cn q qn k)) (rt_root t) (rt_next t) (rt_next t # xs)"
    and "chain (rt_nodes t) (rt_root t) c (c # xs)"
proof -
  show cc: "chain (rt_nodes t) (rt_root t) c (c # xs)"
    using s assms(2) by (auto simp: splittable_def intro: ch_node)
  have "c \<notin> set xs" using chain_distinct [OF cc] by simp
  then have "chain (rt_nodes (split_tree t c cn q qn k)) (rt_root t) q xs"
    using split_chain [OF assms] with_head_id [of c xs t] by simp
  then show "chain (rt_nodes (split_tree t c cn q qn k)) (rt_root t) (rt_next t) (rt_next t # xs)"
    using splittable_distinct(4) [OF s] split_nodes(2) [OF s] s
    by (intro chain.ch_node) (auto simp: split_head_def splittable_def)
qed

lemma split_path:
  assumes s: "splittable t c cn q qn k" and "chain (rt_nodes t) (rt_root t) n xs"
  shows "path (rt_nodes (split_tree t c cn q qn k)) (with_head t c xs) = path (rt_nodes t) xs
    \<and> path_blocks (rt_nodes (split_tree t c cn q qn k)) (with_head t c xs) = path_blocks (rt_nodes t) xs"
  using assms(2)
proof (induction rule: chain.induct)
  case (ch_node n nd m xs)
  show ?case
  proof (cases "n = c")
    case True
    then show ?thesis
      using ch_node.IH split_nodes(1,2) [OF s] s by (simp add: split_tail_def split_head_def splittable_def)
  next
    case False
    obtain nd' where "rt_nodes (split_tree t c cn q qn k) n = Some nd'" "nd_tokens nd' = nd_tokens nd"
      "nd_blocks nd' = nd_blocks nd"
      using split_other [OF s False ch_node.hyps(2)] .
    with ch_node.IH ch_node.hyps(2) False show ?thesis by simp
  qed
qed simp


lemma links_okI:
  assumes "distinct (map fst (nd_children nd))"
    and "\<And>k c. map_of (nd_children nd) k = Some c \<Longrightarrow> c \<noteq> rt_root t
          \<and> (\<exists>cn. rt_nodes t c = Some cn \<and> nd_parent cn = Some n
                \<and> k = block_key (nd_tokens cn) (rt_block_tokens t))"
  shows "links_ok t n nd"
  unfolding links_ok_def using assms by blast

text \<open>A link that does not lead to the split node is a link of the new tree.\<close>

lemma split_link:
  assumes s: "splittable t c cn q qn k" and m: "rt_nodes t m = Some mn" "map_of (nd_children mn) k' = Some x" "x \<noteq> c"
  shows "x \<noteq> rt_root t \<and> (\<exists>xn. rt_nodes (split_tree t c cn q qn k) x = Some xn \<and> nd_parent xn = Some m
     \<and> k' = block_key (nd_tokens xn) (rt_block_tokens t))"
proof -
  have "tree_wf t" using s by (simp add: splittable_def)
  then obtain xn where xn: "rt_nodes t x = Some xn" "x \<noteq> rt_root t" "nd_parent xn = Some m" "k' = block_key (nd_tokens xn) (rt_block_tokens t)"
    by (rule wf_child [OF _ m(1,2)])
  obtain xn' where "rt_nodes (split_tree t c cn q qn k) x = Some xn'" "nd_tokens xn' = nd_tokens xn" "nd_parent xn' = nd_parent xn"
    using split_other [OF s m(3) xn(1)] .
  with xn show ?thesis by auto
qed

text \<open>So the links of a node are right whose children, the split node apart, are those it had.\<close>

lemma split_links_same:
  assumes s: "splittable t c cn q qn k" and m: "rt_nodes t m = Some mn" "m \<noteq> q" and nd: "nd_children nd = nd_children mn"
  shows "links_ok (split_tree t c cn q qn k) m nd"
proof (rule links_okI)
  have wf: "tree_wf t" and c: "rt_nodes t c = Some cn" "nd_parent cn = Some q" using s by (simp_all add: splittable_def)
  show "distinct (map fst (nd_children nd))" using tree_wfD(3) [OF wf m(1)] unfolding nd links_ok_def by blast
  fix k' x assume "map_of (nd_children nd) k' = Some x"
  then have x: "map_of (nd_children mn) k' = Some x" by (simp add: nd)
  have "x \<noteq> c" using wf_child [OF wf m(1) x] c m(2) by (metis option.inject)
  from split_link [OF s m(1) x this] show "x \<noteq> rt_root (split_tree t c cn q qn k) \<and> (\<exists>xn. rt_nodes (split_tree t c cn q qn k) x = Some xn
      \<and> nd_parent xn = Some m \<and> k' = block_key (nd_tokens xn) (rt_block_tokens (split_tree t c cn q qn k)))" by simp
qed

lemma split_links_top:
  assumes s: "splittable t c cn q qn k"
  shows "links_ok (split_tree t c cn q qn k) q (split_top t cn qn)"
proof (rule links_okI)
  let ?t = "split_tree t c cn q qn k" and ?bt = "rt_block_tokens t" and ?nd = "split_top t cn qn"
  let ?key = "block_key (nd_tokens cn) ?bt"
  have wf: "tree_wf t" and c: "rt_nodes t c = Some cn" and q: "nd_parent cn = Some q" "rt_nodes t q = Some qn"
    using s by (simp_all add: splittable_def)
  note d = splittable_distinct [OF s] and nodes = split_nodes [OF s]
  show "distinct (map fst (nd_children ?nd))"
    using tree_wfD(3) [OF wf q(2)] unfolding links_ok_def by (simp add: split_top_def distinct_update)
  fix k' x assume x: "map_of (nd_children ?nd) k' = Some x"
  have ch: "map_of (nd_children ?nd) k' = (if k' = ?key then Some (rt_next t) else map_of (nd_children qn) k')"
    by (simp add: split_top_def update_conv')
  show "x \<noteq> rt_root ?t \<and> (\<exists>xn. rt_nodes ?t x = Some xn \<and> nd_parent xn = Some q \<and> k' = block_key (nd_tokens xn) (rt_block_tokens ?t))"
  proof (cases "k' = ?key")
    case True
    then have "x = rt_next t" using x ch by simp
    moreover have "block_key (take (k * ?bt) (nd_tokens cn)) ?bt = ?key" using d(6) by (intro block_key_take) simp
    ultimately show ?thesis using True nodes(2) q(1) d(4) by (simp add: split_head_def)
  next
    case False
    then have x': "map_of (nd_children qn) k' = Some x" using x ch by simp
    have "x \<noteq> c" using wf_child [OF wf q(2) x'] c False by (metis option.inject)
    from split_link [OF s q(2) x' this] show ?thesis by simp
  qed
qed

lemma split_links:
  assumes s: "splittable t c cn q qn k" and n: "rt_nodes (split_tree t c cn q qn k) n = Some nd"
  shows "links_ok (split_tree t c cn q qn k) n nd"
proof -
  have c: "rt_nodes t c = Some cn" "c \<noteq> rt_root t" using s by (simp_all add: splittable_def)
  note d = splittable_distinct [OF s] and nodes = split_nodes [OF s]
  consider "n = rt_next t" | "n = q" | "n = c" | "n \<noteq> rt_next t" "n \<noteq> q" "n \<noteq> c" by blast
  then show ?thesis
  proof cases
    case 1
    then have "nd = split_head t c cn k" using n nodes(2) by simp
    then show ?thesis using 1 nodes(1) c(2) by (simp add: links_ok_def split_head_def split_tail_def)
  next
    case 2
    then show ?thesis using split_links_top [OF s] n nodes(3) by simp
  next
    case 3
    then have "nd = split_tail t cn k" using n nodes(1) by simp
    then show ?thesis unfolding 3 using d(1) by (intro split_links_same [OF s c(1)]) (auto simp: split_tail_def)
  next
    case 4
    then have "rt_nodes t n = Some nd" using n nodes(4) by simp
    then show ?thesis using 4 by (intro split_links_same [OF s]) simp_all
  qed
qed

text \<open>A node other than the two halves stays a child of its parent, under the same key.\<close>

lemma split_parent:
  assumes s: "splittable t c cn q qn k" and m: "rt_nodes t m = Some mn" "map_of (nd_children mn) key = Some n" and nc: "n \<noteq> c"
  shows "\<exists>mn'. rt_nodes (split_tree t c cn q qn k) m = Some mn' \<and> map_of (nd_children mn') key = Some n"
proof -
  note nodes = split_nodes [OF s]
  have q: "rt_nodes t q = Some qn" and c: "rt_nodes t c = Some cn"
    and ck: "map_of (nd_children qn) (block_key (nd_tokens cn) (rt_block_tokens t)) = Some c"
    using s by (simp_all add: splittable_def)
  consider "m = q" | "m \<noteq> q" "m = c" | "m \<noteq> q" "m \<noteq> c" by blast
  then show ?thesis
  proof cases
    case 1
    then have "key \<noteq> block_key (nd_tokens cn) (rt_block_tokens t)" using m ck q nc by auto
    then show ?thesis using 1 m q nodes(3) by (simp add: split_top_def update_conv')
  next
    case 2
    then show ?thesis using m c nodes(1) by (simp add: split_tail_def)
  next
    case 3
    then obtain mn' where "rt_nodes (split_tree t c cn q qn k) m = Some mn'" "nd_children mn' = nd_children mn"
      using split_other [OF s 3(2) m(1)] by metis
    with m(2) show ?thesis by simp
  qed
qed

lemma split_body:
  assumes s: "splittable t c cn q qn k" and n: "rt_nodes (split_tree t c cn q qn k) n = Some nd"
    and nr: "n \<noteq> rt_root t"
  shows "body_ok (split_tree t c cn q qn k) n nd"
proof -
  let ?t = "split_tree t c cn q qn k" and ?bt = "rt_block_tokens t"
  let ?key = "block_key (nd_tokens cn) ?bt"
  have wf: "tree_wf t" and c: "rt_nodes t c = Some cn" "c \<noteq> rt_root t" and q: "nd_parent cn = Some q" "rt_nodes t q = Some qn"
    and k: "0 < k" "k < length (nd_blocks cn)"
    using s by (simp_all add: splittable_def)
  note d = splittable_distinct [OF s] and nodes = split_nodes [OF s]
  note len = wf_body(2) [OF wf c]
  consider "n = rt_next t" | "n = c" | "n \<noteq> rt_next t" "n \<noteq> c" by blast
  then show ?thesis
  proof cases
    case 1
    then have nd: "nd = split_head t c cn k" using n nodes(2) by simp
    have "block_key (take (k * ?bt) (nd_tokens cn)) ?bt = ?key"
      using d(6) by (intro block_key_take) simp
    then show ?thesis
      using 1 nodes(3) q(1) k len d(7)
      by (auto simp: body_ok_def nd split_head_def split_top_def update_conv' min_def)
  next
    case 2
    then have nd: "nd = split_tail t cn k" using n nodes(1) by simp
    then show ?thesis
      using 2 nodes(2) k len by (simp add: body_ok_def split_tail_def split_head_def diff_mult_distrib)
  next
    case 3
    then obtain nd0 where nd0: "rt_nodes t n = Some nd0" using split_dom [OF s n] by blast
    have same: "nd_tokens nd = nd_tokens nd0" "nd_blocks nd = nd_blocks nd0" "nd_parent nd = nd_parent nd0"
      using split_other [OF s 3(2) nd0] n by auto
    obtain m mn where m: "nd_parent nd0 = Some m" "rt_nodes t m = Some mn"
      "map_of (nd_children mn) (block_key (nd_tokens nd0) ?bt) = Some n"
      using wf_parent [OF wf nd0 nr] .
    show ?thesis
      using wf_body [OF wf nd0 nr] m(1) same split_parent [OF s m(2,3) 3(2)] by (simp add: body_ok_def)
  qed
qed

lemma split_wf:
  assumes s: "splittable t c cn q qn k"
  shows "tree_wf (split_tree t c cn q qn k)"
proof -
  let ?t = "split_tree t c cn q qn k"
  have wf: "tree_wf t" and c: "rt_nodes t c = Some cn" "c \<noteq> rt_root t" and q: "rt_nodes t q = Some qn"
    using s by (simp_all add: splittable_def)
  obtain rn where rn: "rt_nodes t (rt_root t) = Some rn" "nd_parent rn = None" "nd_tokens rn = []" "nd_blocks rn = []"
    using tree_wfD(6) [OF wf] by blast
  obtain rn' where "rt_nodes ?t (rt_root t) = Some rn'" "nd_tokens rn' = nd_tokens rn" "nd_blocks rn' = nd_blocks rn"
    "nd_parent rn' = nd_parent rn" using split_other [OF s c(2) [symmetric] rn(1)] .
  with rn have "root_ok ?t" by (simp add: root_ok_def)
  moreover have "n < rt_next ?t \<and> links_ok ?t n nd \<and> (n \<noteq> rt_root ?t \<longrightarrow> body_ok ?t n nd)
      \<and> (\<exists>xs. chain (rt_nodes ?t) (rt_root ?t) n xs)" if n: "rt_nodes ?t n = Some nd" for n nd
  proof -
    have "n < rt_next t + 1 \<and> (\<exists>xs. chain (rt_nodes ?t) (rt_root t) n xs)"
      using split_dom [OF s n] tree_wfD(2,5) [OF wf] split_chain [OF s] split_head_chain(1) [OF s] q
      by (metis less_Suc_eq Suc_eq_plus1)
    then show ?thesis using split_links [OF s n] split_body [OF s n] by simp
  qed
  ultimately show ?thesis unfolding tree_wf_def using tree_wfD(1) [OF wf] by simp
qed

text \<open>Every chain of the split tree reads as a prefix of a chain of the old one.\<close>

lemma split_chain_inv:
  assumes s: "splittable t c cn q qn k" and ch: "chain (rt_nodes (split_tree t c cn q qn k)) (rt_root t) n ys"
  shows "n = rt_next t \<and> (\<exists>xs. chain (rt_nodes t) (rt_root t) c (c # xs) \<and> ys = rt_next t # xs)
       \<or> (\<exists>xs. chain (rt_nodes t) (rt_root t) n xs \<and> ys = with_head t c xs)"
proof -
  have wf: "tree_wf t" and q: "rt_nodes t q = Some qn" using s by (simp_all add: splittable_def)
  show ?thesis
  proof (cases "n = rt_next t")
    case True
    obtain xs where xs: "chain (rt_nodes t) (rt_root t) q xs" using tree_wfD(5) [OF wf q] by blast
    show ?thesis
      using split_head_chain [OF s xs] chain_unique [OF ch] True by blast
  next
    case False
    have "rt_nodes t n \<noteq> None"
    proof (cases "n = rt_root t")
      case True
      then show ?thesis using tree_wfD(6) [OF wf] by auto
    next
      case nr: False
      then obtain ys' where "ys = n # ys'" using chain_head [OF ch] by blast
      then have "n \<in> dom (rt_nodes (split_tree t c cn q qn k))" using chain_mem [OF ch, of n] by simp
      then show ?thesis using split_dom [OF s] False by blast
    qed
    then obtain xs where xs: "chain (rt_nodes t) (rt_root t) n xs" using tree_wfD(5) [OF wf] by blast
    with chain_unique [OF ch split_chain [OF s xs]] show ?thesis by blast
  qed
qed

lemma split_cached:
  assumes s: "splittable t c cn q qn k"
  shows "cached (split_tree t c cn q qn k) P b \<longleftrightarrow> cached t P b"
proof
  let ?t = "split_tree t c cn q qn k" and ?bt = "rt_block_tokens t"
  {
    assume "cached t P b"
    then obtain n xs i where "chain (rt_nodes t) (rt_root t) n xs" "i < length (path_blocks (rt_nodes t) xs)"
      "P = take ((i + 1) * ?bt) (path (rt_nodes t) xs)" "b = path_blocks (rt_nodes t) xs ! i"
      unfolding cached_def by blast
    then show "cached ?t P b"
      unfolding cached_def using split_chain [OF s] split_path [OF s]
      by (intro exI [of _ n] exI [of _ "with_head t c xs"] exI [of _ i]) simp
  next
    assume "cached ?t P b"
    then obtain n ys i where ch: "chain (rt_nodes ?t) (rt_root t) n ys" and i: "i < length (path_blocks (rt_nodes ?t) ys)"
      "P = take ((i + 1) * ?bt) (path (rt_nodes ?t) ys)" "b = path_blocks (rt_nodes ?t) ys ! i"
      unfolding cached_def by auto
    from split_chain_inv [OF s ch] show "cached t P b"
    proof (elim disjE conjE exE)
      fix xs assume xs: "chain (rt_nodes t) (rt_root t) c (c # xs)" "ys = rt_next t # xs"
      have wf: "tree_wf t" and cn: "rt_nodes t c = Some cn" "c \<noteq> rt_root t" and k: "k < length (nd_blocks cn)"
        using s by (simp_all add: splittable_def)
      have qch: "chain (rt_nodes t) (rt_root t) q xs"
        using xs(1) cn s by (auto elim: chain_ConsE simp: splittable_def)
      have "c \<notin> set xs" using chain_distinct [OF xs(1)] by simp
      then have p: "path (rt_nodes ?t) xs = path (rt_nodes t) xs" "path_blocks (rt_nodes ?t) xs = path_blocks (rt_nodes t) xs"
        using split_path [OF s qch] with_head_id [of c xs t] by simp_all
      note len = wf_path_length [OF wf qch]
      have bl: "i < length (path_blocks (rt_nodes t) xs) + k" using i(1) xs(2) split_nodes(2) [OF s] p k
        by (simp add: split_head_def min_def)
      then have "(i + 1) * ?bt \<le> (length (path_blocks (rt_nodes t) xs) + k) * ?bt" by (intro mult_le_mono1) simp
      then have "(i + 1) * ?bt - length (path (rt_nodes t) xs) \<le> k * ?bt" by (simp add: len distrib_right)
      then show ?thesis
        unfolding cached_def using xs cn split_nodes(2) [OF s] p i bl k
        by (intro exI [of _ c] exI [of _ "c # xs"] exI [of _ i])
          (simp add: split_head_def nth_append min_def)
    next
      fix xs assume "chain (rt_nodes t) (rt_root t) n xs" "ys = with_head t c xs"
      then show ?thesis unfolding cached_def using i split_path [OF s] by (metis)
    qed
  }
qed


subsection \<open>Comparing blocks\<close>

lemma take_Suc_blocks: "take ((c + 1) * bt) xs = take (c * bt) xs @ take bt (drop (c * bt) xs)"
proof -
  have "(c + 1) * bt = c * bt + bt" by simp
  then show ?thesis by (simp only: take_add)
qed

lemma common_blocks_ok:
  assumes "m * bt \<le> length ct" and "pos + m * bt \<le> length toks" and "c \<le> m"
    and "take (c * bt) ct = take (c * bt) (drop pos toks)"
  shows "\<exists>r. common_blocks bt ct toks pos m c = Inr r \<and> c \<le> r \<and> r \<le> m
     \<and> take (r * bt) ct = take (r * bt) (drop pos toks)
     \<and> (r < m \<longrightarrow> take ((r + 1) * bt) ct \<noteq> take ((r + 1) * bt) (drop pos toks))"
  using assms
proof (induction "m - c" arbitrary: c)
  case 0
  then show ?case by (simp add: common_blocks.simps [of _ _ _ _ _ c])
next
  case (Suc d)
  then have lt: "c < m" by simp
  have le: "(c + 1) * bt \<le> m * bt" using lt by (intro mult_le_mono1) simp
  have dd: "drop (c * bt) (drop pos toks) = drop (pos + c * bt) toks" by (simp add: add.commute)
  show ?case
  proof (cases "take bt (drop (c * bt) ct) = take bt (drop (pos + c * bt) toks)")
    case True
    then have eq: "take ((c + 1) * bt) ct = take ((c + 1) * bt) (drop pos toks)"
      unfolding take_Suc_blocks using Suc.prems(4) dd by simp
    have "common_blocks bt ct toks pos m c = common_blocks bt ct toks pos m (c + 1)"
      using lt le Suc.prems(1,2) True by (simp add: common_blocks.simps [of _ _ _ _ _ c])
    moreover have "d = m - (c + 1)" "c + 1 \<le> m" using Suc.hyps(2) by simp_all
    note IH = Suc.hyps(1) [OF this(1) Suc.prems(1,2) this(2) eq]
    ultimately show ?thesis by (metis IH add_leD1)
  next
    case False
    have lens: "length (take (c * bt) ct) = length (take (c * bt) (drop pos toks))"
      using Suc.prems(4) by simp
    have "take ((c + 1) * bt) ct \<noteq> take ((c + 1) * bt) (drop pos toks)"
      unfolding take_Suc_blocks using False Suc.prems(4) dd lens by simp
    moreover have "common_blocks bt ct toks pos m c = Inr c"
      using lt le Suc.prems(1,2) False by (simp add: common_blocks.simps [of _ _ _ _ _ c])
    ultimately show ?thesis using Suc.prems by simp
  qed
qed

subsection \<open>Two chains that spell the same tokens share nodes\<close>

lemma chain_inj: "chain H r n xs \<Longrightarrow> chain H r m xs \<Longrightarrow> n = m"
  by (cases xs) (auto elim: chain_ConsE chain_NilE)

lemma chain_step_up:
  assumes "chain H r n (zs @ a # xs)" and "chain H r m xs"
  shows "a \<noteq> r \<and> (\<exists>an. H a = Some an \<and> nd_parent an = Some m)"
proof -
  obtain us vs where s: "zs @ a # xs = us @ a # vs" "chain H r a (a # vs)"
    using chain_suffix [OF assms(1), of a] by auto
  have "a \<notin> set zs" "a \<notin> set xs" "a \<notin> set us" "a \<notin> set vs"
    using chain_distinct [OF assms(1)] s(1) by (auto dest: arg_cong [where f = distinct])
  then have "vs = xs" using s(1) by (simp add: append_Cons_eq_iff)
  with s(2) obtain an q where "a \<noteq> r" "H a = Some an" "nd_parent an = Some q" "chain H r q xs"
    by (auto elim: chain_ConsE)
  with chain_inj assms(2) show ?thesis by blast
qed

lemma dvd_less_add: "(b::nat) dvd x \<Longrightarrow> b dvd y \<Longrightarrow> x < y \<Longrightarrow> x + b \<le> y"
  by (metis dvd_diff_nat dvd_imp_le zero_less_diff less_imp_le_nat add.commute le_diff_conv2)

lemma meet_child:
  assumes wf: "tree_wf t" and cur: "chain (rt_nodes t) (rt_root t) cur xs" "rt_nodes t cur = Some cn"
    and ys: "chain (rt_nodes t) (rt_root t) n (zs @ xs)"
    and pos: "path (rt_nodes t) xs = take pos toks" "pos \<le> length toks"
    and K: "K \<le> length (path (rt_nodes t) (zs @ xs))" "take K (path (rt_nodes t) (zs @ xs)) = take K toks"
      "rt_block_tokens t dvd K" "pos < K" "K \<le> length toks"
  shows "\<exists>us a an. zs = us @ [a] \<and> rt_nodes t a = Some an \<and> a \<noteq> rt_root t
     \<and> take (rt_block_tokens t) (nd_tokens an) = take (rt_block_tokens t) (drop pos toks)
     \<and> map_of (nd_children cn) (block_key (drop pos toks) (rt_block_tokens t)) = Some a"
proof -
  let ?bt = "rt_block_tokens t" and ?H = "rt_nodes t"
  have len: "length (path ?H xs) = pos" using pos by simp
  then have "zs \<noteq> []" using K(1,4) by auto
  then obtain us a where zs: "zs = us @ [a]" by (metis append_butlast_last_id)
  obtain an where a: "a \<noteq> rt_root t" "?H a = Some an" "nd_parent an = Some cur"
    using chain_step_up [of ?H "rt_root t" n us a xs cur] ys cur(1) zs by auto
  have p: "path ?H (zs @ xs) = take pos toks @ nd_tokens an @ path ?H us"
    using pos(1) a(2) zs by (simp add: path_append)
  have "?bt dvd pos" using wf_path_length [OF wf cur(1)] len by simp
  then have le: "pos + ?bt \<le> K" using dvd_less_add K(3,4) by blast
  have al: "?bt \<le> length (nd_tokens an)"
    using wf_body [OF wf a(2,1)] by (cases "nd_blocks an") auto
  have "take (pos + ?bt) (path ?H (zs @ xs)) = take (pos + ?bt) toks"
    using K(2) le by (metis min.absorb1 take_take)
  then have "drop pos (take (pos + ?bt) (path ?H (zs @ xs))) = drop pos (take (pos + ?bt) toks)" by simp
  then have first: "take ?bt (nd_tokens an) = take ?bt (drop pos toks)"
    using pos(2) al by (simp add: p drop_take)
  obtain q qn where q: "nd_parent an = Some q" "?H q = Some qn"
    "map_of (nd_children qn) (block_key (nd_tokens an) ?bt) = Some a"
    using wf_parent [OF wf a(2,1)] .
  then have "map_of (nd_children cn) (block_key (drop pos toks) ?bt) = Some a"
    using a(3) cur(2) block_key_cong [OF first] by simp
  with zs a first show ?thesis by blast
qed

lemma chains_meet:
  assumes wf: "tree_wf t" and "chain (rt_nodes t) (rt_root t) cur xs"
    and ys: "chain (rt_nodes t) (rt_root t) n ys"
    and "path (rt_nodes t) xs = take pos toks" "pos \<le> length toks"
    and K: "K \<le> length (path (rt_nodes t) ys)" "take K (path (rt_nodes t) ys) = take K toks"
      "rt_block_tokens t dvd K" "pos \<le> K" "K \<le> length toks"
  shows "\<exists>zs. ys = zs @ xs"
  using assms(2,4,5,9)
proof (induction arbitrary: pos rule: chain.induct)
  case ch_root
  then show ?case by simp
next
  case (ch_node cur nd q xs)
  let ?H = "rt_nodes t" and ?bt = "rt_block_tokens t"
  obtain po where po: "length (path ?H xs) = po" by simp
  have split: "path ?H xs @ nd_tokens nd = take pos toks" using ch_node.prems(1) ch_node.hyps(2) by simp
  have "length (path ?H xs @ nd_tokens nd) = length (take pos toks)" by (simp only: split)
  then have len: "po + length (nd_tokens nd) = pos" using ch_node.prems(2) po by simp
  have "take po (path ?H xs @ nd_tokens nd) = take po (take pos toks)" by (simp only: split)
  then have p: "path ?H xs = take po toks" using len po by (simp add: min_def)
  have "drop po (path ?H xs @ nd_tokens nd) = drop po (take pos toks)" by (simp only: split)
  then have toks: "nd_tokens nd = take (pos - po) (drop po toks)" using po by (simp add: drop_take)
  have bl: "?bt \<le> length (nd_tokens nd)"
    using wf_body [OF wf ch_node.hyps(2,1)] by (cases "nd_blocks nd") auto
  have lt: "po < K" "po \<le> length toks" using len bl tree_wfD(1) [OF wf] ch_node.prems(2,3) by linarith+
  obtain zs where zs: "ys = zs @ xs"
    using ch_node.IH [OF p lt(2)] lt(1) by auto
  obtain qn where q: "?H q = Some qn" "map_of (nd_children qn) (block_key (nd_tokens nd) ?bt) = Some cur"
    using wf_parent [OF wf ch_node.hyps(2,1)] ch_node.hyps(3) by (metis option.inject)
  obtain us a where a: "zs = us @ [a]" "map_of (nd_children qn) (block_key (drop po toks) ?bt) = Some a"
    using meet_child [OF wf ch_node.hyps(4) q(1) ys [unfolded zs] p lt(2) K(1,2) [unfolded zs] K(3) lt(1) K(5)]
    by blast
  have "take ?bt (nd_tokens nd) = take ?bt (drop po toks)"
    using toks len bl by (simp add: min_def)
  then have "a = cur" using a(2) q(2) block_key_cong by (metis option.inject)
  then show ?case using zs a(1) by simp
qed


subsection \<open>The walk\<close>

text \<open>Both walks change the tree only by touching and splitting nodes.\<close>

lemma match_loop_stop:
  "\<not> (pos < limit \<and> 0 < rt_block_tokens t) \<Longrightarrow> match_loop toks limit t cur pos res = Inr (cur, pos, res, t)"
  "\<not> (pos < limit \<and> 0 < rt_block_tokens t) \<Longrightarrow> insert_loop toks limit t cur pos = Inr (cur, pos, t)"
  by (subst match_loop.simps, simp only: if_False) (subst insert_loop.simps, simp only: if_False)

lemma match_loop_cases:
  assumes "match_loop toks limit t cur pos res = Inr (cur', pos', res', t')"
  obtains (stop) "t' = t"
  | (cut) child off h t1 where "split_node t child off = Inr (h, t1)" "touch t1 h = Inr t'"
  | (go) child t1 pos1 res1 where "pos < limit" "pos < pos1" "touch t child = Inr t1"
      "match_loop toks limit t1 child pos1 res1 = Inr (cur', pos', res', t')"
proof (cases "pos < limit \<and> 0 < rt_block_tokens t")
  case False
  then show thesis using assms match_loop_stop(1) [OF False] stop by simp
next
  case True
  have eq: "bindE (node_at t cur) (\<lambda>cn.
        case map_of (nd_children cn) (block_key (drop pos toks) (rt_block_tokens t)) of
          None \<Rightarrow> Inr (cur, pos, res, t)
        | Some child \<Rightarrow>
            bindE (node_at t child) (\<lambda>ch.
            bindE (common_blocks (rt_block_tokens t) (nd_tokens ch) toks pos
                     (min (length (nd_blocks ch)) ((limit - pos) div rt_block_tokens t)) 0) (\<lambda>common.
              if common = 0 then Inr (cur, pos, res, t)
              else if common < length (nd_blocks ch) then
                bindE (split_node t child (common * rt_block_tokens t)) (\<lambda>(h, t1).
                bindE (touch t1 h) (\<lambda>t2.
                  Inr (h, pos + common * rt_block_tokens t,
                       res\<lparr>mr_blocks := mr_blocks res @ take common (nd_blocks ch),
                           mr_node := Some h\<rparr>, t2)))
              else
                bindE (touch t child) (\<lambda>t1.
                  match_loop toks limit t1 child (pos + common * rt_block_tokens t)
                    (res\<lparr>mr_blocks := mr_blocks res @ take common (nd_blocks ch),
                         mr_node := Some child\<rparr>))))) = Inr (cur', pos', res', t')"
    using assms True by (subst (asm) match_loop.simps) (simp only: if_True simp_thms)
  then obtain cn where cn: "node_at t cur = Inr cn" by (auto simp: result_simps)
  show thesis
  proof (cases "map_of (nd_children cn) (block_key (drop pos toks) (rt_block_tokens t))")
    case None
    then show thesis using eq cn stop by simp
  next
    case (Some child)
    obtain ch where ch: "node_at t child = Inr ch" using eq cn Some by (cases "node_at t child") simp_all
    obtain common where common: "common_blocks (rt_block_tokens t) (nd_tokens ch) toks pos
                     (min (length (nd_blocks ch)) ((limit - pos) div rt_block_tokens t)) 0 = Inr common"
      using eq cn Some ch by (cases "common_blocks (rt_block_tokens t) (nd_tokens ch) toks pos
                     (min (length (nd_blocks ch)) ((limit - pos) div rt_block_tokens t)) 0") simp_all
    note eq' = eq [unfolded cn bindE_Inr Some option.case ch common]
    consider "common = 0" | "0 < common" "common < length (nd_blocks ch)" | "0 < common" "\<not> common < length (nd_blocks ch)"
      by blast
    then show thesis
    proof cases
      case 1
      then show thesis using eq' stop by simp
    next
      case 2
      then show thesis using eq' cut by (auto simp: result_simps)
    next
      case 3
      then have lt: "pos < pos + common * rt_block_tokens t" using True by simp
      obtain t1 where t1: "touch t child = Inr t1" "match_loop toks limit t1 child (pos + common * rt_block_tokens t)
          (res\<lparr>mr_blocks := mr_blocks res @ take common (nd_blocks ch), mr_node := Some child\<rparr>) = Inr (cur', pos', res', t')"
        using eq' 3 by (cases "touch t child") (simp_all del: take_all_iff take_all)
      show thesis by (rule go [OF _ lt t1]) (use True in simp)
    qed
  qed
qed

lemma match_loop_invariant:
  assumes "match_loop toks limit t cur pos res = Inr (cur', pos', res', t')" and "Q t"
    and "\<And>t n t'. Q t \<Longrightarrow> touch t n = Inr t' \<Longrightarrow> Q t'"
    and "\<And>t n off h t'. Q t \<Longrightarrow> split_node t n off = Inr (h, t') \<Longrightarrow> Q t'"
  shows "Q t'"
  using assms(1,2)
proof (induction "limit - pos" arbitrary: t cur pos res rule: less_induct)
  case less
  from less.prems(1) show ?case
  proof (cases rule: match_loop_cases)
    case stop
    then show ?thesis using less.prems(2) by simp
  next
    case (cut child off h t1)
    then show ?thesis using less.prems(2) assms(3,4) by blast
  next
    case (go child t1 pos1 res1)
    then have "limit - pos1 < limit - pos" by simp
    from less.hyps [OF this go(4) assms(3) [OF less.prems(2) go(3)]] show ?thesis .
  qed
qed

lemma bindE_assoc: "bindE (bindE m f) g = bindE m (\<lambda>x. bindE (f x) g)"
  by (cases m) simp_all

lemma insert_loop_match:
  "insert_loop toks limit t cur pos =
     bindE (match_loop toks limit t cur pos res) (\<lambda>(c, p, r, t'). Inr (c, p, t'))"
proof (induction toks limit t cur pos arbitrary: res rule: insert_loop.induct)
  case (1 tokens limit t cur pos)
  show ?case
  proof (cases "pos < limit \<and> 0 < rt_block_tokens t")
    case False
    then show ?thesis
      using match_loop_stop(1) [OF False, of tokens cur res] match_loop_stop(2) [OF False, of tokens cur] by simp
  next
    case True
    note simps = insert_loop.simps [of tokens limit t cur pos] match_loop.simps [of tokens limit t cur pos res]
    show ?thesis
      unfolding simps if_P [OF True] bindE_assoc
    proof (rule bindE_cong [OF refl], goal_cases)
      case (1 cn)
      show ?case
      proof (cases "map_of (nd_children cn) (block_key (drop pos tokens) (rt_block_tokens t))")
        case (Some child)
        show ?thesis
          unfolding Some option.case bindE_assoc
        proof (intro bindE_cong [OF refl], goal_cases)
          case (1 ch common)
          note IH = "1.IH" [OF True \<open>node_at t cur = Inr cn\<close> Some 1]
          show ?case
            using IH by (auto simp: bindE_assoc case_prod_unfold intro!: bindE_cong)
        qed
      qed simp
    qed
  qed
qed

lemma split_node_inv:
  assumes wf: "tree_wf t" and res: "split_node t c off = Inr (h, t')"
  obtains cn q qn k where "splittable t c cn q qn k" and "off = k * rt_block_tokens t"
    and "h = rt_next t" and "t' = split_tree t c cn q qn k"
proof -
  obtain cn q qn where cn: "rt_nodes t c = Some cn" and off: "0 < off" "off < length (nd_tokens cn)"
    "off mod rt_block_tokens t = 0" and q: "nd_parent cn = Some q"
    using res by (auto simp: split_node_def result_simps split: option.splits)
  have nr: "c \<noteq> rt_root t" using tree_wfD(6) [OF wf] cn q by auto
  obtain k where k: "off = k * rt_block_tokens t" using off(3) by (metis mod_0_imp_dvd dvdE mult.commute)
  have "0 < k" "k < length (nd_blocks cn)" using off(1,2) k wf_body(2) [OF wf cn nr] by auto
  then obtain q qn where s: "splittable t c cn q qn k" using splittableI [OF wf cn nr] by blast
  from split_node_eq [OF s] res k show thesis by (intro that [OF s]) auto
qed

text \<open>What every step of a walk keeps: the shape invariant, the index and the counters.\<close>

definition walk_inv :: "RadixTree \<Rightarrow> RadixTree \<Rightarrow> bool" where
  "walk_inv t t' \<longleftrightarrow> tree_wf t' \<and> (\<forall>P b. cached t' P b \<longleftrightarrow> cached t P b) \<and> rt_root t' = rt_root t
     \<and> rt_block_tokens t' = rt_block_tokens t \<and> rt_stored_blocks t' = rt_stored_blocks t
     \<and> rt_collisions t' = rt_collisions t"

lemma touch_inv:
  assumes "touch t n = Inr t'"
  obtains nd where "rt_nodes t n = Some nd" "same_shape t t'" "rt_stored_blocks t' = rt_stored_blocks t"
    "rt_num_nodes t' = rt_num_nodes t" "rt_collisions t' = rt_collisions t"
    "rt_nodes t' = (rt_nodes t)(n \<mapsto> nd\<lparr>nd_last := u64 (rt_clock t + 1)\<rparr>)"
    "rt_clock t' = u64 (rt_clock t + 1)"
proof -
  obtain nd where nd: "rt_nodes t n = Some nd" using assms by (auto simp: touch_def result_simps)
  from touch_ok [OF nd] assms show thesis by (auto intro: that [OF nd])
qed

lemma walk_inv_touch: "walk_inv t0 t \<Longrightarrow> touch t n = Inr t' \<Longrightarrow> walk_inv t0 t'"
proof -
  assume w: "walk_inv t0 t" and "touch t n = Inr t'"
  then have s: "same_shape t t'" and c: "rt_stored_blocks t' = rt_stored_blocks t" "rt_collisions t' = rt_collisions t"
    by (auto elim: touch_inv)
  have "tree_wf t'" using same_shape_wf [OF s] w by (simp add: walk_inv_def)
  moreover have "cached t' P b \<longleftrightarrow> cached t0 P b" for P b
    using same_shape_cached [OF s] w by (simp add: walk_inv_def)
  ultimately show ?thesis using w c s by (simp add: walk_inv_def same_shape_def)
qed

lemma walk_inv_split: "walk_inv t0 t \<Longrightarrow> split_node t n off = Inr (h, t') \<Longrightarrow> walk_inv t0 t'"
proof -
  assume w: "walk_inv t0 t" and r: "split_node t n off = Inr (h, t')"
  have "tree_wf t" using w by (simp add: walk_inv_def)
  then obtain cn q qn k where s: "splittable t n cn q qn k" and t': "t' = split_tree t n cn q qn k"
    by (rule split_node_inv [OF _ r])
  have "cached t' P b \<longleftrightarrow> cached t0 P b" for P b
    unfolding t' split_cached [OF s] using w unfolding walk_inv_def by blast
  moreover have "tree_wf t'" unfolding t' by (rule split_wf [OF s])
  moreover have "rt_root t = rt_root t0" "rt_block_tokens t = rt_block_tokens t0"
    "rt_stored_blocks t = rt_stored_blocks t0" "rt_collisions t = rt_collisions t0"
    using w unfolding walk_inv_def by blast+
  ultimately show ?thesis unfolding walk_inv_def by (simp add: t')
qed

lemma match_loop_walk_inv:
  assumes "match_loop toks limit t cur pos res = Inr (cur', pos', res', t')" and "tree_wf t"
  shows "walk_inv t t'"
proof (rule match_loop_invariant [OF assms(1), of "walk_inv t"])
  show "walk_inv t t" using assms(2) by (simp add: walk_inv_def)
qed (rule walk_inv_touch walk_inv_split; assumption)+


text \<open>The longest stored run of whole blocks that agrees with a token sequence.\<close>

definition longest :: "RadixTree \<Rightarrow> TokenId list \<Rightarrow> nat \<Rightarrow> nat \<Rightarrow> bool" where
  "longest t toks limit pos \<longleftrightarrow> (\<forall>K n ys. chain (rt_nodes t) (rt_root t) n ys \<longrightarrow>
     K \<le> length (path (rt_nodes t) ys) \<longrightarrow> take K (path (rt_nodes t) ys) = take K toks \<longrightarrow>
     rt_block_tokens t dvd K \<longrightarrow> K \<le> limit \<longrightarrow> K \<le> pos)"

lemma longestI:
  assumes wf: "tree_wf t" and cur: "chain (rt_nodes t) (rt_root t) cur xs" "rt_nodes t cur = Some cn"
    and pos: "path (rt_nodes t) xs = take pos toks" "pos \<le> limit" and limit: "limit \<le> length toks"
    and le: "pos \<le> pos'"
    and stop: "\<And>a an K rest. rt_nodes t a = Some an \<Longrightarrow> a \<noteq> rt_root t \<Longrightarrow>
       map_of (nd_children cn) (block_key (drop pos toks) (rt_block_tokens t)) = Some a \<Longrightarrow>
       rt_block_tokens t dvd K \<Longrightarrow> pos' < K \<Longrightarrow> K \<le> limit \<Longrightarrow> pos + rt_block_tokens t \<le> K \<Longrightarrow>
       take (rt_block_tokens t) (nd_tokens an) = take (rt_block_tokens t) (drop pos toks) \<Longrightarrow>
       take (K - pos) (nd_tokens an @ rest) = take (K - pos) (drop pos toks) \<Longrightarrow> False"
  shows "longest t toks limit pos'"
  unfolding longest_def
proof (intro allI impI, rule ccontr)
  fix K n ys
  assume ys: "chain (rt_nodes t) (rt_root t) n ys" and K: "K \<le> length (path (rt_nodes t) ys)"
    "take K (path (rt_nodes t) ys) = take K toks" "rt_block_tokens t dvd K" "K \<le> limit" and "\<not> K \<le> pos'"
  then have lt: "pos < K" "pos' < K" and Kl: "K \<le> length toks" and pl: "pos \<le> length toks"
    using le limit pos(2) by auto
  obtain zs where zs: "ys = zs @ xs"
    using chains_meet [OF wf cur(1) ys pos(1) pl K(1-3) less_imp_le [OF lt(1)] Kl] by blast
  obtain us a an where a: "zs = us @ [a]" "rt_nodes t a = Some an" "a \<noteq> rt_root t"
    "take (rt_block_tokens t) (nd_tokens an) = take (rt_block_tokens t) (drop pos toks)"
    "map_of (nd_children cn) (block_key (drop pos toks) (rt_block_tokens t)) = Some a"
    using meet_child [OF wf cur ys [unfolded zs] pos(1) pl K(1,2) [unfolded zs] K(3) lt(1) Kl] by blast
  have "rt_block_tokens t dvd pos" using wf_path_length [OF wf cur(1)] pos(1) pl by simp
  then have "pos + rt_block_tokens t \<le> K" using dvd_less_add K(3) lt(1) by blast
  moreover have "path (rt_nodes t) ys = take pos toks @ nd_tokens an @ path (rt_nodes t) us"
    using zs a(1,2) pos(1) by (simp add: path_append)
  then have "drop pos (take K (take pos toks @ nd_tokens an @ path (rt_nodes t) us)) = drop pos (take K toks)"
    using K(2) by simp
  then have "take (K - pos) (nd_tokens an @ path (rt_nodes t) us) = take (K - pos) (drop pos toks)"
    using pl lt(1) by (simp add: drop_take min.absorb2)
  ultimately show False using stop [OF a(2,3,5) K(3) lt(2) K(4)] a(4) by blast
qed

lemma longest_shape: "same_shape t t' \<Longrightarrow> longest t' toks limit pos \<longleftrightarrow> longest t toks limit pos"
  unfolding longest_def by (simp only: same_shape_chain [of t t'] same_shape_path [of t t'])
    (simp only: same_shape_def)

lemma chain_node_exists:
  assumes "tree_wf t" and "chain (rt_nodes t) (rt_root t) n xs"
  obtains nd where "rt_nodes t n = Some nd"
  using assms tree_wfD(6) [OF assms(1)] by (cases rule: chain.cases [OF assms(2)]) auto

text \<open>What the walk returns: a node whose path is the matched prefix, and its blocks.\<close>

definition walk_result :: "TokenId list \<Rightarrow> nat \<Rightarrow> RadixTree \<Rightarrow> nat \<Rightarrow> nat \<Rightarrow> MatchResult \<Rightarrow> RadixTree \<Rightarrow> bool" where
  "walk_result toks limit t cur pos res t' \<longleftrightarrow>
     (\<exists>xs. chain (rt_nodes t') (rt_root t') cur xs \<and> path (rt_nodes t') xs = take pos toks
         \<and> mr_blocks res = path_blocks (rt_nodes t') xs)
     \<and> mr_node res = (if cur = rt_root t then None else Some cur)
     \<and> pos \<le> limit \<and> longest t toks limit pos"

text \<open>The state of the walk at the top of its loop.\<close>

definition walking :: "TokenId list \<Rightarrow> nat \<Rightarrow> RadixTree \<Rightarrow> nat \<Rightarrow> nat \<Rightarrow> MatchResult \<Rightarrow> nat list \<Rightarrow> bool" where
  "walking toks limit t cur pos res xs \<longleftrightarrow> tree_wf t \<and> chain (rt_nodes t) (rt_root t) cur xs
     \<and> path (rt_nodes t) xs = take pos toks \<and> pos \<le> limit \<and> limit \<le> length toks \<and> rt_block_tokens t dvd limit
     \<and> mr_blocks res = path_blocks (rt_nodes t) xs \<and> mr_node res = (if cur = rt_root t then None else Some cur)"

lemma walkingD:
  assumes "walking toks limit t cur pos res xs"
  shows "tree_wf t" "chain (rt_nodes t) (rt_root t) cur xs" "path (rt_nodes t) xs = take pos toks" "pos \<le> limit"
    "limit \<le> length toks" "rt_block_tokens t dvd limit" "mr_blocks res = path_blocks (rt_nodes t) xs"
    "mr_node res = (if cur = rt_root t then None else Some cur)" "rt_block_tokens t dvd pos"
proof -
  show "tree_wf t" "chain (rt_nodes t) (rt_root t) cur xs" "path (rt_nodes t) xs = take pos toks" "pos \<le> limit"
    "limit \<le> length toks" "rt_block_tokens t dvd limit" "mr_blocks res = path_blocks (rt_nodes t) xs"
    "mr_node res = (if cur = rt_root t then None else Some cur)" using assms unfolding walking_def by blast+
  then show "rt_block_tokens t dvd pos" using wf_path_length [of t cur xs] by simp
qed

lemma walking_here: "walking toks limit t cur pos res xs \<Longrightarrow> longest t toks limit pos \<Longrightarrow> walk_result toks limit t cur pos res t"
  unfolding walk_result_def walking_def by blast

text \<open>
  Comparing with the child: \<open>r\<close> whole blocks agree, and if they are not all of the child's then
  no cached prefix is longer.
\<close>

lemma walk_compare:
  assumes w: "walking toks limit t cur pos res xs" and lt: "pos < limit" and cn: "rt_nodes t cur = Some cn"
    and child: "map_of (nd_children cn) (block_key (drop pos toks) (rt_block_tokens t)) = Some child" and ch: "rt_nodes t child = Some ch"
  obtains r where "common_blocks (rt_block_tokens t) (nd_tokens ch) toks pos
        (min (length (nd_blocks ch)) ((limit - pos) div rt_block_tokens t)) 0 = Inr r"
    and "r \<le> length (nd_blocks ch)" and "pos + r * rt_block_tokens t \<le> limit"
    and "take pos toks @ take (r * rt_block_tokens t) (nd_tokens ch) = take (pos + r * rt_block_tokens t) toks"
    and "r < length (nd_blocks ch) \<Longrightarrow> longest t toks limit (pos + r * rt_block_tokens t)"
proof -
  note D = walkingD [OF w]
  let ?bt = "rt_block_tokens t" and ?H = "rt_nodes t"
  have "child \<noteq> rt_root t" using wf_child [OF D(1) cn child] by metis
  note body = wf_body [OF D(1) ch this]
  let ?m = "min (length (nd_blocks ch)) ((limit - pos) div ?bt)"
  have m1: "?m * ?bt \<le> length (nd_tokens ch)" unfolding body(2) by (intro mult_le_mono1) simp
  have "?m * ?bt \<le> (limit - pos) div ?bt * ?bt" by (intro mult_le_mono1) simp
  also have "\<dots> \<le> limit - pos" by simp
  finally have m2: "pos + ?m * ?bt \<le> limit" using D(4) by simp
  then have "pos + ?m * ?bt \<le> length toks" using D(5) by simp
  from common_blocks_ok [OF m1 this, of 0] obtain r where
    r: "common_blocks ?bt (nd_tokens ch) toks pos ?m 0 = Inr r" "r \<le> ?m"
      "take (r * ?bt) (nd_tokens ch) = take (r * ?bt) (drop pos toks)"
      "r < ?m \<Longrightarrow> take ((r + 1) * ?bt) (nd_tokens ch) \<noteq> take ((r + 1) * ?bt) (drop pos toks)"
    by auto
  have "longest t toks limit (pos + r * ?bt)" if "r < length (nd_blocks ch)"
  proof (rule longestI [OF D(1,2) cn D(3,4,5)])
    fix a an K rest
    assume a: "?H a = Some an" "map_of (nd_children cn) (block_key (drop pos toks) ?bt) = Some a" and K: "?bt dvd K" "pos + r * ?bt < K" "K \<le> limit"
      and eq: "take (K - pos) (nd_tokens an @ rest) = take (K - pos) (drop pos toks)"
    have an: "an = ch" using a child ch by simp
    have "?bt dvd pos + r * ?bt" using D(9) by simp
    from dvd_less_add [OF this K(1,2)] have K2: "(r + 1) * ?bt \<le> K - pos" by simp
    have "(r + 1) * ?bt \<le> length (nd_tokens ch)" unfolding body(2) using that by (intro mult_le_mono1) simp
    moreover have "take ((r + 1) * ?bt) (take (K - pos) (nd_tokens an @ rest)) = take ((r + 1) * ?bt) (take (K - pos) (drop pos toks))"
      by (simp only: eq)
    ultimately have "take ((r + 1) * ?bt) (nd_tokens ch) = take ((r + 1) * ?bt) (drop pos toks)"
      using K2 an by (simp only: take_take min_absorb1 take_append) simp
    then have "r = ?m" using r(2,4) by linarith
    then have "r = (limit - pos) div ?bt" using that by linarith
    then have "r * ?bt = limit - pos" using D(6,9) by (simp add: dvd_diff_nat)
    then show False using K(2,3) D(4) by simp
  qed simp
  moreover have "pos + r * ?bt \<le> limit" using mult_le_mono1 [OF r(2), of ?bt] m2 by linarith
  moreover have "take pos toks @ take (r * ?bt) (nd_tokens ch) = take (pos + r * ?bt) toks" using r(3) by (simp add: take_add)
  ultimately show thesis using that [OF r(1)] r(2) by simp
qed

text \<open>The walk ends inside the child's edge: the edge is split and the new parent returned.\<close>

lemma walk_cut:
  assumes w: "walking toks limit t cur pos res xs" and cn: "rt_nodes t cur = Some cn"
    and child: "map_of (nd_children cn) (block_key (drop pos toks) (rt_block_tokens t)) = Some child" and ch: "rt_nodes t child = Some ch"
    and r: "0 < r" "r < length (nd_blocks ch)" "pos + r * rt_block_tokens t \<le> limit" "longest t toks limit (pos + r * rt_block_tokens t)"
      "take pos toks @ take (r * rt_block_tokens t) (nd_tokens ch) = take (pos + r * rt_block_tokens t) toks"
  shows "\<exists>h t1 t2. split_node t child (r * rt_block_tokens t) = Inr (h, t1) \<and> touch t1 h = Inr t2
     \<and> walk_result toks limit t h (pos + r * rt_block_tokens t)
         (res\<lparr>mr_blocks := mr_blocks res @ take r (nd_blocks ch), mr_node := Some h\<rparr>) t2"
proof -
  note D = walkingD [OF w]
  have cr: "child \<noteq> rt_root t" using wf_child [OF D(1) cn child] by metis
  obtain q qn where s: "splittable t child ch q qn r" using splittableI [OF D(1) ch cr r(1,2)] by blast
  let ?t = "split_tree t child ch q qn r" and ?h = "rt_next t"
  have cch: "chain (rt_nodes t) (rt_root t) child (child # xs)" by (rule chain_child [OF D(1,2) cn child])
  then have "chain (rt_nodes t) (rt_root t) q xs" using ch s by (auto elim!: chain_ConsE simp: splittable_def)
  note hch = split_head_chain(1) [OF s this]
  have "child \<notin> set xs" using chain_distinct [OF cch] by simp
  then have old: "path (rt_nodes ?t) xs = path (rt_nodes t) xs" "path_blocks (rt_nodes ?t) xs = path_blocks (rt_nodes t) xs"
    using split_path [OF s D(2)] with_head_id [of child xs t] by simp_all
  obtain t2 where t2: "touch ?t ?h = Inr t2" "same_shape ?t t2" using touch_ok [OF split_nodes(2) [OF s]] by blast
  have "path (rt_nodes t2) (?h # xs) = take (pos + r * rt_block_tokens t) toks"
    unfolding same_shape_path(1) [OF t2(2)] using old D(3) r(5) split_nodes(2) [OF s] by (simp add: split_head_def)
  moreover have "mr_blocks res @ take r (nd_blocks ch) = path_blocks (rt_nodes t2) (?h # xs)"
    unfolding same_shape_path(2) [OF t2(2)] using old D(7) split_nodes(2) [OF s] by (simp add: split_head_def)
  moreover have "chain (rt_nodes t2) (rt_root t2) ?h (?h # xs)" using same_shape_chain [OF t2(2)] hch by simp
  ultimately have "walk_result toks limit t ?h (pos + r * rt_block_tokens t)
      (res\<lparr>mr_blocks := mr_blocks res @ take r (nd_blocks ch), mr_node := Some ?h\<rparr>) t2"
    using r(3,4) splittable_distinct(4) [OF s] unfolding walk_result_def by fastforce
  then show ?thesis using split_node_eq [OF s] t2(1) by blast
qed

text \<open>The walk covers the whole edge and goes on from the child.\<close>

lemma walk_on:
  assumes w: "walking toks limit t cur pos res xs" and cn: "rt_nodes t cur = Some cn"
    and child: "map_of (nd_children cn) (block_key (drop pos toks) (rt_block_tokens t)) = Some child" and ch: "rt_nodes t child = Some ch"
    and r: "r = length (nd_blocks ch)" "pos + r * rt_block_tokens t \<le> limit"
      "take pos toks @ take (r * rt_block_tokens t) (nd_tokens ch) = take (pos + r * rt_block_tokens t) toks"
  shows "\<exists>t1. touch t child = Inr t1
     \<and> walking toks limit t1 child (pos + r * rt_block_tokens t)
         (res\<lparr>mr_blocks := mr_blocks res @ take r (nd_blocks ch), mr_node := Some child\<rparr>) (child # xs)
     \<and> (\<forall>c p rs t'. walk_result toks limit t1 c p rs t' \<longrightarrow> walk_result toks limit t c p rs t')"
proof -
  note D = walkingD [OF w]
  have cr: "child \<noteq> rt_root t" using wf_child [OF D(1) cn child] by metis
  obtain t1 where t1: "touch t child = Inr t1" "same_shape t t1" using touch_ok [OF ch] by blast
  have same: "rt_root t1 = rt_root t" "rt_block_tokens t1 = rt_block_tokens t" using t1(2) by (simp_all add: same_shape_def)
  have "path (rt_nodes t1) (child # xs) = take (pos + r * rt_block_tokens t) toks"
    unfolding same_shape_path(1) [OF t1(2)] using D(3) r(1,3) ch wf_body(2) [OF D(1) ch cr] by simp
  moreover have "mr_blocks res @ take r (nd_blocks ch) = path_blocks (rt_nodes t1) (child # xs)"
    unfolding same_shape_path(2) [OF t1(2)] using D(7) ch r(1) by simp
  moreover have "chain (rt_nodes t1) (rt_root t1) child (child # xs)"
    using same_shape_chain [OF t1(2)] chain_child [OF D(1,2) cn child] by simp
  ultimately have "walking toks limit t1 child (pos + r * rt_block_tokens t)
      (res\<lparr>mr_blocks := mr_blocks res @ take r (nd_blocks ch), mr_node := Some child\<rparr>) (child # xs)"
    using same_shape_wf [OF t1(2) D(1)] D(5,6) r(2) cr same unfolding walking_def by simp
  moreover have "walk_result toks limit t1 c p rs t' \<Longrightarrow> walk_result toks limit t c p rs t'" for c p rs t'
    unfolding walk_result_def using longest_shape [OF t1(2)] same by simp
  ultimately show ?thesis using t1(1) by blast
qed

lemma match_loop_walks:
  assumes "walking toks limit t cur pos res xs"
  shows "\<exists>cur' pos' res' t'. match_loop toks limit t cur pos res = Inr (cur', pos', res', t')
     \<and> walk_result toks limit t cur' pos' res' t' \<and> mr_num_tokens res' = mr_num_tokens res"
  using assms
proof (induction "limit - pos" arbitrary: t cur pos res xs rule: less_induct)
  case less
  note w = less.prems and D = walkingD [OF less.prems]
  let ?bt = "rt_block_tokens t"
  have bt: "0 < ?bt" by (rule tree_wfD(1) [OF D(1)])
  obtain cn where cn: "rt_nodes t cur = Some cn" using chain_node_exists [OF D(1,2)] .
  note unfold = match_loop.simps [of toks limit t cur pos res]
  consider (stop) "\<not> pos < limit" | (miss) "pos < limit" "map_of (nd_children cn) (block_key (drop pos toks) ?bt) = None"
    | (hit) child where "pos < limit" "map_of (nd_children cn) (block_key (drop pos toks) ?bt) = Some child" by fastforce
  then show ?case
  proof cases
    case stop
    then have "longest t toks limit pos" using D(4) by (auto simp: longest_def)
    then show ?thesis using walking_here [OF w] match_loop_stop(1) [of pos limit t toks cur res] stop by simp
  next
    case miss
    then have "longest t toks limit pos" by (intro longestI [OF D(1,2) cn D(3,4,5)]) simp_all
    then show ?thesis using walking_here [OF w] miss cn bt by (simp add: unfold)
  next
    case (hit child)
    obtain ch where ch: "rt_nodes t child = Some ch" "child \<noteq> rt_root t" using wf_child [OF D(1) cn hit(2)] .
    obtain r where r: "common_blocks ?bt (nd_tokens ch) toks pos (min (length (nd_blocks ch)) ((limit - pos) div ?bt)) 0 = Inr r"
      "r \<le> length (nd_blocks ch)" "pos + r * ?bt \<le> limit" "take pos toks @ take (r * ?bt) (nd_tokens ch) = take (pos + r * ?bt) toks"
      and far: "r < length (nd_blocks ch) \<Longrightarrow> longest t toks limit (pos + r * ?bt)" by (rule walk_compare [OF w hit(1) cn hit(2) ch(1)]) blast
    consider (none) "r = 0" | (part) "0 < r" "r < length (nd_blocks ch)" | (whole) "0 < r" "r = length (nd_blocks ch)" using r(2) by linarith
    then show ?thesis
    proof cases
      case none
      then show ?thesis using walking_here [OF w] far wf_body(1) [OF D(1) ch] hit ch(1) cn r(1) bt by (simp add: unfold)
    next
      case part
      then show ?thesis using walk_cut [OF w cn hit(2) ch(1) part r(3) far [OF part(2)] r(4)] hit ch(1) cn r(1) bt by (auto simp: unfold)
    next
      case whole
      let ?res = "res\<lparr>mr_blocks := mr_blocks res @ take r (nd_blocks ch), mr_node := Some child\<rparr>"
      obtain t1 where t1: "touch t child = Inr t1" "walking toks limit t1 child (pos + r * ?bt) ?res (child # xs)"
        "\<And>c p rs t'. walk_result toks limit t1 c p rs t' \<Longrightarrow> walk_result toks limit t c p rs t'"
        using walk_on [OF w cn hit(2) ch(1) whole(2) r(3,4)] by blast
      have "0 < r * ?bt" using whole(1) bt by simp
      then have "limit - (pos + r * ?bt) < limit - pos" using hit(1) by linarith
      moreover have "match_loop toks limit t cur pos res = match_loop toks limit t1 child (pos + r * ?bt) ?res"
        using hit bt cn ch r(1) whole t1(1) by (simp add: unfold)
      ultimately show ?thesis using less.hyps [OF _ t1(2)] t1(3) by fastforce
    qed
  qed
qed

lemma match_loop_ok:
  assumes "tree_wf t" and "chain (rt_nodes t) (rt_root t) cur xs" and "path (rt_nodes t) xs = take pos toks"
    and "pos \<le> limit" and "limit \<le> length toks" and "rt_block_tokens t dvd limit"
    and "mr_blocks res = path_blocks (rt_nodes t) xs" and "mr_node res = (if cur = rt_root t then None else Some cur)"
  shows "\<exists>cur' pos' res' t'. match_loop toks limit t cur pos res = Inr (cur', pos', res', t')
     \<and> walk_result toks limit t cur' pos' res' t' \<and> mr_num_tokens res' = mr_num_tokens res"
  using assms by (intro match_loop_walks [of toks limit t cur pos res xs]) (simp add: walking_def)


subsection \<open>match_prefix\<close>

lemma cached_length:
  assumes "tree_wf t" and "cached t P b"
  obtains i where "length P = (i + 1) * rt_block_tokens t"
proof -
  obtain n xs i where c: "chain (rt_nodes t) (rt_root t) n xs" "i < length (path_blocks (rt_nodes t) xs)"
    "P = take ((i + 1) * rt_block_tokens t) (path (rt_nodes t) xs)"
    using assms(2) unfolding cached_def by blast
  have "(i + 1) * rt_block_tokens t \<le> length (path (rt_nodes t) xs)"
    unfolding wf_path_length [OF assms(1) c(1)] using c(2) by (intro mult_le_mono1) simp
  then show thesis by (intro that [of i]) (simp add: c(3))
qed

lemma longest_cached:
  assumes wf: "tree_wf t" and l: "longest t toks limit pos" and c: "cached t P b"
    and P: "P = take (length P) toks" "length P \<le> limit"
  shows "length P \<le> pos"
proof -
  obtain n xs i where x: "chain (rt_nodes t) (rt_root t) n xs" "i < length (path_blocks (rt_nodes t) xs)"
    "P = take ((i + 1) * rt_block_tokens t) (path (rt_nodes t) xs)"
    using c unfolding cached_def by blast
  have K: "(i + 1) * rt_block_tokens t \<le> length (path (rt_nodes t) xs)"
    unfolding wf_path_length [OF wf x(1)] using x(2) by (intro mult_le_mono1) simp
  then have len: "length P = (i + 1) * rt_block_tokens t" using x(3) by simp
  then have eq: "take ((i + 1) * rt_block_tokens t) (path (rt_nodes t) xs) = take ((i + 1) * rt_block_tokens t) toks"
    using P(1) x(3) by simp
  have "rt_block_tokens t dvd (i + 1) * rt_block_tokens t" by simp
  then show ?thesis
    using l [unfolded longest_def, rule_format, OF x(1) K eq] P(2) len by simp
qed

lemma cached_path:
  assumes "chain (rt_nodes t) (rt_root t) n xs" and "path (rt_nodes t) xs = take pos toks" "tree_wf t"
    "pos \<le> length toks" "i < length (path_blocks (rt_nodes t) xs)"
  shows "cached t (take ((i + 1) * rt_block_tokens t) toks) (path_blocks (rt_nodes t) xs ! i)"
proof -
  have "(i + 1) * rt_block_tokens t \<le> length (path (rt_nodes t) xs)"
    unfolding wf_path_length [OF assms(3,1)] using assms(5) by (intro mult_le_mono1) simp
  then have "(i + 1) * rt_block_tokens t \<le> pos" using assms(2,4) by simp
  then have "take ((i + 1) * rt_block_tokens t) toks = take ((i + 1) * rt_block_tokens t) (path (rt_nodes t) xs)"
    using assms(2) by (simp only: take_take min_absorb1)
  with assms show ?thesis unfolding cached_def by blast
qed

lemma match_prefix_ok:
  assumes wf: "tree_wf t"
  shows "\<exists>res t' n xs. match_prefix t toks = Inr (res, t') \<and> walk_inv t t'
     \<and> chain (rt_nodes t') (rt_root t') n xs \<and> path (rt_nodes t') xs = take (mr_num_tokens res) toks
     \<and> mr_blocks res = path_blocks (rt_nodes t') xs \<and> mr_num_tokens res \<le> length toks
     \<and> mr_node res = (if n = rt_root t then None else Some n)
     \<and> longest t toks (length toks) (mr_num_tokens res)"
proof -
  let ?bt = "rt_block_tokens t"
  let ?limit = "length toks div ?bt * ?bt"
  let ?r0 = "\<lparr>mr_num_tokens = 0, mr_blocks = [], mr_node = None\<rparr>"
  have "?limit \<le> length toks" by simp
  then obtain n pos res t' where m: "match_loop toks ?limit t (rt_root t) 0 ?r0 = Inr (n, pos, res, t')"
    and w: "walk_result toks ?limit t n pos res t'"
    using match_loop_ok [OF wf ch_root, of 0 toks ?limit ?r0] by auto
  have "longest t toks (length toks) pos"
    unfolding longest_def
  proof (intro allI impI)
    fix K m ys
    assume a: "chain (rt_nodes t) (rt_root t) m ys" "K \<le> length (path (rt_nodes t) ys)"
      "take K (path (rt_nodes t) ys) = take K toks" "?bt dvd K" "K \<le> length toks"
    have "K = K div ?bt * ?bt" using a(4) by simp
    also have "\<dots> \<le> ?limit" by (intro mult_le_mono1 div_le_mono a(5))
    finally show "K \<le> pos" using w a unfolding walk_result_def longest_def by blast
  qed
  moreover have "match_prefix t toks = Inr (res\<lparr>mr_num_tokens := pos\<rparr>, t')"
    using m by (simp add: match_prefix_def)
  moreover have "pos \<le> length toks" using w \<open>?limit \<le> length toks\<close> unfolding walk_result_def by linarith
  ultimately show ?thesis
    using w match_loop_walk_inv [OF m wf] unfolding walk_result_def by fastforce
qed

end
