(* ===== verification/Pool_Status.thy ===== *)
theory Pool_Status
  imports Pool_Store
begin

section \<open>Where a block is and where it is going\<close>

text \<open>
  \<open>bound_for p b\<close> is the tier a queued copy of \<open>b\<close> is going to, if there is one, and
  \<open>goal_tier p b\<close> the tier in which the block is once everything queued has been drained.
  \<^verbatim>\<open>drain_migrations()\<close> and the workers change no goal; every other operation changes only the
  goal of the block it is given. \<open>free0\<close> is \<^verbatim>\<open>num_free()\<close>. The lemmas here are the frame
  the cache manager's counting rests on.
\<close>

subsection \<open>Definitions\<close>

definition bound_for :: "BlockPool \<Rightarrow> BlockId \<Rightarrow> nat option" where
  "bound_for p b = map_option job_dst_tier (find (\<lambda>j. job_id j = b \<and> \<not> job_cancelled j) (bp_jobs p))"

definition goal_tier :: "BlockPool \<Rightarrow> BlockId \<Rightarrow> nat" where
  "goal_tier p b = (case bound_for p b of None \<Rightarrow> loc_tier (bp_location p ! b) | Some t \<Rightarrow> t)"

definition free0 :: "BlockPool \<Rightarrow> nat" where
  "free0 p = length (ts_free (bp_tiers p ! 0))"

definition steady :: "BlockPool \<Rightarrow> BlockPool \<Rightarrow> BlockId \<Rightarrow> bool" where
  "steady p p' b \<longleftrightarrow> bound_for p' b = bound_for p b \<and> bp_location p' ! b = bp_location p ! b"

lemma steady_refl [simp]: "steady p p b"
  by (simp add: steady_def)

lemma steady_trans: "steady p p' b \<Longrightarrow> steady p' p'' b \<Longrightarrow> steady p p'' b"
  by (simp add: steady_def)

lemma steady_goal: "steady p p' b \<Longrightarrow> goal_tier p' b = goal_tier p b"
  by (simp add: steady_def goal_tier_def split: option.split)

lemma bound_None: "mig_inv p \<Longrightarrow> migrating p b \<longleftrightarrow> bound_for p b \<noteq> None"
  unfolding migrating_iff bound_for_def by (auto simp: find_None_iff)

lemma steady_migrating: "steady p p' b \<Longrightarrow> mig_inv p \<Longrightarrow> mig_inv p' \<Longrightarrow> migrating p' b \<longleftrightarrow> migrating p b"
  by (simp add: bound_None steady_def)

lemma goal_settled: "mig_inv p \<Longrightarrow> \<not> migrating p b \<Longrightarrow> goal_tier p b = loc_tier (bp_location p ! b)"
  by (simp add: bound_None goal_tier_def)

lemma migration_target_eq:
  assumes m: "mig_inv p" and b: "migrating p b"
  shows "migration_target p b = Inr (goal_tier p b)"
proof -
  obtain q where q: "map_of (bp_migrating p) b = Some q" using b by (auto simp: migrating_def)
  obtain j where j: "j \<in> set (bp_jobs p)" "job_id j = b" "\<not> job_cancelled j" "job_at p q = Inr j"
    using migrating_job [OF m q] by metis
  obtain k where k: "find (\<lambda>j. job_id j = b \<and> \<not> job_cancelled j) (bp_jobs p) = Some k"
    using j(1-3) by (metis (mono_tags, lifting) find_None_iff option.exhaust)
  then have "k \<in> set (bp_jobs p)" "job_id k = b" "\<not> job_cancelled k" by (auto simp: find_Some_iff)
  then have "k = j" using uncancelled_unique [OF m, of k j] j by simp
  with k show ?thesis using q j(4) by (simp add: migration_target_def goal_tier_def bound_for_def)
qed

lemma num_free_eq: "sys_inv p \<Longrightarrow> num_free p = Inr (free0 p)"
  using pool_invD(2) [OF sys_invD(1), of p] by (simp add: num_free_def tier_free_def free0_def)

lemma no_job_dead: "sys_inv p \<Longrightarrow> bound_for p b \<noteq> None \<Longrightarrow> live p b"
proof -
  assume sys: "sys_inv p" and "bound_for p b \<noteq> None"
  then have "\<exists>j \<in> set (bp_jobs p). job_id j = b \<and> \<not> job_cancelled j"
    using bound_None [OF sys_invD(5) [OF sys]] migrating_iff [OF sys_invD(5) [OF sys]] by blast
  then show ?thesis using sys_invD(1) [OF sys] by (auto simp: pool_inv_def flight_inv_def)
qed

subsection \<open>Frames\<close>

lemma find_cancel:
  "map_option job_dst_tier (find (\<lambda>j. job_id j = b \<and> \<not> job_cancelled j) (map (cancel_id c) js)) =
     (if b = c then None else map_option job_dst_tier (find (\<lambda>j. job_id j = b \<and> \<not> job_cancelled j) js))"
  by (induction js) auto

lemma bound_cancelled: "bound_for (cancelled_pool p c) b = (if b = c then None else bound_for p b)"
  by (simp add: bound_for_def find_cancel)

lemma bound_freed: "bound_for (freed_pool p c) b = (if b = c then None else bound_for p b)"
  by (simp add: bound_for_def find_cancel)

lemma find_append: "find P (xs @ ys) = (case find P xs of None \<Rightarrow> find P ys | Some x \<Rightarrow> Some x)"
  by (induction xs) auto

lemma bound_queued:
  "bound_for (queued_pool p c d) b = (if b = c \<and> bound_for p b = None then Some d else bound_for p b)"
  by (auto simp: bound_for_def find_append split: option.splits)

lemma bound_moved [simp]: "bound_for (moved_pool p c d) b = bound_for p b"
  by (simp add: bound_for_def moved_pool_def)

lemma bound_mem [simp]: "bound_for (p\<lparr>bp_mem := m\<rparr>) b = bound_for p b"
  by (simp add: bound_for_def)

lemma location_moved: "live p c \<Longrightarrow> bp_location (moved_pool p c d) ! b =
     (if b = c then \<lparr>loc_tier = d, loc_slot = last (ts_free (bp_tiers p ! d))\<rparr> else bp_location p ! b)"
  by (simp add: moved_pool_def live_def nth_list_update)

lemma goal_drained_one:
  assumes sys: "sys_inv p" and js: "bp_jobs p = j # js"
  defines "q \<equiv> drained_one (pop_job p) j"
  shows "goal_tier q b = goal_tier p b" "bound_for q b \<noteq> None \<Longrightarrow> bound_for p b \<noteq> None"
proof -
  note D = sys_invD [OF sys]
  have bq: "bound_for q b = map_option job_dst_tier (find (\<lambda>j. job_id j = b \<and> \<not> job_cancelled j) js)"
    by (simp add: q_def bound_for_def js)
  have "goal_tier q b = goal_tier p b \<and> (bound_for q b \<noteq> None \<longrightarrow> bound_for p b \<noteq> None)"
  proof (cases "job_cancelled j \<or> job_id j \<noteq> b")
    case True
    then have "bound_for p b = bound_for q b" unfolding bq by (auto simp: bound_for_def js)
    moreover have "bp_location q ! b = bp_location p ! b" using True by (auto simp: q_def location_drained)
    ultimately show ?thesis by (simp add: goal_tier_def split: option.split)
  next
    case False
    have nx: "find (\<lambda>j. job_id j = b \<and> \<not> job_cancelled j) js = None"
    proof (rule ccontr)
      assume "find (\<lambda>j. job_id j = b \<and> \<not> job_cancelled j) js \<noteq> None"
      then obtain k where k: "k \<in> set js" "job_id k = b" "\<not> job_cancelled k" by (auto simp: find_None_iff)
      then have "j = k" using uncancelled_unique [OF D(5), of j k] False js by simp
      then show False using k(1) D(5) js by (auto simp: mig_inv_def)
    qed
    have "live p b" using D(1) False js by (auto simp: pool_inv_def flight_inv_def)
    then have "bp_location q ! b = \<lparr>loc_tier = job_dst_tier j, loc_slot = job_dst_slot j\<rparr>"
      using False by (simp add: q_def location_drained live_def)
    moreover have "bound_for p b = Some (job_dst_tier j)" using False by (simp add: bound_for_def js)
    ultimately show ?thesis using bq nx by (simp add: goal_tier_def)
  qed
  then show "goal_tier q b = goal_tier p b" "bound_for q b \<noteq> None \<Longrightarrow> bound_for p b \<noteq> None" by blast+
qed

lemma goal_drained:
  "sys_inv p \<Longrightarrow> bp_jobs p = fin @ rest \<Longrightarrow> \<forall>j \<in> set fin. job_done j \<Longrightarrow>
     goal_tier (drained p fin) b = goal_tier p b \<and> (bound_for (drained p fin) b \<noteq> None \<longrightarrow> bound_for p b \<noteq> None)"
proof (induction fin arbitrary: p)
  case (Cons j fin)
  let ?q = "drained_one (pop_job p) j"
  have "sys_inv ?q" "bp_jobs ?q = fin @ rest"
    using drained_one_store(1) [of p j "fin @ rest"] Cons.prems by auto
  then show ?case using Cons.IH [of ?q] goal_drained_one [of p j "fin @ rest" b] Cons.prems by auto
qed simp

lemma free_pushed_le: "length (ts_free (tss ! t')) \<le> length (ts_free (pushed tss t s ! t'))"
  by (cases "t < length tss") (auto simp: pushed_def nth_list_update not_less list_update_beyond)

lemma free_drained: "free0 p \<le> free0 (drained p fin)"
proof (induction fin arbitrary: p)
  case (Cons j fin)
  have "free0 p \<le> free0 (drained_one (pop_job p) j)" by (simp add: free0_def drained_one_def pop_job_def free_pushed_le)
  then show ?case using Cons.IH [of "drained_one (pop_job p) j"] by simp
qed simp

lemma drain_status:
  assumes "sys_inv p"
  shows "\<exists>p'. drain_migrations p = Inr p' \<and> sys_inv p' \<and> view p' = view p
     \<and> (\<forall>b. goal_tier p' b = goal_tier p b) \<and> bp_jobs p' = dropWhile job_done (bp_jobs p)
     \<and> length (bp_tiers p') = length (bp_tiers p) \<and> running p' = running p \<and> free0 p \<le> free0 p'"
proof -
  let ?f = "takeWhile job_done (bp_jobs p)"
  have f: "bp_jobs p = ?f @ dropWhile job_done (bp_jobs p)" "\<forall>j \<in> set ?f. job_done j" by (auto dest: set_takeWhileD)
  have st: "length (bp_tiers (drained q fin)) = length (bp_tiers q) \<and> bp_workers (drained q fin) = bp_workers q
      \<and> bp_stopping (drained q fin) = bp_stopping q" for q fin
    by (induction fin arbitrary: q) simp_all
  show ?thesis
    using drain_migrations_eq [OF sys_invD(1) [OF assms]] drained_store [OF assms f] goal_drained [OF assms f] st free_drained
    by (auto simp: running_def)
qed

lemma steady_cancelled: "b \<noteq> c \<Longrightarrow> steady p (cancelled_pool p c) b"
  by (simp add: steady_def bound_cancelled)

lemma free_cancelled [simp]: "free0 (cancelled_pool p c) = free0 p"
  by (simp add: free0_def)

lemma migrate_status:
  assumes sys: "sys_inv p" and b: "live p b" and dst: "dst < length (bp_tiers p)"
  shows "\<exists>r p'. migrate p b dst = Inr (r, p') \<and> sys_inv p' \<and> view p' = view p
     \<and> (r \<longleftrightarrow> loc_tier (bp_location p ! b) = dst \<or> ts_free (bp_tiers p ! dst) \<noteq> [])
     \<and> (\<forall>c. c \<noteq> b \<longrightarrow> steady p p' c) \<and> (r \<longrightarrow> goal_tier p' b = dst \<and> \<not> migrating p' b)
     \<and> (r \<and> loc_tier (bp_location p ! b) \<noteq> 0 \<and> dst = 0 \<longrightarrow> free0 p = free0 p' + 1)
     \<and> (dst \<noteq> 0 \<longrightarrow> free0 p \<le> free0 p')
     \<and> length (bp_tiers p') = length (bp_tiers p) \<and> running p' = running p"
proof -
  note D = sys_invD [OF sys]
  note eq = migrate_eq [OF D(1,2) b dst]
  obtain r p' where m: "migrate p b dst = Inr (r, p')" "sys_inv p'" "view p' = view p"
    "r \<longleftrightarrow> loc_tier (bp_location p ! b) = dst \<or> ts_free (bp_tiers p ! dst) \<noteq> []"
    using migrate_store [OF sys b dst] by blast
  have nm: "\<not> migrating p' b \<longleftrightarrow> bound_for p' b = None" using bound_None [OF sys_invD(5) [OF m(2)]] by simp
  show ?thesis
  proof (cases "loc_tier (bp_location p ! b) = dst \<or> ts_free (bp_tiers p ! dst) = []")
    case True
    then have p': "p' = cancelled_pool p b" using eq m(1) by (auto split: if_splits)
    have "r \<longrightarrow> loc_tier (bp_location p ! b) = dst" using True m(4) by auto
    then show ?thesis
      using m nm steady_cancelled [of _ b p] by (auto simp: p' goal_tier_def bound_cancelled running_def)
  next
    case False
    let ?q = "moved_pool (cancelled_pool p b) b dst"
    have p': "p' = ?q\<lparr>bp_mem := stored (bp_mem p) (slot_addr p dst (last (ts_free (bp_tiers p ! dst)))) (content p b)\<rparr>"
      using eq m(1) False by simp
    have loc: "bp_location p' ! c = (if c = b then \<lparr>loc_tier = dst, loc_slot = last (ts_free (bp_tiers p ! dst))\<rparr> else bp_location p ! c)" for c
      using location_moved [of "cancelled_pool p b" b dst c] b by (simp add: p')
    have bound: "bound_for p' c = (if c = b then None else bound_for p c)" for c by (simp add: p' bound_cancelled)
    have tiers: "bp_tiers p' = pushed (pop_free (bp_tiers p) dst) (loc_tier (bp_location p ! b)) (loc_slot (bp_location p ! b))"
      by (simp add: p' moved_pool_def)
    have "loc_tier (bp_location p ! b) < length (bp_tiers p)" by (rule pool_invD(3) [OF D(1) b])
    then have "free0 p = free0 p' + 1" if "loc_tier (bp_location p ! b) \<noteq> 0" "dst = 0"
      unfolding free0_def tiers using that dst False ts_free_pushed ts_free_pop_free by simp
    moreover have "free0 p \<le> free0 p'" if "dst \<noteq> 0"
      using free_pushed_le [of "pop_free (bp_tiers p) dst" 0] dst that unfolding free0_def tiers by (simp add: ts_free_pop_free)
    moreover have "running p' = running p" by (simp add: p' running_def moved_pool_def)
    ultimately show ?thesis using m nm loc bound False tiers by (auto simp: steady_def goal_tier_def)
  qed
qed

lemma migrate_async_status:
  assumes sys: "sys_inv p" and b: "live p b" and dst: "dst < length (bp_tiers p)"
  shows "\<exists>r p'. migrate_async p b dst = Inr (r, p') \<and> sys_inv p' \<and> view p' = view p
     \<and> (r \<longleftrightarrow> loc_tier (bp_location p ! b) \<noteq> dst \<and> \<not> migrating p b \<and> ts_free (bp_tiers p ! dst) \<noteq> [])
     \<and> (\<forall>c. c \<noteq> b \<longrightarrow> steady p p' c) \<and> (if r then goal_tier p' b = dst \<and> migrating p' b else p' = p)
     \<and> (r \<and> dst = 0 \<longrightarrow> free0 p = free0 p' + 1) \<and> (dst \<noteq> 0 \<longrightarrow> free0 p' = free0 p) \<and> length (bp_tiers p') = length (bp_tiers p)
     \<and> running p' = running p"
proof -
  note D = sys_invD [OF sys]
  obtain p' where m: "migrate_async p b dst = Inr (can_queue p b dst, p')" "sys_inv p'" "view p' = view p"
    using migrate_async_store [OF sys b dst] by blast
  have src: "loc_tier (bp_location p ! b) < length (bp_tiers p)" by (rule pool_invD(3) [OF D(1) b])
  have can: "can_queue p b dst \<longleftrightarrow> loc_tier (bp_location p ! b) \<noteq> dst \<and> \<not> migrating p b \<and> ts_free (bp_tiers p ! dst) \<noteq> []"
    using mem_invD(2) [OF D(2) dst] mem_invD(2) [OF D(2) src] host_data_ok by (auto simp: can_queue_def)
  show ?thesis
  proof (cases "can_queue p b dst")
    case False
    then have "p' = p" using m(1) migrate_async_eq [OF D(1,2) b dst] by simp
    then show ?thesis using m False can by auto
  next
    case True
    then have p': "p' = queued_pool p b dst" using m(1) migrate_async_eq [OF D(1,2) b dst] by simp
    have nb: "bound_for p b = None" using True can bound_None [OF D(5)] by blast
    have bound: "bound_for p' c = (if c = b then Some dst else bound_for p c)" for c
      using nb by (auto simp: p' bound_queued)
    have "migrating p' b" using bound bound_None [OF sys_invD(5) [OF m(2)]] by simp
    moreover have "free0 p = free0 p' + 1" if "dst = 0"
      using True that dst by (simp add: free0_def p' ts_free_pop_free can_queue_def)
    moreover have "free0 p' = free0 p" if "dst \<noteq> 0"
      using True that dst by (simp add: free0_def p' ts_free_pop_free)
    moreover have "running p' = running p" by (auto simp: p' running_def)
    ultimately show ?thesis using m True can bound by (auto simp: steady_def goal_tier_def p')
  qed
qed

lemma allocate_status:
  assumes sys: "sys_inv p" and free: "0 < free0 p"
  shows "\<exists>b p'. allocate p = Inr (b, p') \<and> sys_inv p' \<and> \<not> live p b \<and> b \<noteq> kInvalidBlock
     \<and> view p' = (view p)(b \<mapsto> (1, content p' b)) \<and> (\<forall>c. live p c \<longrightarrow> steady p p' c)
     \<and> goal_tier p' b = 0 \<and> \<not> migrating p' b \<and> free0 p = free0 p' + 1 \<and> length (bp_tiers p') = length (bp_tiers p)
     \<and> running p' = running p"
proof -
  note D = sys_invD [OF sys]
  have f: "ts_free (bp_tiers p ! 0) \<noteq> []" using free by (auto simp: free0_def)
  obtain b p' where a: "allocate p = Inr (b, p')" "sys_inv p'" "view p b = None" "b \<noteq> kInvalidBlock"
    "view p' = (view p)(b \<mapsto> (1, content p' b))" "loc_tier (bp_location p' ! b) = 0"
    "bp_jobs p' = bp_jobs p" "bp_tiers p' = pop_free (bp_tiers p) 0"
    using allocate_store [OF sys f] by blast
  have nl: "\<not> live p b" using a(3) by (simp add: view_def split: if_splits)
  have bound: "bound_for p' c = bound_for p c" for c by (simp add: bound_for_def a(7))
  have nb: "bound_for p' b = None" using no_job_dead [OF sys, of b] nl bound by fastforce
  have ids: "bp_free_ids p \<noteq> []" using a(1,4) by (auto simp: allocate_def split: if_splits)
  have "running p' = running p" using allocate_eq [OF D(1) ids f] a(1) by (auto simp: running_def)
  moreover from ids have "bp_location p' ! c = bp_location p ! c" if "c \<noteq> b" for c
    using allocate_eq [OF D(1) _ f] a(1) that by auto
  then have st: "steady p p' c" if "live p c" for c using that nl bound unfolding steady_def by metis
  moreover have "free0 p = free0 p' + 1"
    using f pool_invD(2) [OF D(1)] by (simp add: free0_def a(8) ts_free_pop_free)
  ultimately show ?thesis
    using a nl nb st bound_None [OF sys_invD(5) [OF a(2)]] by (auto simp: goal_tier_def)
qed

subsection \<open>The workers\<close>

lemma worker_step_bound: "worker_step i p = Inr p' \<Longrightarrow> bound_for p' b = bound_for p b"
proof -
  assume s: "worker_step i p = Inr p'"
  have upd: "map_option job_dst_tier (find (\<lambda>j. job_id j = b \<and> \<not> job_cancelled j) (upd_job q (\<lambda>j. j\<lparr>job_done := True\<rparr>) js))
      = map_option job_dst_tier (find (\<lambda>j. job_id j = b \<and> \<not> job_cancelled j) js)" for q js
    by (induction js) (auto simp: upd_job_def)
  show ?thesis
    using s by (auto simp: worker_step_def bound_for_def upd result_simps split: worker.splits if_splits)
qed

lemma worker_steps_status:
  assumes "worker_steps p q" and "sys_inv p"
  shows "goal_tier q b = goal_tier p b \<and> free0 q = free0 p"
  using assms
proof (induction rule: worker_steps.induct)
  case (ws_step p q i r)
  have q: "sys_inv q" using worker_steps_store [OF ws_step.hyps(1) ws_step.prems] by blast
  have "i < length (bp_workers q)" using ws_step.hyps(2) by (auto simp: worker_step_def result_simps)
  then have "worker_frame q r" using worker_step_ok [OF q, of i] ws_step.hyps(2) by auto
  then have "steady q r b" "free0 r = free0 q"
    using worker_step_bound [OF ws_step.hyps(2), of b] by (simp_all add: steady_def worker_frame_def free0_def)
  then show ?case using ws_step.IH ws_step.prems steady_goal by simp
qed simp

lemma wait_status:
  assumes "sys_inv p" and "wait_for_migrations p r"
  shows "sys_inv r" "view r = view p" "goal_tier r b = goal_tier p b" "\<not> migrating r b"
proof -
  show r: "sys_inv r" "view r = view p" "\<not> migrating r b" using wait_for_migrations_store [OF assms] by blast+
  from assms(2) obtain q where q: "worker_steps p q" "drain_migrations q = Inr r"
    by (auto elim: wait_for_migrations.cases)
  have "sys_inv q" using worker_steps_store [OF q(1) assms(1)] by blast
  then show "goal_tier r b = goal_tier p b"
    using drain_status [of q] q(2) worker_steps_status [OF q(1) assms(1), of b] by auto
qed

subsection \<open>What queueing and draining do exactly\<close>

text \<open>One more job, of this block to that tier, into the slot taken from the tier's free list.\<close>

definition job_queued :: "BlockPool \<Rightarrow> BlockId \<Rightarrow> nat \<Rightarrow> BlockPool \<Rightarrow> bool" where
  "job_queued p b dst p' \<longleftrightarrow> (\<exists>j. bp_jobs p' = bp_jobs p @ [j] \<and> job_id j = b \<and> job_dst_tier j = dst
       \<and> \<not> job_done j \<and> \<not> job_cancelled j \<and> job_bytes j = block_bytes (bp_cfg p)
       \<and> job_src j = loc_addr p b \<and> job_dst j = slot_addr p dst (job_dst_slot j)
       \<and> ts_free (bp_tiers p ! dst) = ts_free (bp_tiers p' ! dst) @ [job_dst_slot j])
     \<and> (\<forall>t. t \<noteq> dst \<longrightarrow> bp_tiers p' ! t = bp_tiers p ! t) \<and> bp_workers p' \<noteq> []
     \<and> (\<forall>c. migrating p' c \<longleftrightarrow> migrating p c \<or> c = b)"

lemma queued_job:
  assumes sys: "sys_inv p" and b: "live p b" and dst: "dst < length (bp_tiers p)" and can: "can_queue p b dst"
  shows "job_queued p b dst (queued_pool p b dst)"
proof -
  let ?q = "queued_pool p b dst" and ?j = "new_job p b dst"
  have src: "loc_tier (bp_location p ! b) < length (bp_tiers p)" by (rule pool_invD(3) [OF sys_invD(1) [OF sys] b])
  have addr: "slot_addr ?q t s = slot_addr p t s" if "t < length (bp_tiers p)" for t s
    by (rule slot_addr_frame) (use that in simp_all)
  have ok: "job_ok ?q ?j" by (rule new_job_ok [OF assms])
  have "ts_free (bp_tiers p ! dst) = ts_free (bp_tiers ?q ! dst) @ [job_dst_slot ?j]"
    using can dst by (simp add: can_queue_def ts_free_pop_free)
  moreover have "job_src ?j = loc_addr p b" "job_dst ?j = slot_addr p dst (job_dst_slot ?j)"
    using ok addr src dst by (simp_all add: job_ok_def loc_addr_def)
  moreover have "bp_tiers ?q ! t = bp_tiers p ! t" if "t \<noteq> dst" for t using that by (simp add: pop_free_def)
  moreover have "bp_workers ?q \<noteq> []" by (simp add: queued_pool_def ensure_worker_def)
  moreover have "migrating ?q x \<longleftrightarrow> migrating p x \<or> x = b" for x by (simp add: migrating_def queued_pool_def)
  ultimately show ?thesis unfolding job_queued_def by (intro conjI exI [of _ ?j]) simp_all
qed

lemma migrate_async_queues:
  assumes sys: "sys_inv p" and b: "live p b" and dst: "dst < length (bp_tiers p)"
  defines "r \<equiv> loc_tier (bp_location p ! b) \<noteq> dst \<and> \<not> migrating p b \<and> ts_free (bp_tiers p ! dst) \<noteq> []"
  shows "\<exists>p'. migrate_async p b dst = Inr (r, p') \<and> view p' = view p \<and> bp_location p' = bp_location p
     \<and> (if r then job_queued p b dst p' \<and> migration_target p' b = Inr dst
            \<and> (\<forall>q. wait_for_migrations p' q \<longrightarrow> block_tier q b = Inr dst \<and> view q = view p) else p' = p)"
proof -
  obtain p' where m: "migrate_async p b dst = Inr (r, p')" "sys_inv p'" "view p' = view p"
    "if r then goal_tier p' b = dst \<and> migrating p' b else p' = p"
    using migrate_async_status [OF sys b dst] unfolding r_def by blast
  show ?thesis
  proof (cases r)
    case True
    have q: "can_queue p b dst" "p' = queued_pool p b dst"
      using migrate_async_True(3,4) [OF sys_invD(1) [OF sys], of b dst p'] m(1) True by simp_all
    have "migration_target p' b = Inr dst" using migration_target_eq [OF sys_invD(5) [OF m(2)]] m(4) True by simp
    moreover have "block_tier w b = Inr dst \<and> view w = view p" if "wait_for_migrations p' w" for w
    proof -
      note W = wait_status [OF m(2) that]
      have "view w b \<noteq> None" using W(2) m(3) b by (simp add: view_def)
      then have "live w b" by (simp add: view_def split: if_splits)
      then show ?thesis using goal_settled [OF sys_invD(5) [OF W(1)] W(4)] W(1-3) m(3,4) True by (simp add: sys_invD(1))
    qed
    ultimately show ?thesis using m(1,3) True queued_job [OF sys b dst q(1)] q(2) by auto
  next
    case False
    then show ?thesis using m by auto
  qed
qed

text \<open>The slot a finished job gives up: its source, or its destination if it was cancelled.\<close>

definition given_up :: "BlockPool \<Rightarrow> MigrationJob \<Rightarrow> nat \<times> nat" where
  "given_up p j = (if job_cancelled j then (job_dst_tier j, job_dst_slot j)
     else (loc_tier (bp_location p ! job_id j), loc_slot (bp_location p ! job_id j)))"

definition jobs_landed :: "BlockPool \<Rightarrow> MigrationJob list \<Rightarrow> BlockPool \<Rightarrow> bool" where
  "jobs_landed p fin p' \<longleftrightarrow>
     (\<forall>j \<in> set fin. \<not> job_cancelled j \<longrightarrow> bp_location p' ! job_id j = \<lparr>loc_tier = job_dst_tier j, loc_slot = job_dst_slot j\<rparr>)
     \<and> (\<forall>b. (\<forall>j \<in> set fin. \<not> job_cancelled j \<longrightarrow> job_id j \<noteq> b) \<longrightarrow> bp_location p' ! b = bp_location p ! b)
     \<and> (\<forall>b. migrating p' b \<longleftrightarrow> migrating p b \<and> (\<forall>j \<in> set fin. \<not> job_cancelled j \<longrightarrow> job_id j \<noteq> b))
     \<and> (\<forall>t < length (bp_tiers p). ts_free (bp_tiers p' ! t)
          = ts_free (bp_tiers p ! t) @ map snd (filter (\<lambda>x. fst x = t) (map (given_up p) fin)))"

lemma drained_location:
  assumes "pool_inv p" and "bp_jobs p = fin @ rest" and "\<forall>j \<in> set fin. job_done j"
  shows "(\<forall>j \<in> set fin. \<not> job_cancelled j \<longrightarrow> bp_location (drained p fin) ! job_id j
            = \<lparr>loc_tier = job_dst_tier j, loc_slot = job_dst_slot j\<rparr>)
     \<and> (\<forall>b. (\<forall>j \<in> set fin. \<not> job_cancelled j \<longrightarrow> job_id j \<noteq> b) \<longrightarrow> bp_location (drained p fin) ! b = bp_location p ! b)"
  using assms
proof (induction fin arbitrary: p)
  case Nil
  then show ?case by simp
next
  case (Cons j fin)
  let ?q = "drained_one (pop_job p) j"
  have js: "bp_jobs p = j # (fin @ rest)" and don: "job_done j" using Cons.prems by auto
  have q: "pool_inv ?q" by (rule pool_inv_drained [OF Cons.prems(1) js don])
  note IH = Cons.IH [OF q]
  have m: "mig_inv p" using Cons.prems(1) by (simp add: pool_inv_def)
  have "j \<notin> set fin" using m js by (auto simp: mig_inv_def)
  then have other: "\<not> job_cancelled j \<Longrightarrow> k \<in> set fin \<Longrightarrow> \<not> job_cancelled k \<Longrightarrow> job_id k \<noteq> job_id j" for k
    using uncancelled_unique [OF m, of k j] js by auto
  have lt: "\<not> job_cancelled j \<Longrightarrow> job_id j < length (bp_location p)"
    using Cons.prems(1) js by (auto simp: pool_inv_def flight_inv_def live_def)
  have IH': "\<forall>k \<in> set fin. \<not> job_cancelled k \<longrightarrow> bp_location (drained ?q fin) ! job_id k
            = \<lparr>loc_tier = job_dst_tier k, loc_slot = job_dst_slot k\<rparr>"
    "\<forall>b. (\<forall>k \<in> set fin. \<not> job_cancelled k \<longrightarrow> job_id k \<noteq> b) \<longrightarrow> bp_location (drained ?q fin) ! b = bp_location ?q ! b"
    using IH js Cons.prems(3) by simp_all
  show ?case
  proof (intro conjI ballI impI allI)
    fix k assume "k \<in> set (j # fin)" "\<not> job_cancelled k"
    then show "bp_location (drained p (j # fin)) ! job_id k = \<lparr>loc_tier = job_dst_tier k, loc_slot = job_dst_slot k\<rparr>"
      using IH' other lt by (cases "k = j") (simp_all add: location_drained)
  next
    fix b assume "\<forall>k \<in> set (j # fin). \<not> job_cancelled k \<longrightarrow> job_id k \<noteq> b"
    then show "bp_location (drained p (j # fin)) ! b = bp_location p ! b"
      using IH'(2) by (auto simp: location_drained)
  qed
qed

lemma drained_migrating:
  assumes sys: "sys_inv p" and f: "bp_jobs p = fin @ rest" and q: "sys_inv q" "bp_jobs q = rest"
  shows "migrating q b \<longleftrightarrow> migrating p b \<and> (\<forall>j \<in> set fin. \<not> job_cancelled j \<longrightarrow> job_id j \<noteq> b)"
proof -
  have m: "mig_inv p" "mig_inv q" using sys q(1) by (simp_all add: sys_invD(5))
  have "j \<notin> set fin" if "j \<in> set rest" for j using m(1) that f by (auto simp: mig_inv_def)
  then have "job_id k \<noteq> job_id j" if "j \<in> set rest" "k \<in> set fin" "\<not> job_cancelled j" "\<not> job_cancelled k" for j k
    using uncancelled_unique [OF m(1), of j k] that f by auto
  then show ?thesis unfolding migrating_iff [OF m(1)] migrating_iff [OF m(2)] f q(2) by fastforce
qed

lemma drained_free:
  assumes "pool_inv p" and "bp_jobs p = fin @ rest" and "\<forall>j \<in> set fin. job_done j" and "t < length (bp_tiers p)"
  shows "ts_free (bp_tiers (drained p fin) ! t) = ts_free (bp_tiers p ! t) @ map snd (filter (\<lambda>x. fst x = t) (map (given_up p) fin))"
  using assms
proof (induction fin arbitrary: p)
  case (Cons j fin)
  let ?q = "drained_one (pop_job p) j"
  have js: "bp_jobs p = j # (fin @ rest)" and don: "job_done j" using Cons.prems by auto
  have q: "pool_inv ?q" by (rule pool_inv_drained [OF Cons.prems(1) js don])
  have m: "mig_inv p" using Cons.prems(1) by (simp add: pool_inv_def)
  have "j \<notin> set fin" using m js by (auto simp: mig_inv_def)
  then have "\<not> job_cancelled j \<Longrightarrow> k \<in> set fin \<Longrightarrow> \<not> job_cancelled k \<Longrightarrow> job_id k \<noteq> job_id j" for k
    using uncancelled_unique [OF m, of k j] js by auto
  then have same: "map (given_up ?q) fin = map (given_up p) fin" by (auto simp: given_up_def location_drained)
  have "job_dst_tier j < length (bp_tiers p)" "\<not> job_cancelled j \<Longrightarrow> loc_tier (bp_location p ! job_id j) < length (bp_tiers p)"
    using Cons.prems(1) js pool_invD(3) [OF Cons.prems(1), of "job_id j"] by (auto simp: pool_inv_def range_inv_def flight_inv_def)
  then have "ts_free (bp_tiers ?q ! t) = ts_free (bp_tiers p ! t) @ (if fst (given_up p j) = t then [snd (given_up p j)] else [])"
    using Cons.prems(4) by (auto simp: drained_one_def pop_job_def given_up_def ts_free_pushed)
  then show ?case using Cons.IH [OF q] js Cons.prems(3,4) same by simp
qed simp

lemma drain_lands:
  assumes sys: "sys_inv p"
  shows "\<exists>p'. drain_migrations p = Inr p' \<and> view p' = view p \<and> bp_jobs p' = dropWhile job_done (bp_jobs p)
     \<and> jobs_landed p (takeWhile job_done (bp_jobs p)) p'"
proof -
  let ?f = "takeWhile job_done (bp_jobs p)" and ?r = "dropWhile job_done (bp_jobs p)"
  note D = sys_invD [OF sys]
  have f: "bp_jobs p = ?f @ ?r" "\<forall>j \<in> set ?f. job_done j" by (auto dest: set_takeWhileD)
  have s: "sys_inv (drained p ?f)" "view (drained p ?f) = view p" "bp_jobs (drained p ?f) = ?r"
    using drained_store [OF sys f] by blast+
  have "jobs_landed p ?f (drained p ?f)"
    unfolding jobs_landed_def
    using drained_location [OF D(1) f] drained_migrating [OF sys f(1) s(1,3)] drained_free [OF D(1) f] by blast
  then show ?thesis using drain_migrations_eq [OF D(1)] s(2,3) by blast
qed

end
