(* ===== verification/Ref_Counts.thy ===== *)
theory Ref_Counts
  imports Radix_Tree Pool_Status
begin

section \<open>The interface between the tree and the pool\<close>

text \<open>
  The prefix tree and the cache manager use the pool's reference counts only through
  \<^verbatim>\<open>incref()\<close> and \<^verbatim>\<open>decref()\<close>. The locale \<open>refcounted\<close> states what they rely on: both
  operations succeed on a referenced block, change that block's count by one and keep
  the provider's invariant and the relation \<open>rel\<close> between the states before and after. Loops
  over a list of blocks then add or subtract a multiset. The pool is an instance; \<open>rel\<close> says
  that no block moves and no block that stays allocated changes its bytes.
\<close>

locale refcounted =
  fixes ok :: "'s \<Rightarrow> bool"
    and rc :: "'s \<Rightarrow> BlockId \<Rightarrow> nat"
    and inc :: "'s \<Rightarrow> BlockId \<Rightarrow> 's result"
    and dec :: "'s \<Rightarrow> BlockId \<Rightarrow> (bool \<times> 's) result"
    and rel :: "'s \<Rightarrow> 's \<Rightarrow> bool"
  assumes inc_ok: "ok s \<Longrightarrow> 0 < rc s b \<Longrightarrow> rc s b + 1 < 2 ^ 32 \<Longrightarrow>
        \<exists>s'. inc s b = Inr s' \<and> ok s' \<and> rc s' = (rc s)(b := rc s b + 1) \<and> rel s s'"
    and dec_ok: "ok s \<Longrightarrow> 0 < rc s b \<Longrightarrow>
        \<exists>s'. dec s b = Inr (rc s b = 1, s') \<and> ok s' \<and> rc s' = (rc s)(b := rc s b - 1) \<and> rel s s'"
    and rel_refl: "rel s s"
    and rel_trans: "rel s s' \<Longrightarrow> rel s' s'' \<Longrightarrow> rel s s''"
begin

lemma inc_all:
  assumes "ok s" and "\<forall>b \<in> set bs. 0 < rc s b" and "\<forall>b. rc s b + count (mset bs) b < 2 ^ 32"
  shows "\<exists>s'. foldE (\<lambda>b s. inc s b) bs s = Inr s' \<and> ok s'
     \<and> rc s' = (\<lambda>b. rc s b + count (mset bs) b) \<and> rel s s'"
  using assms
proof (induction bs arbitrary: s)
  case Nil
  then show ?case by (simp add: rel_refl)
next
  case (Cons b bs)
  have "rc s b + count (mset (b # bs)) b < 2 ^ 32" using Cons.prems(3) by blast
  then have "rc s b + 1 < 2 ^ 32" by simp
  then obtain s1 where s1: "inc s b = Inr s1" "ok s1" "rc s1 = (rc s)(b := rc s b + 1)" "rel s s1"
    using inc_ok [OF Cons.prems(1), of b] Cons.prems(2) by auto
  have eq: "rc s1 c + count (mset bs) c = rc s c + count (mset (b # bs)) c" for c
    using s1(3) by simp
  have pos: "\<forall>c \<in> set bs. 0 < rc s1 c" using Cons.prems(2) s1(3) by simp
  have bound: "\<forall>c. rc s1 c + count (mset bs) c < 2 ^ 32" unfolding eq using Cons.prems(3) by blast
  obtain s' where s': "foldE (\<lambda>b s. inc s b) bs s1 = Inr s'" "ok s'"
    "rc s' = (\<lambda>b. rc s1 b + count (mset bs) b)" "rel s1 s'"
    using Cons.IH [OF s1(2) pos bound] by blast
  have "rc s' = (\<lambda>c. rc s c + count (mset (b # bs)) c)" unfolding s'(3) eq ..
  with s1 s' show ?case using rel_trans by auto
qed

lemma dec_all:
  assumes "ok s" and "\<forall>b. count (mset bs) b \<le> rc s b"
  shows "\<exists>k s'. foldE (\<lambda>b (n, s). bindE (dec s b) (\<lambda>(f, s'). Inr (if f then n + 1 else n, s'))) bs (k0, s) = Inr (k0 + k, s')
     \<and> ok s' \<and> rc s' = (\<lambda>b. rc s b - count (mset bs) b) \<and> rel s s'
     \<and> k = card {b \<in> set bs. rc s b = count (mset bs) b}"
  using assms
proof (induction bs arbitrary: s k0)
  case Nil
  then show ?case by (simp add: rel_refl)
next
  case (Cons b bs)
  have ge: "count (mset (b # bs)) b \<le> rc s b" using Cons.prems(2) by blast
  then obtain s1 where s1: "dec s b = Inr (rc s b = 1, s1)" "ok s1" "rc s1 = (rc s)(b := rc s b - 1)" "rel s s1"
    using dec_ok [OF Cons.prems(1), of b] by auto
  have le: "\<forall>c. count (mset bs) c \<le> rc s1 c"
  proof
    fix c
    have "count (mset (b # bs)) c \<le> rc s c" using Cons.prems(2) by blast
    then show "count (mset bs) c \<le> rc s1 c" unfolding s1(3) by (cases "c = b") simp_all
  qed
  have eq: "rc s1 c - count (mset bs) c = rc s c - count (mset (b # bs)) c" for c
    using s1(3) by simp
  let ?k1 = "if rc s b = 1 then k0 + 1 else k0"
  obtain k s' where s': "foldE (\<lambda>b (n, s). bindE (dec s b) (\<lambda>(f, s'). Inr (if f then n + 1 else n, s'))) bs (?k1, s1) = Inr (?k1 + k, s')"
    "ok s'" "rc s' = (\<lambda>b. rc s1 b - count (mset bs) b)" "rel s1 s'" "k = card {c \<in> set bs. rc s1 c = count (mset bs) c}"
    using Cons.IH [OF s1(2) le, of ?k1] by blast
  have rc: "rc s' = (\<lambda>c. rc s c - count (mset (b # bs)) c)" unfolding s'(3) eq ..
  have card: "?k1 + k = k0 + card {c \<in> set (b # bs). rc s c = count (mset (b # bs)) c}"
  proof (cases "b \<in> set bs")
    case True
    then have "rc s b \<noteq> 1" using ge by (cases "rc s b = 1") (auto simp: count_mset_0_iff)
    moreover have "rc s1 c = count (mset bs) c \<longleftrightarrow> rc s c = count (mset (b # bs)) c" for c
      unfolding s1(3) using ge by auto
    then have "{c \<in> set bs. rc s1 c = count (mset bs) c} = {c \<in> set (b # bs). rc s c = count (mset (b # bs)) c}"
      using True by auto
    ultimately show ?thesis using s'(5) by simp
  next
    case False
    then have z: "count (mset bs) b = 0" by (simp add: count_mset_0_iff)
    have "rc s1 c = count (mset bs) c \<longleftrightarrow> rc s c = count (mset (b # bs)) c" if "c \<in> set bs" for c
      unfolding s1(3) using that False by auto
    then have "{c \<in> set (b # bs). rc s c = count (mset (b # bs)) c} =
        (if rc s b = 1 then {b} else {}) \<union> {c \<in> set bs. rc s1 c = count (mset bs) c}"
      using z by auto
    moreover have "b \<notin> {c \<in> set bs. rc s1 c = count (mset bs) c}" using False by simp
    ultimately show ?thesis using s'(5) by (simp add: card_insert_if)
  qed
  have "foldE (\<lambda>b (n, s). bindE (dec s b) (\<lambda>(f, s'). Inr (if f then n + 1 else n, s'))) (b # bs) (k0, s) = Inr (?k1 + k, s')"
    using s1(1) s'(1) by simp
  with card rc s'(2,4) s1(4) rel_trans show ?case by metis
qed

end


subsection \<open>The pool is an instance\<close>

definition rcount :: "BlockPool \<Rightarrow> BlockId \<Rightarrow> nat" where
  "rcount p b = (if b < length (bp_location p) then bp_refcount p ! b else 0)"

lemma live_rcount: "live p b \<longleftrightarrow> 0 < rcount p b"
  by (simp add: live_def rcount_def)

lemma rcount_less: "sys_inv p \<Longrightarrow> rcount p b < 2 ^ 32"
  using sys_invD(1) [of p] by (simp add: rcount_def pool_inv_def ids_inv_def)

definition pool_rel :: "BlockPool \<Rightarrow> BlockPool \<Rightarrow> bool" where
  "pool_rel p p' \<longleftrightarrow> bp_location p' = bp_location p \<and> bp_cfg p' = bp_cfg p
     \<and> length (bp_tiers p') = length (bp_tiers p) \<and> bp_mem p' = bp_mem p
     \<and> bp_workers p' = bp_workers p \<and> bp_stopping p' = bp_stopping p
     \<and> (\<forall>b. live p' b \<longrightarrow> live p b \<and> content p' b = content p b \<and> steady p p' b)
     \<and> (\<forall>t < length (bp_tiers p). length (ts_free (bp_tiers p ! t)) \<le> length (ts_free (bp_tiers p' ! t)))"

lemma pool_rel_refl: "pool_rel p p"
  by (simp add: pool_rel_def)

lemma pool_rel_free:
  "pool_rel p p' \<Longrightarrow> t < length (bp_tiers p) \<Longrightarrow> length (ts_free (bp_tiers p ! t)) \<le> length (ts_free (bp_tiers p' ! t))"
  by (simp add: pool_rel_def)

lemma pool_rel_live:
  assumes "pool_rel p p'" and "live p' b"
  shows "live p b" "content p' b = content p b" "steady p p' b"
  using assms by (simp_all add: pool_rel_def)

lemma pool_rel_trans: "pool_rel p p' \<Longrightarrow> pool_rel p' p'' \<Longrightarrow> pool_rel p p''"
proof -
  assume a: "pool_rel p p'" and b: "pool_rel p' p''"
  have "length (bp_tiers p') = length (bp_tiers p)" using a by (simp add: pool_rel_def)
  then have "\<forall>t < length (bp_tiers p). length (ts_free (bp_tiers p ! t)) \<le> length (ts_free (bp_tiers p'' ! t))"
    using pool_rel_free [OF a] pool_rel_free [OF b] le_trans by metis
  moreover have "live p b \<and> content p'' b = content p b \<and> steady p p'' b" if "live p'' b" for b
    using pool_rel_live [OF b that] pool_rel_live [OF a, of b] steady_trans [of p p' b p''] by simp
  moreover have "bp_location p'' = bp_location p \<and> bp_cfg p'' = bp_cfg p \<and> length (bp_tiers p'') = length (bp_tiers p)
     \<and> bp_mem p'' = bp_mem p \<and> bp_workers p'' = bp_workers p \<and> bp_stopping p'' = bp_stopping p"
    using a b unfolding pool_rel_def by argo
  ultimately show ?thesis unfolding pool_rel_def by blast
qed

lemma rcount_update:
  "b < length (bp_location p) \<Longrightarrow> length (bp_refcount p) = length (bp_location p) \<Longrightarrow>
     bp_location p' = bp_location p \<Longrightarrow> bp_refcount p' = (bp_refcount p)[b := r] \<Longrightarrow> rcount p' = (rcount p)(b := r)"
  by (auto simp: rcount_def fun_eq_iff)

lemma pool_rel_refcount:
  assumes "\<And>c. live (p\<lparr>bp_refcount := r\<rparr>) c \<Longrightarrow> live p c"
  shows "pool_rel p (p\<lparr>bp_refcount := r\<rparr>)"
  using assms by (simp add: pool_rel_def content_def slot_addr_def steady_def bound_for_def)

lemma pool_incref:
  assumes sys: "sys_inv p" and b: "0 < rcount p b" and r: "rcount p b + 1 < 2 ^ 32"
  shows "\<exists>p'. incref p b = Inr p' \<and> sys_inv p' \<and> rcount p' = (rcount p)(b := rcount p b + 1) \<and> pool_rel p p'"
proof -
  note D = sys_invD [OF sys]
  have l: "live p b" "b < length (bp_location p)" using b by (simp_all add: live_rcount rcount_def split: if_splits)
  have r': "bp_refcount p ! b + 1 < 2 ^ 32" using r l(2) by (simp add: rcount_def)
  obtain p' where p': "incref p b = Inr p'" "sys_inv p'" using incref_ok [OF sys l(1) r'] by blast
  have eq: "p' = p\<lparr>bp_refcount := (bp_refcount p)[b := bp_refcount p ! b + 1]\<rparr>"
    using p'(1) incref_eq [OF D(1) l(1)] r' by (simp add: u32_small)
  have "rcount p' = (rcount p)(b := rcount p b + 1)"
    using rcount_update [OF l(2) pool_invD(1) [OF D(1)], of p'] l(2) by (simp add: eq rcount_def)
  moreover have "pool_rel p p'" unfolding eq
    by (rule pool_rel_refcount) (use l pool_invD(1) [OF D(1)] in \<open>auto simp: live_def nth_list_update split: if_splits\<close>)
  ultimately show ?thesis using p' by blast
qed

lemma pool_rel_freed:
  assumes sys: "sys_inv p" and b: "live p b"
  shows "pool_rel p (freed_pool p b)"
proof -
  note D = sys_invD [OF sys]
  let ?p = "freed_pool p b"
  have "content ?p c = content p c" if "live p c" for c
    by (rule content_cong) (use pool_invD(3) [OF D(1) that] in simp_all)
  moreover have "steady p ?p c" if "c \<noteq> b" for c using that by (simp add: steady_def bound_freed)
  moreover have "length (ts_free (bp_tiers p ! t)) \<le> length (ts_free (bp_tiers ?p ! t))" for t
    using ts_free_pushed [OF pool_invD(3) [OF D(1) b], of "loc_slot (bp_location p ! b)" t] by simp
  ultimately show ?thesis by (auto simp: pool_rel_def live_freed [OF D(1) b])
qed

lemma pool_decref:
  assumes sys: "sys_inv p" and b: "0 < rcount p b"
  shows "\<exists>p'. decref p b = Inr (rcount p b = 1, p') \<and> sys_inv p' \<and> rcount p' = (rcount p)(b := rcount p b - 1)
     \<and> pool_rel p p'"
proof -
  note D = sys_invD [OF sys]
  have l: "live p b" "b < length (bp_location p)" and rb: "rcount p b = bp_refcount p ! b"
    using b by (simp_all add: live_rcount rcount_def split: if_splits)
  obtain p' where p': "decref p b = Inr (bp_refcount p ! b = 1, p')" "sys_inv p'" using decref_store [OF sys l(1)] by blast
  have "bp_location p' = bp_location p \<and> bp_refcount p' = (bp_refcount p)[b := bp_refcount p ! b - 1] \<and> pool_rel p p'"
  proof (cases "bp_refcount p ! b = 1")
    case True
    then have "p' = freed_pool p b" using p'(1) decref_eq [OF D(1) l(1)] by simp
    then show ?thesis using True pool_rel_freed [OF sys l(1)] by simp
  next
    case False
    then have eq: "p' = p\<lparr>bp_refcount := (bp_refcount p)[b := bp_refcount p ! b - 1]\<rparr>"
      using p'(1) decref_eq [OF D(1) l(1)] by simp
    have "pool_rel p p'" unfolding eq
      by (rule pool_rel_refcount) (use l pool_invD(1) [OF D(1)] in \<open>auto simp: live_def nth_list_update split: if_splits\<close>)
    then show ?thesis by (simp add: eq)
  qed
  then show ?thesis
    using p' rcount_update [OF l(2) pool_invD(1) [OF D(1)], of p' "bp_refcount p ! b - 1"] rb by auto
qed

interpretation pool: refcounted sys_inv rcount incref decref pool_rel
  by unfold_locales (use pool_incref pool_decref pool_rel_refl pool_rel_trans in blast)+

end
