(* ===== verification/Radix_Insert.thy ===== *)
theory Radix_Insert
  imports Radix_Walk Ref_Counts
begin

section \<open>The prefix tree: inserting and dropping leaves\<close>

text \<open>
  \<open>add_leaf\<close> and \<open>drop_node\<close> are the two ways a tree gains and loses entries. Both keep
  the shape invariant; the first adds the entries of the new leaf to the index and the
  second removes those of the old one. \<^verbatim>\<open>insert()\<close> and \<^verbatim>\<open>drop_leaf()\<close> are expressed with
  them. The last part counts nodes and blocks.
\<close>

subsection \<open>Adding a leaf\<close>

definition add_leaf :: "RadixTree \<Rightarrow> nat \<Rightarrow> Node \<Rightarrow> Node \<Rightarrow> RadixTree" where
  "add_leaf t cur cn leaf =
     t\<lparr>rt_nodes := (rt_nodes t)(rt_next t \<mapsto> leaf,
          cur \<mapsto> cn\<lparr>nd_children := AList.update (block_key (nd_tokens leaf) (rt_block_tokens t))
                                    (rt_next t) (nd_children cn)\<rparr>),
       rt_clock := nd_last leaf,
       rt_stored_blocks := u64 (rt_stored_blocks t + length (nd_blocks leaf)),
       rt_num_nodes := u64 (rt_num_nodes t + 1),
       rt_next := rt_next t + 1\<rparr>"

definition addable :: "RadixTree \<Rightarrow> nat \<Rightarrow> Node \<Rightarrow> Node \<Rightarrow> bool" where
  "addable t cur cn leaf \<longleftrightarrow> tree_wf t \<and> rt_nodes t cur = Some cn
     \<and> map_of (nd_children cn) (block_key (nd_tokens leaf) (rt_block_tokens t)) = None
     \<and> nd_blocks leaf \<noteq> [] \<and> length (nd_tokens leaf) = length (nd_blocks leaf) * rt_block_tokens t
     \<and> nd_children leaf = [] \<and> nd_parent leaf = Some cur"

lemma add_leaf_simps [simp]:
  "rt_root (add_leaf t cur cn leaf) = rt_root t"
  "rt_block_tokens (add_leaf t cur cn leaf) = rt_block_tokens t"
  "rt_next (add_leaf t cur cn leaf) = rt_next t + 1"
  "rt_collisions (add_leaf t cur cn leaf) = rt_collisions t"
  "rt_num_nodes (add_leaf t cur cn leaf) = u64 (rt_num_nodes t + 1)"
  "rt_stored_blocks (add_leaf t cur cn leaf) = u64 (rt_stored_blocks t + length (nd_blocks leaf))"
  by (simp_all add: add_leaf_def)

lemma addable_fresh:
  assumes a: "addable t cur cn leaf"
  shows "rt_next t \<noteq> cur" "rt_next t \<noteq> rt_root t" "rt_nodes t (rt_next t) = None"
proof -
  have wf: "tree_wf t" and c: "rt_nodes t cur = Some cn" using a by (simp_all add: addable_def)
  have nf: "rt_nodes t n = Some nd \<Longrightarrow> n \<noteq> rt_next t" for n nd using tree_wfD(2) [OF wf] by blast
  show "rt_next t \<noteq> cur" using nf c by blast
  show "rt_next t \<noteq> rt_root t" using nf tree_wfD(6) [OF wf] by metis
  show "rt_nodes t (rt_next t) = None" using nf by fastforce
qed

lemma add_nodes:
  assumes a: "addable t cur cn leaf"
  defines "H \<equiv> rt_nodes (add_leaf t cur cn leaf)"
  shows "H (rt_next t) = Some leaf"
    "H cur = Some (cn\<lparr>nd_children := AList.update (block_key (nd_tokens leaf) (rt_block_tokens t))
                                    (rt_next t) (nd_children cn)\<rparr>)"
    "n \<noteq> cur \<Longrightarrow> n \<noteq> rt_next t \<Longrightarrow> H n = rt_nodes t n"
  using addable_fresh [OF a] by (simp_all add: H_def add_leaf_def)

lemma add_old:
  assumes a: "addable t cur cn leaf" and n: "rt_nodes t n = Some nd"
  obtains nd' where "rt_nodes (add_leaf t cur cn leaf) n = Some nd'" "nd_tokens nd' = nd_tokens nd"
    "nd_blocks nd' = nd_blocks nd" "nd_parent nd' = nd_parent nd" "nd_lock nd' = nd_lock nd"
    "nd_last nd' = nd_last nd" "n \<noteq> cur \<Longrightarrow> nd_children nd' = nd_children nd"
proof (cases "n = cur")
  case True
  then have "nd = cn" using a n by (simp add: addable_def)
  then show thesis using True add_nodes(2) [OF a] that by simp
next
  case False
  have "n \<noteq> rt_next t" using addable_fresh(3) [OF a] n by auto
  then show thesis using add_nodes(3) [OF a False] n that [of nd] by simp
qed

lemma add_dom:
  assumes a: "addable t cur cn leaf" and n: "rt_nodes (add_leaf t cur cn leaf) n = Some nd"
  shows "n = rt_next t \<or> (\<exists>nd0. rt_nodes t n = Some nd0)"
proof (cases "n = cur")
  case True
  then show ?thesis using a by (simp add: addable_def)
next
  case False
  then show ?thesis using add_nodes(3) [OF a, of n] n by metis
qed

lemma add_chain:
  assumes a: "addable t cur cn leaf" and "chain (rt_nodes t) (rt_root t) n xs"
  shows "chain (rt_nodes (add_leaf t cur cn leaf)) (rt_root t) n xs"
proof (rule chain_cong [OF assms(2)])
  fix m assume "m \<in> set xs"
  then obtain nd where nd: "rt_nodes t m = Some nd" using chain_mem [OF assms(2)] by blast
  obtain nd' where "rt_nodes (add_leaf t cur cn leaf) m = Some nd'" "nd_parent nd' = nd_parent nd"
    using add_old [OF a nd] .
  with nd show "map_option nd_parent (rt_nodes (add_leaf t cur cn leaf) m) = map_option nd_parent (rt_nodes t m)"
    by simp
qed

lemma add_leaf_chain:
  assumes a: "addable t cur cn leaf" and "chain (rt_nodes t) (rt_root t) cur xs"
  shows "chain (rt_nodes (add_leaf t cur cn leaf)) (rt_root t) (rt_next t) (rt_next t # xs)"
  using add_chain [OF assms] add_nodes(1) [OF a] addable_fresh(2) [OF a] a
  by (auto simp: addable_def intro: ch_node)

lemma path_cong:
  "(\<And>m. m \<in> set xs \<Longrightarrow> nd_tokens (the (H' m)) = nd_tokens (the (H m))) \<Longrightarrow> path H' xs = path H xs"
  "(\<And>m. m \<in> set xs \<Longrightarrow> nd_blocks (the (H' m)) = nd_blocks (the (H m))) \<Longrightarrow> path_blocks H' xs = path_blocks H xs"
  by (induction xs) auto

lemma add_path:
  assumes a: "addable t cur cn leaf" and "chain (rt_nodes t) (rt_root t) n xs"
  shows "path (rt_nodes (add_leaf t cur cn leaf)) xs = path (rt_nodes t) xs"
    "path_blocks (rt_nodes (add_leaf t cur cn leaf)) xs = path_blocks (rt_nodes t) xs"
proof -
  have "nd_tokens (the (rt_nodes (add_leaf t cur cn leaf) m)) = nd_tokens (the (rt_nodes t m))
      \<and> nd_blocks (the (rt_nodes (add_leaf t cur cn leaf) m)) = nd_blocks (the (rt_nodes t m))"
    if m: "m \<in> set xs" for m
  proof -
    obtain nd where nd: "rt_nodes t m = Some nd" using chain_mem [OF assms(2) m] by blast
    show ?thesis by (rule add_old [OF a nd]) (simp add: nd)
  qed
  then show "path (rt_nodes (add_leaf t cur cn leaf)) xs = path (rt_nodes t) xs"
    "path_blocks (rt_nodes (add_leaf t cur cn leaf)) xs = path_blocks (rt_nodes t) xs"
    by (intro path_cong; simp)+
qed

lemma add_chain_inv:
  assumes a: "addable t cur cn leaf" and ch: "chain (rt_nodes (add_leaf t cur cn leaf)) (rt_root t) n ys"
  shows "n = rt_next t \<and> (\<exists>xs. chain (rt_nodes t) (rt_root t) cur xs \<and> ys = rt_next t # xs)
       \<or> chain (rt_nodes t) (rt_root t) n ys"
proof -
  have wf: "tree_wf t" and c: "rt_nodes t cur = Some cn" using a by (simp_all add: addable_def)
  show ?thesis
  proof (cases "n = rt_next t")
    case True
    obtain xs where xs: "chain (rt_nodes t) (rt_root t) cur xs" using tree_wfD(5) [OF wf c] by blast
    show ?thesis using add_leaf_chain [OF a xs] chain_unique [OF ch] xs True by blast
  next
    case False
    have "rt_nodes t n \<noteq> None"
    proof (cases "n = rt_root t")
      case True
      then show ?thesis using tree_wfD(6) [OF wf] by auto
    next
      case nr: False
      then have "n \<in> dom (rt_nodes (add_leaf t cur cn leaf))"
        using chain_head [OF ch] chain_mem [OF ch, of n] by auto
      then show ?thesis using add_dom [OF a] False by blast
    qed
    then obtain xs where xs: "chain (rt_nodes t) (rt_root t) n xs" using tree_wfD(5) [OF wf] by blast
    with chain_unique [OF ch add_chain [OF a xs]] show ?thesis by simp
  qed
qed

lemma add_links:
  assumes a: "addable t cur cn leaf" and n: "rt_nodes (add_leaf t cur cn leaf) n = Some nd"
  shows "links_ok (add_leaf t cur cn leaf) n nd"
proof -
  let ?t = "add_leaf t cur cn leaf" and ?bt = "rt_block_tokens t"
  let ?key = "block_key (nd_tokens leaf) ?bt"
  have wf: "tree_wf t" and c: "rt_nodes t cur = Some cn" and k: "map_of (nd_children cn) ?key = None"
    using a by (simp_all add: addable_def)
  have old: "x \<noteq> rt_root ?t \<and> (\<exists>xn. rt_nodes ?t x = Some xn \<and> nd_parent xn = Some m \<and> k' = block_key (nd_tokens xn) (rt_block_tokens ?t))"
    if m: "rt_nodes t m = Some mn" "map_of (nd_children mn) k' = Some x" for m mn k' x
  proof -
    obtain xn where xn: "rt_nodes t x = Some xn" "x \<noteq> rt_root t" "nd_parent xn = Some m" "k' = block_key (nd_tokens xn) ?bt"
      using wf_child [OF wf m] .
    obtain xn' where "rt_nodes ?t x = Some xn'" "nd_tokens xn' = nd_tokens xn" "nd_parent xn' = nd_parent xn"
      using add_old [OF a xn(1)] .
    with xn show ?thesis by auto
  qed
  have dist: "rt_nodes t m = Some mn \<Longrightarrow> distinct (map fst (nd_children mn))" for m mn
    using tree_wfD(3) [OF wf] unfolding links_ok_def by blast
  consider "n = rt_next t" | "n = cur" | "n \<noteq> rt_next t" "n \<noteq> cur" by blast
  then show ?thesis
  proof cases
    case 1
    then have "nd = leaf" using n add_nodes(1) [OF a] by simp
    then show ?thesis using a by (simp add: links_ok_def addable_def)
  next
    case 2
    then have nd: "nd = cn\<lparr>nd_children := AList.update ?key (rt_next t) (nd_children cn)\<rparr>"
      using n add_nodes(2) [OF a] by simp
    show ?thesis
    proof (rule links_okI)
      show "distinct (map fst (nd_children nd))" using dist [OF c] by (simp add: nd distinct_update)
      fix k' x assume "map_of (nd_children nd) k' = Some x"
      then have x: "(if k' = ?key then Some (rt_next t) else map_of (nd_children cn) k') = Some x"
        by (simp add: nd update_conv')
      show "x \<noteq> rt_root ?t \<and> (\<exists>xn. rt_nodes ?t x = Some xn \<and> nd_parent xn = Some n
          \<and> k' = block_key (nd_tokens xn) (rt_block_tokens ?t))"
      proof (cases "k' = ?key")
        case True
        then have "x = rt_next t" using x by simp
        then show ?thesis using True 2 add_nodes(1) [OF a] addable_fresh(2) [OF a] a by (simp add: addable_def)
      next
        case False
        then show ?thesis using x 2 old [OF c, of k' x] by simp
      qed
    qed
  next
    case 3
    then have nd: "rt_nodes t n = Some nd" using n add_nodes(3) [OF a] by simp
    show ?thesis by (rule links_okI) (use dist [OF nd] old [OF nd] in blast)+
  qed
qed

lemma add_body:
  assumes a: "addable t cur cn leaf" and n: "rt_nodes (add_leaf t cur cn leaf) n = Some nd" and nr: "n \<noteq> rt_root t"
  shows "body_ok (add_leaf t cur cn leaf) n nd"
proof -
  let ?t = "add_leaf t cur cn leaf" and ?bt = "rt_block_tokens t"
  let ?key = "block_key (nd_tokens leaf) ?bt"
  have wf: "tree_wf t" and c: "rt_nodes t cur = Some cn" and k: "map_of (nd_children cn) ?key = None"
    using a by (simp_all add: addable_def)
  show ?thesis
  proof (cases "n = rt_next t")
    case True
    then have "nd = leaf" using n add_nodes(1) [OF a] by simp
    then show ?thesis using a add_nodes(2) [OF a] True by (simp add: body_ok_def addable_def update_conv')
  next
    case False
    then obtain nd0 where nd0: "rt_nodes t n = Some nd0" using add_dom [OF a n] by blast
    have same: "nd_tokens nd = nd_tokens nd0" "nd_blocks nd = nd_blocks nd0" "nd_parent nd = nd_parent nd0"
      using add_old [OF a nd0] n by auto
    obtain m mn where m: "nd_parent nd0 = Some m" "rt_nodes t m = Some mn"
      "map_of (nd_children mn) (block_key (nd_tokens nd0) ?bt) = Some n"
      using wf_parent [OF wf nd0 nr] .
    have "\<exists>mn'. rt_nodes ?t m = Some mn' \<and> map_of (nd_children mn') (block_key (nd_tokens nd0) ?bt) = Some n"
    proof (cases "m = cur")
      case True
      then have "block_key (nd_tokens nd0) ?bt \<noteq> ?key" using m k c by auto
      then show ?thesis using True m c add_nodes(2) [OF a] by (simp add: update_conv')
    next
      case False
      show ?thesis by (rule add_old [OF a m(2)]) (use False m(3) in auto)
    qed
    then show ?thesis using wf_body [OF wf nd0 nr] m(1) same by (simp add: body_ok_def)
  qed
qed

lemma add_wf:
  assumes a: "addable t cur cn leaf"
  shows "tree_wf (add_leaf t cur cn leaf)"
proof -
  let ?t = "add_leaf t cur cn leaf"
  have wf: "tree_wf t" and c: "rt_nodes t cur = Some cn" using a by (simp_all add: addable_def)
  obtain rn where rn: "rt_nodes t (rt_root t) = Some rn" "nd_parent rn = None" "nd_tokens rn = []" "nd_blocks rn = []"
    using tree_wfD(6) [OF wf] by blast
  have "root_ok ?t" by (rule add_old [OF a rn(1)]) (use rn in \<open>simp add: root_ok_def\<close>)
  moreover have "n < rt_next ?t \<and> links_ok ?t n nd \<and> (n \<noteq> rt_root ?t \<longrightarrow> body_ok ?t n nd)
      \<and> (\<exists>xs. chain (rt_nodes ?t) (rt_root ?t) n xs)" if n: "rt_nodes ?t n = Some nd" for n nd
  proof -
    have "n < rt_next t + 1 \<and> (\<exists>xs. chain (rt_nodes ?t) (rt_root t) n xs)"
      using add_dom [OF a n] tree_wfD(2,5) [OF wf] add_chain [OF a] add_leaf_chain [OF a] c
      by (metis less_Suc_eq Suc_eq_plus1)
    then show ?thesis using add_links [OF a n] add_body [OF a n] by simp
  qed
  ultimately show ?thesis unfolding tree_wf_def using tree_wfD(1) [OF wf] by simp
qed


lemma cached_iff:
  "cached t P b \<longleftrightarrow> (\<exists>n xs i. chain (rt_nodes t) (rt_root t) n xs \<and> i < length (path_blocks (rt_nodes t) xs)
     \<and> P = take ((i + 1) * rt_block_tokens t) (path (rt_nodes t) xs) \<and> b = path_blocks (rt_nodes t) xs ! i)"
  by (rule cached_def)

text \<open>The index gains the prefixes that end in the new leaf.\<close>

lemma add_leaf_path:
  assumes a: "addable t cur cn leaf" and cur: "chain (rt_nodes t) (rt_root t) cur xs"
  shows "path (rt_nodes (add_leaf t cur cn leaf)) (rt_next t # xs) = path (rt_nodes t) xs @ nd_tokens leaf"
    "path_blocks (rt_nodes (add_leaf t cur cn leaf)) (rt_next t # xs) = path_blocks (rt_nodes t) xs @ nd_blocks leaf"
  using add_path [OF a cur] add_nodes(1) [OF a] by simp_all

lemma add_cachedI:
  assumes a: "addable t cur cn leaf" and cur: "chain (rt_nodes t) (rt_root t) cur xs"
  shows "cached t P b \<Longrightarrow> cached (add_leaf t cur cn leaf) P b"
    "i < length (nd_blocks leaf) \<Longrightarrow>
       cached (add_leaf t cur cn leaf) (path (rt_nodes t) xs @ take ((i + 1) * rt_block_tokens t) (nd_tokens leaf)) (nd_blocks leaf ! i)"
proof -
  let ?t = "add_leaf t cur cn leaf" and ?bt = "rt_block_tokens t" and ?H = "rt_nodes t"
  {
    assume "cached t P b"
    then obtain n ys i where "chain ?H (rt_root t) n ys" "i < length (path_blocks ?H ys)"
      "P = take ((i + 1) * ?bt) (path ?H ys)" "b = path_blocks ?H ys ! i" unfolding cached_def by blast
    then show "cached ?t P b" unfolding cached_def using add_chain [OF a] add_path [OF a]
      by (intro exI [of _ n] exI [of _ ys] exI [of _ i]) simp
  next
    assume i: "i < length (nd_blocks leaf)"
    let ?j = "length (path_blocks ?H xs) + i"
    have wf: "tree_wf t" using a by (simp add: addable_def)
    note lp = add_leaf_path [OF a cur]
    have "(?j + 1) * ?bt = length (path ?H xs) + (i + 1) * ?bt" by (simp add: wf_path_length [OF wf cur] distrib_right)
    then have "path ?H xs @ take ((i + 1) * ?bt) (nd_tokens leaf) = take ((?j + 1) * ?bt) (path (rt_nodes ?t) (rt_next t # xs))"
      unfolding lp by simp
    moreover have "?j < length (path_blocks (rt_nodes ?t) (rt_next t # xs))"
      "nd_blocks leaf ! i = path_blocks (rt_nodes ?t) (rt_next t # xs) ! ?j" unfolding lp using i by simp_all
    ultimately show "cached ?t (path ?H xs @ take ((i + 1) * ?bt) (nd_tokens leaf)) (nd_blocks leaf ! i)"
      unfolding cached_iff [of ?t] add_leaf_simps using add_leaf_chain [OF a cur] by blast
  }
qed

lemma add_cached:
  assumes a: "addable t cur cn leaf" and cur: "chain (rt_nodes t) (rt_root t) cur xs"
  shows "cached (add_leaf t cur cn leaf) P b \<longleftrightarrow> cached t P b
     \<or> (\<exists>i < length (nd_blocks leaf). P = path (rt_nodes t) xs @ take ((i + 1) * rt_block_tokens t) (nd_tokens leaf)
          \<and> b = nd_blocks leaf ! i)" (is "?L \<longleftrightarrow> ?R")
proof
  let ?t = "add_leaf t cur cn leaf" and ?bt = "rt_block_tokens t" and ?H = "rt_nodes t"
  have wf: "tree_wf t" using a by (simp add: addable_def)
  note len = wf_path_length [OF wf cur]
  show "?R \<Longrightarrow> ?L" using add_cachedI [OF a cur] by blast
  assume ?L
  then obtain n ys i where ch: "chain (rt_nodes ?t) (rt_root t) n ys" and i: "i < length (path_blocks (rt_nodes ?t) ys)"
    "P = take ((i + 1) * ?bt) (path (rt_nodes ?t) ys)" "b = path_blocks (rt_nodes ?t) ys ! i"
    unfolding cached_def by auto
  from add_chain_inv [OF a ch] show ?R
  proof (elim disjE conjE exE)
    fix xs' assume "chain ?H (rt_root t) cur xs'" "ys = rt_next t # xs'"
    then have ys: "ys = rt_next t # xs" using chain_unique [OF cur] by blast
    note i = i [unfolded ys add_leaf_path [OF a cur]]
    show ?thesis
    proof (cases "i < length (path_blocks ?H xs)")
      case True
      then have "(i + 1) * ?bt \<le> length (path ?H xs)" unfolding len by (intro mult_le_mono1) simp
      then have "cached t P b" unfolding cached_iff [of t] using cur i True by (intro exI [of _ cur] exI [of _ xs] exI [of _ i]) (simp add: nth_append)
      then show ?thesis ..
    next
      case False
      then obtain j where j: "i = length (path_blocks ?H xs) + j" by (metis le_add_diff_inverse not_less)
      have "(i + 1) * ?bt = length (path ?H xs) + (j + 1) * ?bt" by (simp add: len j distrib_right)
      then have "P = path ?H xs @ take ((j + 1) * ?bt) (nd_tokens leaf)" using i(2) by simp
      moreover have "j < length (nd_blocks leaf)" "b = nd_blocks leaf ! j" using i(1,3) j by simp_all
      ultimately show ?thesis by blast
    qed
  next
    assume "chain ?H (rt_root t) n ys"
    then have "cached t P b" unfolding cached_iff [of t] using i add_path [OF a] by auto
    then show ?thesis ..
  qed
qed


subsection \<open>insert\<close>

definition new_leaf :: "RadixTree \<Rightarrow> TokenId list \<Rightarrow> BlockId list \<Rightarrow> nat \<Rightarrow> nat \<Rightarrow> nat \<Rightarrow> Node" where
  "new_leaf t tokens blocks cur pre lb =
     \<lparr>nd_tokens = drop (pre * rt_block_tokens t) (take (lb * rt_block_tokens t) tokens),
      nd_blocks = drop pre (take lb blocks),
      nd_children = [], nd_parent = Some cur, nd_lock = 0, nd_last = u64 (rt_clock t + 1)\<rparr>"

definition insert_blocks :: "RadixTree \<Rightarrow> TokenId list \<Rightarrow> BlockId list \<Rightarrow> nat" where
  "insert_blocks t tokens blocks = min (length tokens div rt_block_tokens t) (length blocks)"

lemma insert_blocks_fit: "insert_blocks t tokens blocks * rt_block_tokens t \<le> length tokens"
proof -
  have "insert_blocks t tokens blocks \<le> length tokens div rt_block_tokens t" by (simp add: insert_blocks_def)
  then have "insert_blocks t tokens blocks * rt_block_tokens t \<le> length tokens div rt_block_tokens t * rt_block_tokens t"
    by (rule mult_le_mono1)
  also have "\<dots> \<le> length tokens" by simp
  finally show ?thesis .
qed

lemma insert_limit_eq:
  "length blocks * rt_block_tokens t < 2 ^ 64 \<Longrightarrow>
     insert_limit t tokens blocks = insert_blocks t tokens blocks * rt_block_tokens t"
  by (simp add: insert_limit_def insert_blocks_def u64_small nat_mult_min_left)

text \<open>The three outcomes: already cached, refused on a collision, stored as a new leaf.\<close>

lemma insert_walk:
  fixes tokens :: "TokenId list"
  assumes wf: "tree_wf t" and size: "length blocks * rt_block_tokens t < 2 ^ 64"
  defines "lb \<equiv> insert_blocks t tokens blocks" and "bt \<equiv> rt_block_tokens t"
  obtains cur pre t1 xs cn res where "match_loop tokens (lb * bt) t (rt_root t) 0 \<lparr>mr_num_tokens = 0, mr_blocks = [], mr_node = None\<rparr> = Inr (cur, pre * bt, res, t1)"
    and "walk_inv t t1" and "chain (rt_nodes t1) (rt_root t1) cur xs" and "path (rt_nodes t1) xs = take (pre * bt) tokens"
    and "rt_nodes t1 cur = Some cn" and "pre \<le> lb" and "longest t tokens (lb * bt) (pre * bt)"
    and "insert_loop tokens (insert_limit t tokens blocks) t (rt_root t) 0 = Inr (cur, pre * bt, t1)"
    and "insert_limit t tokens blocks = lb * bt"
proof -
  let ?r0 = "\<lparr>mr_num_tokens = 0, mr_blocks = [], mr_node = None\<rparr>"
  have bt: "0 < bt" using tree_wfD(1) [OF wf] by (simp add: bt_def)
  have lim: "insert_limit t tokens blocks = lb * bt" using insert_limit_eq [OF size] by (simp add: lb_def bt_def)
  have ll: "lb * bt \<le> length tokens" unfolding lb_def bt_def by (rule insert_blocks_fit)
  obtain cur pos res t1 where m: "match_loop tokens (lb * bt) t (rt_root t) 0 ?r0 = Inr (cur, pos, res, t1)"
    and w: "walk_result tokens (lb * bt) t cur pos res t1"
    using match_loop_ok [OF wf ch_root, of 0 tokens "lb * bt" ?r0] ll by (auto simp: bt_def)
  have wi: "walk_inv t t1" by (rule match_loop_walk_inv [OF m wf])
  then have wf1: "tree_wf t1" and bt1: "rt_block_tokens t1 = bt" by (simp_all add: walk_inv_def bt_def)
  obtain xs where xs: "chain (rt_nodes t1) (rt_root t1) cur xs" "path (rt_nodes t1) xs = take pos tokens"
    and pos: "pos \<le> lb * bt" and long: "longest t tokens (lb * bt) pos"
    using w by (auto simp: walk_result_def)
  have "length (take pos tokens) = length (path_blocks (rt_nodes t1) xs) * bt"
    using wf_path_length [OF wf1 xs(1)] xs(2) bt1 by simp
  then obtain pre where pre: "pos = pre * bt" using pos ll by auto
  obtain cn where cn: "rt_nodes t1 cur = Some cn" using chain_node_exists [OF wf1 xs(1)] .
  have "insert_loop tokens (insert_limit t tokens blocks) t (rt_root t) 0 = Inr (cur, pre * bt, t1)"
    using insert_loop_match [of tokens "lb * bt" t "rt_root t" 0 ?r0] m pre lim by simp
  then show thesis using that [OF m [unfolded pre] wi xs [unfolded pre] cn _ long [unfolded pre] _ lim] pos pre bt by simp
qed

text \<open>The leaf for the blocks after the walk can be added, and every block of it can be referenced.\<close>

lemma new_leaf_addable:
  fixes tokens :: "TokenId list"
  assumes wf: "tree_wf t" and cn: "rt_nodes t cur = Some cn" and lt: "pre < lb" "lb \<le> length blocks" "lb * rt_block_tokens t \<le> length tokens"
    and free: "map_of (nd_children cn) (block_key (drop (pre * rt_block_tokens t) tokens) (rt_block_tokens t)) = None"
  defines "leaf \<equiv> new_leaf t tokens blocks cur pre lb"
  shows "addable t cur cn leaf" "nd_blocks leaf = drop pre (take lb blocks)"
    "block_key (nd_tokens leaf) (rt_block_tokens t) = block_key (drop (pre * rt_block_tokens t) tokens) (rt_block_tokens t)"
proof -
  let ?bt = "rt_block_tokens t"
  have len: "length (nd_tokens leaf) = length (nd_blocks leaf) * ?bt"
    using lt by (simp add: leaf_def new_leaf_def diff_mult_distrib min_def)
  have "(pre + 1) * ?bt \<le> lb * ?bt" using lt(1) by (intro mult_le_mono1) simp
  then have "take ?bt (nd_tokens leaf) = take ?bt (drop (pre * ?bt) tokens)" by (simp add: leaf_def new_leaf_def drop_take min_def)
  then show key: "block_key (nd_tokens leaf) ?bt = block_key (drop (pre * ?bt) tokens) ?bt" by (rule block_key_cong)
  show "nd_blocks leaf = drop pre (take lb blocks)" by (simp add: leaf_def new_leaf_def)
  show "addable t cur cn leaf"
    using wf cn lt(1,2) free key len by (simp add: addable_def) (simp add: leaf_def new_leaf_def)
qed

lemma incref_part:
  assumes sys: "sys_inv p" and part: "mset bs' \<subseteq># mset bs"
    and live: "\<forall>b \<in> set bs. 0 < rcount p b" and room: "\<forall>b. rcount p b + count (mset bs) b < 2 ^ 32"
  shows "\<exists>p'. foldE (\<lambda>b s. incref s b) bs' p = Inr p' \<and> sys_inv p' \<and> pool_rel p p' \<and> rcount p' = (\<lambda>b. rcount p b + count (mset bs') b)"
proof -
  have "\<forall>b \<in> set bs'. 0 < rcount p b" using live set_mset_mono [OF part] by auto
  moreover have "\<forall>b. rcount p b + count (mset bs') b < 2 ^ 32"
    using room mset_subset_eq_count [OF part] by (metis add_le_cancel_left le_less_trans)
  ultimately show ?thesis using pool.inc_all [OF sys] by blast
qed

lemma tree_insert_cases:
  fixes tokens :: "TokenId list"
  assumes wf: "tree_wf t" and sys: "sys_inv p" and size: "length blocks * rt_block_tokens t < 2 ^ 64"
    and live: "\<forall>b \<in> set blocks. 0 < rcount p b" and room: "\<forall>b. rcount p b + count (mset blocks) b < 2 ^ 32"
  defines "lb \<equiv> insert_blocks t tokens blocks" and "bt \<equiv> rt_block_tokens t"
  obtains cur pre t1 xs cn res where "match_loop tokens (lb * bt) t (rt_root t) 0 \<lparr>mr_num_tokens = 0, mr_blocks = [], mr_node = None\<rparr> = Inr (cur, pre * bt, res, t1)"
    and "walk_inv t t1" and "chain (rt_nodes t1) (rt_root t1) cur xs" and "path (rt_nodes t1) xs = take (pre * bt) tokens"
    and "rt_nodes t1 cur = Some cn" and "pre \<le> lb" and "longest t tokens (lb * bt) (pre * bt)"
    and "(pre = lb \<and> (\<exists>t2. touch t1 cur = Inr t2 \<and> tree_insert t p tokens blocks = Inr (0, t2, p)))
       \<or> (pre < lb \<and> map_of (nd_children cn) (block_key (drop (pre * bt) tokens) bt) \<noteq> None
            \<and> tree_insert t p tokens blocks = Inr (0, t1\<lparr>rt_collisions := u64 (rt_collisions t1 + 1)\<rparr>, p))
       \<or> (pre < lb \<and> map_of (nd_children cn) (block_key (drop (pre * bt) tokens) bt) = None
            \<and> addable t1 cur cn (new_leaf t1 tokens blocks cur pre lb)
            \<and> (\<exists>p'. tree_insert t p tokens blocks
                   = Inr (lb - pre, add_leaf t1 cur cn (new_leaf t1 tokens blocks cur pre lb), p')
                 \<and> sys_inv p' \<and> pool_rel p p'
                 \<and> rcount p' = (\<lambda>b. rcount p b + count (mset (drop pre (take lb blocks))) b)))"
proof -
  obtain cur pre t1 xs cn res where w: "match_loop tokens (lb * bt) t (rt_root t) 0 \<lparr>mr_num_tokens = 0, mr_blocks = [], mr_node = None\<rparr> = Inr (cur, pre * bt, res, t1)"
    "walk_inv t t1" "chain (rt_nodes t1) (rt_root t1) cur xs" "path (rt_nodes t1) xs = take (pre * bt) tokens"
    "rt_nodes t1 cur = Some cn" "pre \<le> lb" "longest t tokens (lb * bt) (pre * bt)"
    and il: "insert_loop tokens (insert_limit t tokens blocks) t (rt_root t) 0 = Inr (cur, pre * bt, t1)"
    and lim: "insert_limit t tokens blocks = lb * bt"
    unfolding lb_def bt_def by (rule insert_walk [OF wf size])
  have bt: "0 < bt" using tree_wfD(1) [OF wf] by (simp add: bt_def)
  have wf1: "tree_wf t1" and bt1: "rt_block_tokens t1 = bt" using w(2) by (simp_all add: walk_inv_def bt_def)
  have lbs: "lb \<le> length blocks" "lb * rt_block_tokens t1 \<le> length tokens"
    using insert_blocks_fit [of t tokens blocks] by (simp_all add: lb_def bt1 insert_blocks_def) (simp add: bt_def)
  let ?leaf = "new_leaf t1 tokens blocks cur pre lb" and ?key = "block_key (drop (pre * bt) tokens) bt"
  consider "pre = lb" | "pre < lb" "map_of (nd_children cn) ?key \<noteq> None" | "pre < lb" "map_of (nd_children cn) ?key = None"
    using w(6) by fastforce
  then show thesis
  proof cases
    case 1
    obtain t2 where "touch t1 cur = Inr t2" using touch_ok [OF w(5)] by blast
    then show thesis using 1 il lim by (intro that [OF w]) (simp add: tree_insert_def Let_def)
  next
    case 2
    then have "\<not> lb * bt \<le> pre * bt" using bt by simp
    then show thesis using 2 il lim w(5) by (intro that [OF w]) (simp add: tree_insert_def Let_def bt_def)
  next
    case 3
    note L = new_leaf_addable [OF wf1 w(5) 3(1) lbs 3(2) [folded bt1]]
    have "mset (drop pre (take lb blocks)) \<subseteq># mset blocks"
      by (metis append_take_drop_id mset_append mset_subset_eq_add_left mset_subset_eq_add_right subset_mset.order_trans)
    then obtain p' where p': "foldE (\<lambda>b s. incref s b) (nd_blocks ?leaf) p = Inr p'" "sys_inv p'" "pool_rel p p'"
      "rcount p' = (\<lambda>b. rcount p b + count (mset (drop pre (take lb blocks))) b)"
      using incref_part [OF sys _ live room] L(2) by metis
    have "\<not> lb * bt \<le> pre * bt" using 3(1) bt by simp
    then have "tree_insert t p tokens blocks = Inr (lb - pre, add_leaf t1 cur cn ?leaf, p')"
      using il lim w(5) 3 p'(1) L(3) lbs(1) bt bt1
      by (simp add: tree_insert_def Let_def bt_def new_leaf_def add_leaf_def min_def)
    then show thesis using 3 L(1) p'(2-4) by (intro that [OF w]) blast
  qed
qed


lemma new_leaf_index:
  assumes "pre * bt \<le> length tokens" and "lb \<le> length blocks" "lb * bt \<le> length tokens"
  shows "(\<exists>i < length (drop pre (take lb blocks)).
       P = take (pre * bt) tokens @ take ((i + 1) * bt) (drop (pre * bt) (take (lb * bt) tokens))
       \<and> b = drop pre (take lb blocks) ! i)
     \<longleftrightarrow> (\<exists>i. pre \<le> i \<and> i < lb \<and> P = take ((i + 1) * bt) tokens \<and> b = blocks ! i)"
proof -
  have tk: "take (pre * bt) tokens @ take ((i + 1) * bt) (drop (pre * bt) (take (lb * bt) tokens))
      = take ((pre + i + 1) * bt) tokens" if "pre + i < lb" for i
  proof -
    have "(pre + i + 1) * bt \<le> lb * bt" using that by (intro mult_le_mono1) simp
    then have "(i + 1) * bt \<le> lb * bt - pre * bt" by (simp add: distrib_right)
    then have "take ((i + 1) * bt) (drop (pre * bt) (take (lb * bt) tokens)) = take ((i + 1) * bt) (drop (pre * bt) tokens)"
      by (simp add: drop_take min_def)
    then show ?thesis by (simp add: add_mult_distrib2 ac_simps flip: take_add)
  qed
  show ?thesis
  proof (intro iffI; elim exE conjE)
    fix i assume "i < length (drop pre (take lb blocks))"
      "P = take (pre * bt) tokens @ take ((i + 1) * bt) (drop (pre * bt) (take (lb * bt) tokens))"
      "b = drop pre (take lb blocks) ! i"
    then show "\<exists>i. pre \<le> i \<and> i < lb \<and> P = take ((i + 1) * bt) tokens \<and> b = blocks ! i"
      using tk [of i] assms(2) by (intro exI [of _ "pre + i"]) auto
  next
    fix i assume "pre \<le> i" "i < lb" "P = take ((i + 1) * bt) tokens" "b = blocks ! i"
    then show "\<exists>i < length (drop pre (take lb blocks)).
       P = take (pre * bt) tokens @ take ((i + 1) * bt) (drop (pre * bt) (take (lb * bt) tokens))
       \<and> b = drop pre (take lb blocks) ! i"
      using tk [of "i - pre"] assms(2) by (intro exI [of _ "i - pre"]) auto
  qed
qed

text \<open>
  Where the walk ends, the slot of the next block is occupied exactly when some cached prefix continues
  the matched one by a different block with the same key (\<open>key_taken\<close>, over the set of cached prefixes).
\<close>

definition key_taken :: "TokenId list set \<Rightarrow> nat \<Rightarrow> TokenId list \<Rightarrow> nat \<Rightarrow> bool" where
  "key_taken C bt toks pre \<longleftrightarrow> (\<exists>P \<in> C. length P = (pre + 1) * bt \<and> take (pre * bt) P = take (pre * bt) toks
     \<and> take bt (drop (pre * bt) P) \<noteq> take bt (drop (pre * bt) toks)
     \<and> block_key (drop (pre * bt) P) bt = block_key (drop (pre * bt) toks) bt)"

lemma slot_cached:
  assumes wf: "tree_wf t" and cur: "chain (rt_nodes t) (rt_root t) cur xs" "rt_nodes t cur = Some cn"
    and a: "map_of (nd_children cn) key = Some a" and len: "length (path (rt_nodes t) xs) = pre * rt_block_tokens t"
  shows "\<exists>P b. cached t P b \<and> length P = (pre + 1) * rt_block_tokens t \<and> take (pre * rt_block_tokens t) P = path (rt_nodes t) xs
     \<and> block_key (drop (pre * rt_block_tokens t) P) (rt_block_tokens t) = key"
proof -
  let ?bt = "rt_block_tokens t" and ?H = "rt_nodes t"
  obtain an where an: "?H a = Some an" "a \<noteq> rt_root t" "key = block_key (nd_tokens an) ?bt" using wf_child [OF wf cur(2) a] .
  note ch = chain_child [OF wf cur a] and body = wf_body [OF wf an(1,2)]
  have pb: "length (path_blocks ?H xs) = pre" using wf_path_length [OF wf cur(1)] len tree_wfD(1) [OF wf] by simp
  have al: "?bt \<le> length (nd_tokens an)" using body(1,2) by (cases "nd_blocks an") auto
  let ?P = "path ?H xs @ take ?bt (nd_tokens an)"
  have "take ((pre + 1) * ?bt) (path ?H (a # xs)) = ?P" using an(1) len by simp
  moreover have "pre < length (path_blocks ?H (a # xs))" using an(1) pb body(1) by simp
  ultimately have "cached t ?P (path_blocks ?H (a # xs) ! pre)" unfolding cached_def using ch by metis
  moreover have "block_key (drop (pre * ?bt) ?P) ?bt = key" using len by (simp add: an(3) block_key_take)
  ultimately show ?thesis using len al by (intro exI [of _ ?P] exI) (simp add: min_absorb2)
qed

lemma cached_slot:
  assumes wf: "tree_wf t" and cur: "chain (rt_nodes t) (rt_root t) cur xs" "rt_nodes t cur = Some cn"
    and P: "cached t P b" "length P = (pre + 1) * rt_block_tokens t" "take (pre * rt_block_tokens t) P = path (rt_nodes t) xs"
  shows "map_of (nd_children cn) (block_key (drop (pre * rt_block_tokens t) P) (rt_block_tokens t)) \<noteq> None"
proof -
  let ?bt = "rt_block_tokens t" and ?H = "rt_nodes t"
  obtain n ys i where y: "chain ?H (rt_root t) n ys" "i < length (path_blocks ?H ys)" "P = take ((i + 1) * ?bt) (path ?H ys)"
    using P(1) unfolding cached_def by blast
  have "(i + 1) * ?bt \<le> length (path ?H ys)" unfolding wf_path_length [OF wf y(1)] using y(2) by (intro mult_le_mono1) simp
  then have K: "length P \<le> length (path ?H ys)" "take (length P) (path ?H ys) = take (length P) P" using y(3) by auto
  have bt: "?bt dvd length P" "pre * ?bt \<le> length P" "pre * ?bt < length P" using P(2) tree_wfD(1) [OF wf] by simp_all
  obtain zs where zs: "ys = zs @ xs" using chains_meet [OF wf cur(1) y(1) P(3) [symmetric] bt(2) K bt(1,2) order_refl] by blast
  show ?thesis using meet_child [OF wf cur y(1) [unfolded zs] P(3) [symmetric] bt(2) K [unfolded zs] bt(1,3) order_refl] by auto
qed

lemma slot_taken:
  assumes wf: "tree_wf t" and cur: "chain (rt_nodes t) (rt_root t) cur xs" "rt_nodes t cur = Some cn"
    and xs: "path (rt_nodes t) xs = take (pre * rt_block_tokens t) toks" and le: "(pre + 1) * rt_block_tokens t \<le> length toks"
    and new: "\<nexists>b. cached t (take ((pre + 1) * rt_block_tokens t) toks) b"
  shows "map_of (nd_children cn) (block_key (drop (pre * rt_block_tokens t) toks) (rt_block_tokens t)) \<noteq> None
     \<longleftrightarrow> key_taken {P. \<exists>b. cached t P b} (rt_block_tokens t) toks pre"
proof
  let ?bt = "rt_block_tokens t" and ?key = "block_key (drop (pre * rt_block_tokens t) toks) (rt_block_tokens t)"
  have len: "length (path (rt_nodes t) xs) = pre * ?bt" using xs le by simp
  assume "map_of (nd_children cn) ?key \<noteq> None"
  then obtain a where "map_of (nd_children cn) ?key = Some a" by blast
  from slot_cached [OF wf cur this len] obtain P b where P: "cached t P b" "length P = (pre + 1) * ?bt"
    "take (pre * ?bt) P = take (pre * ?bt) toks" "block_key (drop (pre * ?bt) P) ?bt = ?key" using xs by auto
  have "take bt (drop n P) = take bt (drop n toks) \<Longrightarrow> take n P = take n toks \<Longrightarrow> take (n + bt) P = take (n + bt) toks" for n bt
    by (simp add: take_add)
  from this [of ?bt "pre * ?bt"] P(1-3) new have "take ?bt (drop (pre * ?bt) P) \<noteq> take ?bt (drop (pre * ?bt) toks)" by (auto simp: add.commute)
  then show "key_taken {P. \<exists>b. cached t P b} ?bt toks pre" using P unfolding key_taken_def by blast
next
  assume "key_taken {P. \<exists>b. cached t P b} (rt_block_tokens t) toks pre"
  then obtain P b where P: "cached t P b" "length P = (pre + 1) * rt_block_tokens t"
    "take (pre * rt_block_tokens t) P = take (pre * rt_block_tokens t) toks"
    "block_key (drop (pre * rt_block_tokens t) P) (rt_block_tokens t) = block_key (drop (pre * rt_block_tokens t) toks) (rt_block_tokens t)"
    unfolding key_taken_def by blast
  from cached_slot [OF wf cur P(1,2)] P(3)
  show "map_of (nd_children cn) (block_key (drop (pre * rt_block_tokens t) toks) (rt_block_tokens t)) \<noteq> None" unfolding P(4) xs by blast
qed

text \<open>
  The index after \<^verbatim>\<open>insert()\<close>: what was there, and the suffix of the sequence beyond its
  longest cached prefix (\<open>pre\<close> blocks), unless the slot of its next block is taken. A call that adds nothing leaves the index as the walk left it, and what the walk matched was cached.\<close>

lemma walked_same:
  assumes walk: "tree_wf t1" "rt_block_tokens t1 = bt" "\<And>P b. cached t1 P b \<longleftrightarrow> cached t P b" and s: "same_shape t1 t2"
  shows "tree_wf t2" "rt_block_tokens t2 = bt" "cached t2 P b \<longleftrightarrow> cached t P b"
  using same_shape_wf [OF s walk(1)] same_shape_cached [OF s] walk(2,3) s by (auto simp: same_shape_def)

lemma walked_cached:
  assumes wf: "tree_wf t1" and xs: "chain (rt_nodes t1) (rt_root t1) cur xs" "path (rt_nodes t1) xs = take (pre * rt_block_tokens t1) toks"
    and le: "pre * rt_block_tokens t1 \<le> length toks" and i: "i < pre"
  shows "\<exists>b. cached t1 (take ((i + 1) * rt_block_tokens t1) toks) b"
proof -
  have "length (path_blocks (rt_nodes t1) xs) * rt_block_tokens t1 = pre * rt_block_tokens t1"
    using wf_path_length [OF wf xs(1)] xs(2) le by auto
  then have "length (path_blocks (rt_nodes t1) xs) = pre" using tree_wfD(1) [OF wf] by simp
  then show ?thesis using cached_path [OF xs wf le] i by auto
qed

lemma tree_insert_index:
  fixes tokens :: "TokenId list"
  assumes wf: "tree_wf t" and sys: "sys_inv p" and size: "length blocks * rt_block_tokens t < 2 ^ 64"
    and live: "\<forall>b \<in> set blocks. 0 < rcount p b" and room: "\<forall>b. rcount p b + count (mset blocks) b < 2 ^ 32"
  defines "lb \<equiv> insert_blocks t tokens blocks" and "bt \<equiv> rt_block_tokens t"
  shows "\<exists>k t' p' pre. tree_insert t p tokens blocks = Inr (k, t', p') \<and> tree_wf t' \<and> sys_inv p' \<and> pool_rel p p'
     \<and> rt_block_tokens t' = bt \<and> pre \<le> lb \<and> longest t tokens (lb * bt) (pre * bt) \<and> (k = 0 \<or> k = lb - pre)
     \<and> k = (if key_taken {P. \<exists>b. cached t P b} bt tokens pre then 0 else lb - pre)
     \<and> (\<forall>i < pre. \<exists>b. cached t (take ((i + 1) * bt) tokens) b)
     \<and> rcount p' = (\<lambda>b. rcount p b + count (mset (take k (drop pre blocks))) b)
     \<and> (\<forall>P b. cached t' P b \<longleftrightarrow> cached t P b
          \<or> (\<exists>i. pre \<le> i \<and> i < pre + k \<and> P = take ((i + 1) * bt) tokens \<and> b = blocks ! i))
     \<and> rt_collisions t' = (if k = 0 \<and> pre < lb then u64 (rt_collisions t + 1) else rt_collisions t)"
proof (rule tree_insert_cases [OF wf sys size live room, of tokens], fold lb_def bt_def, goal_cases)
  case (1 cur pre t1 xs cn res)
  have cached1: "cached t1 P b \<longleftrightarrow> cached t P b" for P b using 1(2) unfolding walk_inv_def by blast
  have w1: "tree_wf t1" "rt_block_tokens t1 = bt" "rt_collisions t1 = rt_collisions t"
    using 1(2) unfolding walk_inv_def bt_def by blast+
  have lbl: "lb * bt \<le> length tokens" unfolding lb_def bt_def by (rule insert_blocks_fit)
  have pl: "pre * bt \<le> length tokens" using mult_le_mono1 [OF 1(6), of bt] lbl by linarith
  have pc: "\<forall>i < pre. \<exists>b. cached t (take ((i + 1) * bt) tokens) b"
    using walked_cached [OF w1(1) 1(3), of pre tokens] 1(4) pl w1(2) cached1 by simp
  note same = walked_same [of t1 bt t, OF w1(1,2) cached1]
  have tk: "map_of (nd_children cn) (block_key (drop (pre * bt) tokens) bt) \<noteq> None \<longleftrightarrow> key_taken {P. \<exists>b. cached t P b} bt tokens pre"
    if less: "pre < lb"
  proof -
    have K: "(pre + 1) * bt \<le> lb * bt" using less by (intro mult_le_mono1) simp
    have "\<not> cached t (take ((pre + 1) * bt) tokens) b" for b
    proof
      assume "cached t (take ((pre + 1) * bt) tokens) b"
      from longest_cached [OF wf 1(7) this] show False using K lbl tree_wfD(1) [OF wf] by (simp add: bt_def)
    qed
    then show ?thesis using slot_taken [OF w1(1) 1(3,5), of pre tokens] 1(4) K lbl unfolding w1(2) cached1 by auto
  qed
  from 1(8) consider (old) t2 where "pre = lb" "touch t1 cur = Inr t2" "tree_insert t p tokens blocks = Inr (0, t2, p)"
    | (hit) "pre < lb" "key_taken {P. \<exists>b. cached t P b} bt tokens pre" "tree_insert t p tokens blocks = Inr (0, t1\<lparr>rt_collisions := u64 (rt_collisions t1 + 1)\<rparr>, p)"
    | (add) p' where "pre < lb" "addable t1 cur cn (new_leaf t1 tokens blocks cur pre lb)"
       "tree_insert t p tokens blocks = Inr (lb - pre, add_leaf t1 cur cn (new_leaf t1 tokens blocks cur pre lb), p')"
       "sys_inv p'" "pool_rel p p'" "rcount p' = (\<lambda>b. rcount p b + count (mset (drop pre (take lb blocks))) b)"
       "\<not> key_taken {P. \<exists>b. cached t P b} bt tokens pre"
    using tk by blast
  then show ?case
  proof cases
    case old
    from old(2) have s: "same_shape t1 t2" and c: "rt_collisions t2 = rt_collisions t1" by (auto elim: touch_inv)
    show ?thesis
      using same [OF s] old(1,3) sys pool_rel_refl 1(6,7) c w1(3) pc
      by - (rule exI [of _ "0::nat"], rule exI [of _ t2], rule exI [of _ p], rule exI [of _ pre], auto)
  next
    case hit
    let ?t = "t1\<lparr>rt_collisions := u64 (rt_collisions t1 + 1)\<rparr>"
    have s: "same_shape t1 ?t" by simp
    show ?thesis
      using same [OF s] hit sys pool_rel_refl 1(6,7) w1(3) pc
      by - (rule exI [of _ "0::nat"], rule exI [of _ ?t], rule exI [of _ p], rule exI [of _ pre], auto)
  next
    case add
    let ?leaf = "new_leaf t1 tokens blocks cur pre lb"
    have lbb: "lb \<le> length blocks" by (simp add: lb_def insert_blocks_def)
    have "cached (add_leaf t1 cur cn ?leaf) P b \<longleftrightarrow> cached t P b
        \<or> (\<exists>i. pre \<le> i \<and> i < pre + (lb - pre) \<and> P = take ((i + 1) * bt) tokens \<and> b = blocks ! i)" for P b
      unfolding add_cached [OF add(2) 1(3)] cached1 1(4) w1(2)
      using new_leaf_index [OF pl lbb lbl, of P b] 1(6) by (simp add: new_leaf_def w1(2))
    moreover have "take (lb - pre) (drop pre blocks) = drop pre (take lb blocks)" by (simp add: drop_take)
    ultimately show ?thesis
      using add 1(6,7) add_wf [OF add(2)] w1 pc
      by - (rule exI [of _ "lb - pre"], rule exI [of _ "add_leaf t1 cur cn ?leaf"], rule exI [of _ p'], rule exI [of _ pre], auto)
  qed
qed

end
