(* ===== verification/Radix_Pins.thy ===== *)
theory Radix_Pins
  imports Radix_Insert
begin

section \<open>The prefix tree: pins, stored blocks and counters\<close>

text \<open>
  \<open>pins\<close> is the multiset of nodes that clients have locked and not yet unlocked. The
  invariant \<open>tree_inv\<close> adds to the shape invariant that the lock count of every node is the
  number of pins whose way to the root passes through it, and that the two counters of the
  class are the numbers of nodes and stored blocks modulo \<open>2 ^ 64\<close>. \<open>keeps\<close> says
  that what a pinned node stands for, the tokens and blocks from the root down to it, is the
  same before and after an operation.
\<close>

subsection \<open>Definitions\<close>

definition anc :: "RadixTree \<Rightarrow> nat \<Rightarrow> nat set" where
  "anc t n = {x. \<exists>xs. chain (rt_nodes t) (rt_root t) n xs \<and> x \<in> set xs}"

definition pins_ok :: "RadixTree \<Rightarrow> nat multiset \<Rightarrow> bool" where
  "pins_ok t pins \<longleftrightarrow> (\<forall>m \<in># pins. m \<noteq> rt_root t \<and> rt_nodes t m \<noteq> None)
     \<and> (\<forall>n nd. rt_nodes t n = Some nd \<longrightarrow> n \<noteq> rt_root t \<longrightarrow> nd_lock nd = size {#m \<in># pins. n \<in> anc t m#})"

definition tree_blocks :: "RadixTree \<Rightarrow> BlockId multiset" where
  "tree_blocks t = (\<Sum>n \<in> dom (rt_nodes t). mset (nd_blocks (the (rt_nodes t n))))"

definition counts_ok :: "RadixTree \<Rightarrow> bool" where
  "counts_ok t \<longleftrightarrow> rt_num_nodes t = u64 (card (dom (rt_nodes t)) - 1)
     \<and> rt_stored_blocks t = u64 (size (tree_blocks t))"

definition tree_inv :: "RadixTree \<Rightarrow> nat multiset \<Rightarrow> bool" where
  "tree_inv t pins \<longleftrightarrow> tree_wf t \<and> pins_ok t pins \<and> counts_ok t"

definition keeps :: "RadixTree \<Rightarrow> RadixTree \<Rightarrow> nat \<Rightarrow> bool" where
  "keeps t t' n \<longleftrightarrow> (\<forall>xs. chain (rt_nodes t) (rt_root t) n xs \<longrightarrow>
     (\<exists>ys. chain (rt_nodes t') (rt_root t') n ys \<and> path (rt_nodes t') ys = path (rt_nodes t) xs
         \<and> path_blocks (rt_nodes t') ys = path_blocks (rt_nodes t) xs))"

definition same_index :: "RadixTree \<Rightarrow> RadixTree \<Rightarrow> bool" where
  "same_index t t' \<longleftrightarrow> tree_blocks t' = tree_blocks t \<and> (\<forall>n. keeps t t' n)"

lemma tree_invD:
  assumes "tree_inv t pins"
  shows "tree_wf t" "pins_ok t pins" "counts_ok t"
  using assms by (simp_all add: tree_inv_def)

lemma anc_chain: "chain (rt_nodes t) (rt_root t) n xs \<Longrightarrow> anc t n = set xs"
  unfolding anc_def using chain_unique by blast

lemma keeps_refl [simp]: "keeps t t n"
  by (auto simp: keeps_def)

lemma keeps_trans: "keeps t t' n \<Longrightarrow> keeps t' t'' n \<Longrightarrow> keeps t t'' n"
  unfolding keeps_def by metis

lemma same_index_refl [simp]: "same_index t t"
  by (simp add: same_index_def)

lemma same_index_trans: "same_index t t' \<Longrightarrow> same_index t' t'' \<Longrightarrow> same_index t t''"
  unfolding same_index_def using keeps_trans by metis

lemma wf_finite: "tree_wf t \<Longrightarrow> finite (dom (rt_nodes t))"
proof -
  assume wf: "tree_wf t"
  have "dom (rt_nodes t) \<subseteq> {..<rt_next t}" using tree_wfD(2) [OF wf] by auto
  then show ?thesis using finite_subset by blast
qed

lemma wf_root_dom: "tree_wf t \<Longrightarrow> rt_root t \<in> dom (rt_nodes t)"
  using tree_wfD(6) by blast

lemma wf_chain: assumes "tree_wf t" and "rt_nodes t n = Some nd"
  obtains xs where "chain (rt_nodes t) (rt_root t) n xs"
  using tree_wfD(5) [OF assms] by blast

lemma tree_inv_new: "RadixTree_new bt = Inr t \<Longrightarrow> tree_inv t {#} \<and> tree_blocks t = {#}"
  using tree_wf_new [of bt t]
  by (auto simp: tree_inv_def pins_ok_def counts_ok_def tree_blocks_def RadixTree_new_def result_simps
      fresh_node_def u64_def split: if_splits)

subsection \<open>Changes that keep the shape\<close>

lemma same_shape_anc: "same_shape t t' \<Longrightarrow> anc t' n = anc t n"
  unfolding anc_def by (simp only: same_shape_chain)

lemma same_shape_dom: "same_shape t t' \<Longrightarrow> dom (rt_nodes t') = dom (rt_nodes t)"
  unfolding same_shape_def dom_def by (metis (mono_tags) option.map_disc_iff)

lemma same_shape_index: "same_shape t t' \<Longrightarrow> same_index t t'"
  unfolding same_index_def keeps_def tree_blocks_def
  by (simp add: same_shape_dom same_shape_the(2) same_shape_chain same_shape_path) blast

lemma same_shape_inv:
  assumes s: "same_shape t t'" and inv: "tree_inv t pins"
    and cnt: "rt_num_nodes t' = rt_num_nodes t" "rt_stored_blocks t' = rt_stored_blocks t"
    and lock: "\<And>n nd nd'. rt_nodes t n = Some nd \<Longrightarrow> rt_nodes t' n = Some nd' \<Longrightarrow> nd_lock nd' = nd_lock nd"
  shows "tree_inv t' pins"
proof -
  note D = tree_invD [OF inv]
  have eq: "dom (rt_nodes t') = dom (rt_nodes t)" "rt_root t' = rt_root t" "tree_blocks t' = tree_blocks t"
    using same_shape_dom [OF s] same_shape_index [OF s] s by (auto simp: same_index_def same_shape_def)
  have "\<forall>m \<in># pins. m \<noteq> rt_root t' \<and> rt_nodes t' m \<noteq> None"
    using D(2) eq(1,2) unfolding pins_ok_def by (metis domIff)
  moreover have "nd_lock nd' = size {#m \<in># pins. n \<in> anc t' m#}"
    if n: "rt_nodes t' n = Some nd'" "n \<noteq> rt_root t'" for n nd'
  proof -
    obtain nd where nd: "rt_nodes t n = Some nd" using n(1) eq(1) by blast
    then show ?thesis using D(2) n lock [OF nd n(1)] same_shape_anc [OF s] eq(2) by (simp add: pins_ok_def)
  qed
  ultimately show ?thesis
    using same_shape_wf [OF s D(1)] D(3) eq cnt by (simp add: tree_inv_def pins_ok_def counts_ok_def)
qed

lemma touch_tree:
  assumes "touch t n = Inr t'" and "tree_inv t pins"
  shows "tree_inv t' pins" "same_index t t'"
proof -
  from assms(1) obtain nd where t: "rt_nodes t n = Some nd" "same_shape t t'" "rt_stored_blocks t' = rt_stored_blocks t"
    "rt_num_nodes t' = rt_num_nodes t" "rt_nodes t' = (rt_nodes t)(n \<mapsto> nd\<lparr>nd_last := u64 (rt_clock t + 1)\<rparr>)"
    by (rule touch_inv) blast
  show "tree_inv t' pins"
    by (rule same_shape_inv [OF t(2) assms(2)]) (use t in \<open>auto split: if_splits\<close>)
  show "same_index t t'" by (rule same_shape_index [OF t(2)])
qed

subsection \<open>Splitting\<close>

lemma set_with_head: "set (with_head t c xs) = set xs \<union> (if c \<in> set xs then {rt_next t} else {})"
  by (induction xs) auto

lemma split_anc:
  assumes s: "splittable t c cn q qn k" and m: "rt_nodes t m = Some mn"
  shows "anc (split_tree t c cn q qn k) m = anc t m \<union> (if c \<in> anc t m then {rt_next t} else {})"
proof -
  have wf: "tree_wf t" using s by (simp add: splittable_def)
  obtain xs where xs: "chain (rt_nodes t) (rt_root t) m xs" using wf_chain [OF wf m] .
  show ?thesis
    using anc_chain [OF xs] anc_chain [of "split_tree t c cn q qn k" m "with_head t c xs"] split_chain [OF s xs]
    by (simp add: set_with_head)
qed

lemma anc_dom: "x \<in> anc t m \<Longrightarrow> rt_nodes t x \<noteq> None \<and> x \<noteq> rt_root t"
  unfolding anc_def using chain_mem by fastforce

lemma split_domain:
  assumes s: "splittable t c cn q qn k"
  shows "dom (rt_nodes (split_tree t c cn q qn k)) = insert (rt_next t) (dom (rt_nodes t))"
  using s by (auto simp: split_tree_def splittable_def)

lemma split_pins:
  assumes s: "splittable t c cn q qn k" and p: "pins_ok t pins"
  shows "pins_ok (split_tree t c cn q qn k) pins"
proof -
  let ?t = "split_tree t c cn q qn k"
  have c: "rt_nodes t c = Some cn" "c \<noteq> rt_root t" using s by (simp_all add: splittable_def)
  have fresh: "rt_nodes t (rt_next t) = None" by (rule splittable_distinct(5) [OF s])
  have pd: "\<And>m. m \<in># pins \<Longrightarrow> \<exists>mn. rt_nodes t m = Some mn" "\<And>m. m \<in># pins \<Longrightarrow> m \<noteq> rt_root t"
    using p by (auto simp: pins_ok_def)
  have lk: "\<And>n nd. rt_nodes t n = Some nd \<Longrightarrow> n \<noteq> rt_root t \<Longrightarrow> nd_lock nd = size {#m \<in># pins. n \<in> anc t m#}"
    using p by (simp add: pins_ok_def)
  have ancs: "anc ?t m = anc t m \<union> (if c \<in> anc t m then {rt_next t} else {})" if "m \<in># pins" for m
    using split_anc [OF s] pd(1) [OF that] by blast
  have old: "{#m \<in># pins. n \<in> anc ?t m#} = {#m \<in># pins. n \<in> anc t m#}" if "n \<noteq> rt_next t" for n
    by (rule filter_mset_cong) (use ancs that in \<open>auto split: if_splits\<close>)
  have new: "{#m \<in># pins. rt_next t \<in> anc ?t m#} = {#m \<in># pins. c \<in> anc t m#}"
    by (rule filter_mset_cong) (use ancs fresh anc_dom [of "rt_next t" t] in \<open>auto split: if_splits\<close>)
  have "nd_lock nd = size {#m \<in># pins. n \<in> anc ?t m#}" if n: "rt_nodes ?t n = Some nd" "n \<noteq> rt_root t" for n nd
  proof -
    consider "n = rt_next t" | "n = c" "n \<noteq> rt_next t" | nd0 where "n \<noteq> c" "n \<noteq> rt_next t" "rt_nodes t n = Some nd0"
      using split_dom [OF s n(1)] by blast
    then show ?thesis
    proof cases
      case 1
      then have "nd = split_head t c cn k" using n split_nodes(2) [OF s] by simp
      then show ?thesis using 1 lk [OF c] new by (simp add: split_head_def)
    next
      case 2
      then have "nd = split_tail t cn k" using n split_nodes(1) [OF s] by simp
      then show ?thesis using 2 lk [OF c] old by (simp add: split_tail_def)
    next
      case 3
      obtain nd' where "rt_nodes ?t n = Some nd'" "nd_lock nd' = nd_lock nd0" using split_other [OF s 3(1,3)] .
      then show ?thesis using n lk [OF 3(3)] old [OF 3(2)] by simp
    qed
  qed
  then show ?thesis using pd split_domain [OF s] by (force simp: pins_ok_def)
qed

lemma split_blocks:
  assumes s: "splittable t c cn q qn k"
  shows "tree_blocks (split_tree t c cn q qn k) = tree_blocks t"
proof -
  let ?t = "split_tree t c cn q qn k" and ?D = "dom (rt_nodes t)"
  have wf: "tree_wf t" and c: "rt_nodes t c = Some cn" using s by (simp_all add: splittable_def)
  have fin: "finite ?D" by (rule wf_finite [OF wf])
  have new: "rt_next t \<notin> ?D" using splittable_distinct(5) [OF s] by auto
  have cd: "c \<in> ?D" using c by auto
  have oth: "mset (nd_blocks (the (rt_nodes ?t n))) = mset (nd_blocks (the (rt_nodes t n)))" if n: "n \<in> ?D - {c}" for n
  proof -
    obtain nd where nd: "n \<noteq> c" "rt_nodes t n = Some nd" using n by blast
    show ?thesis by (rule split_other [OF s nd]) (simp add: nd)
  qed
  have "tree_blocks ?t = mset (take k (nd_blocks cn)) + (\<Sum>n \<in> ?D. mset (nd_blocks (the (rt_nodes ?t n))))"
    unfolding tree_blocks_def split_domain [OF s] using fin new split_nodes(2) [OF s] by (simp add: split_head_def)
  also have "(\<Sum>n \<in> ?D. mset (nd_blocks (the (rt_nodes ?t n)))) = mset (drop k (nd_blocks cn)) +
      (\<Sum>n \<in> ?D - {c}. mset (nd_blocks (the (rt_nodes ?t n))))"
    unfolding sum.remove [OF fin cd] split_nodes(1) [OF s] by (simp add: split_tail_def)
  also have "(\<Sum>n \<in> ?D - {c}. mset (nd_blocks (the (rt_nodes ?t n)))) = (\<Sum>n \<in> ?D - {c}. mset (nd_blocks (the (rt_nodes t n))))"
    by (rule sum.cong [OF refl oth])
  finally have "tree_blocks ?t = mset (nd_blocks cn) + (\<Sum>n \<in> ?D - {c}. mset (nd_blocks (the (rt_nodes t n))))"
    by (simp add: mset_take_drop flip: add.assoc)
  also have "\<dots> = tree_blocks t" unfolding tree_blocks_def sum.remove [OF fin cd] using c by simp
  finally show ?thesis .
qed

lemma card_dom_pos: "tree_wf t \<Longrightarrow> 0 < card (dom (rt_nodes t))"
  using wf_root_dom [of t] wf_finite [of t] unfolding card_gt_0_iff by blast

lemma split_tree_inv:
  assumes res: "split_node t c off = Inr (h, t')" and inv: "tree_inv t pins"
  shows "tree_inv t' pins" "same_index t t'"
proof -
  note D = tree_invD [OF inv]
  obtain cn q qn k where s: "splittable t c cn q qn k" and t': "t' = split_tree t c cn q qn k"
    using split_node_inv [OF D(1) res] .
  have "card (dom (rt_nodes t')) = Suc (card (dom (rt_nodes t)))"
    unfolding t' split_domain [OF s] using wf_finite [OF D(1)] splittable_distinct(5) [OF s] by (simp add: domIff)
  then have "counts_ok t'" using D(3) card_dom_pos [OF D(1)] split_blocks [OF s] by (simp add: counts_ok_def t')
  then show "tree_inv t' pins" using split_wf [OF s] split_pins [OF s D(2)] by (simp add: tree_inv_def t')
  show "same_index t t'"
    using split_blocks [OF s] split_chain [OF s] split_path [OF s] by (fastforce simp: same_index_def keeps_def t')
qed

lemma match_loop_tree:
  assumes "match_loop toks limit t cur pos res = Inr (cur', pos', res', t')" and "tree_inv t pins"
  shows "tree_inv t' pins" "same_index t t'"
proof -
  let ?Q = "\<lambda>t'. tree_inv t' pins \<and> same_index t t'"
  have "?Q t'"
  proof (rule match_loop_invariant [OF assms(1), of ?Q])
    show "?Q t" using assms(2) by simp
  qed (use touch_tree split_tree_inv same_index_trans in metis)+
  then show "tree_inv t' pins" "same_index t t'" by blast+
qed


subsection \<open>Adding a leaf\<close>

lemma add_domain: "addable t cur cn leaf \<Longrightarrow> dom (rt_nodes (add_leaf t cur cn leaf)) = insert (rt_next t) (dom (rt_nodes t))"
  by (auto simp: add_leaf_def addable_def)

lemma add_anc:
  assumes a: "addable t cur cn leaf" and m: "rt_nodes t m = Some mn"
  shows "anc (add_leaf t cur cn leaf) m = anc t m"
proof -
  have wf: "tree_wf t" using a by (simp add: addable_def)
  obtain xs where xs: "chain (rt_nodes t) (rt_root t) m xs" using wf_chain [OF wf m] .
  show ?thesis using anc_chain [OF xs] anc_chain [of "add_leaf t cur cn leaf" m xs] add_chain [OF a xs] by simp
qed

lemma add_pins:
  assumes a: "addable t cur cn leaf" and p: "pins_ok t pins" and l: "nd_lock leaf = 0"
  shows "pins_ok (add_leaf t cur cn leaf) pins"
proof -
  let ?t = "add_leaf t cur cn leaf"
  have pd: "\<And>m. m \<in># pins \<Longrightarrow> \<exists>mn. rt_nodes t m = Some mn" "\<And>m. m \<in># pins \<Longrightarrow> m \<noteq> rt_root t"
    using p by (auto simp: pins_ok_def)
  have eq: "{#m \<in># pins. n \<in> anc ?t m#} = {#m \<in># pins. n \<in> anc t m#}" for n
    by (rule filter_mset_cong) (use add_anc [OF a] pd(1) in blast)+
  have "nd_lock nd = size {#m \<in># pins. n \<in> anc ?t m#}" if n: "rt_nodes ?t n = Some nd" "n \<noteq> rt_root t" for n nd
  proof (cases "n = rt_next t")
    case True
    then have "{#m \<in># pins. n \<in> anc t m#} = {#}" using anc_dom addable_fresh(3) [OF a] by fastforce
    then show ?thesis using True n add_nodes(1) [OF a] l unfolding eq by simp
  next
    case False
    then obtain nd0 where nd0: "rt_nodes t n = Some nd0" using add_dom [OF a n(1)] by blast
    obtain nd' where "rt_nodes ?t n = Some nd'" "nd_lock nd' = nd_lock nd0" using add_old [OF a nd0] .
    then show ?thesis using n nd0 p unfolding eq by (simp add: pins_ok_def)
  qed
  then show ?thesis using pd add_domain [OF a] by (force simp: pins_ok_def)
qed

lemma add_blocks:
  assumes a: "addable t cur cn leaf"
  shows "tree_blocks (add_leaf t cur cn leaf) = tree_blocks t + mset (nd_blocks leaf)"
proof -
  let ?t = "add_leaf t cur cn leaf" and ?D = "dom (rt_nodes t)"
  have fin: "finite ?D" using a wf_finite by (simp add: addable_def)
  have new: "rt_next t \<notin> ?D" using addable_fresh(3) [OF a] by auto
  have oth: "mset (nd_blocks (the (rt_nodes ?t n))) = mset (nd_blocks (the (rt_nodes t n)))" if n: "n \<in> ?D" for n
  proof -
    obtain nd where nd: "rt_nodes t n = Some nd" using n by blast
    show ?thesis by (rule add_old [OF a nd]) (simp add: nd)
  qed
  have "tree_blocks ?t = mset (nd_blocks leaf) + (\<Sum>n \<in> ?D. mset (nd_blocks (the (rt_nodes ?t n))))"
    unfolding tree_blocks_def add_domain [OF a] using fin new add_nodes(1) [OF a] by simp
  also have "(\<Sum>n \<in> ?D. mset (nd_blocks (the (rt_nodes ?t n)))) = tree_blocks t"
    unfolding tree_blocks_def by (rule sum.cong [OF refl oth])
  finally show ?thesis by simp
qed

lemma add_tree_inv:
  assumes a: "addable t cur cn leaf" and inv: "tree_inv t pins" and l: "nd_lock leaf = 0"
  shows "tree_inv (add_leaf t cur cn leaf) pins" "keeps t (add_leaf t cur cn leaf) n"
proof -
  note D = tree_invD [OF inv]
  let ?t = "add_leaf t cur cn leaf"
  have "card (dom (rt_nodes ?t)) = Suc (card (dom (rt_nodes t)))"
    unfolding add_domain [OF a] using wf_finite [OF D(1)] addable_fresh(3) [OF a] by (simp add: domIff)
  then have "counts_ok ?t" using D(3) card_dom_pos [OF D(1)] by (simp add: counts_ok_def add_blocks [OF a])
  then show "tree_inv ?t pins" using add_wf [OF a] add_pins [OF a D(2) l] by (simp add: tree_inv_def)
  show "keeps t ?t n" unfolding keeps_def add_leaf_simps using add_chain [OF a] add_path [OF a] by blast
qed

subsection \<open>lock and unlock\<close>

definition map_locks :: "(nat \<Rightarrow> nat) \<Rightarrow> nat set \<Rightarrow> RadixTree \<Rightarrow> RadixTree" where
  "map_locks f S t = t\<lparr>rt_nodes := \<lambda>m. if m \<in> S then map_option (nd_lock_update f) (rt_nodes t m) else rt_nodes t m\<rparr>"

lemma map_locks_simps [simp]:
  "rt_root (map_locks f S t) = rt_root t" "rt_block_tokens (map_locks f S t) = rt_block_tokens t"
  "rt_next (map_locks f S t) = rt_next t" "rt_num_nodes (map_locks f S t) = rt_num_nodes t"
  "rt_stored_blocks (map_locks f S t) = rt_stored_blocks t" "rt_collisions (map_locks f S t) = rt_collisions t"
  "rt_clock (map_locks f S t) = rt_clock t"
  by (simp_all add: map_locks_def)

lemma map_locks_shape: "same_shape t (map_locks f S t)"
  by (simp add: same_shape_def map_locks_def option.map_comp comp_def skel_def [abs_def])

lemma map_locks_empty [simp]: "map_locks f {} t = t"
  by (simp add: map_locks_def)

lemma map_locks_set_node:
  assumes "rt_nodes t n = Some nd" and "n \<notin> S"
  shows "map_locks f S (set_node n (nd\<lparr>nd_lock := f (nd_lock nd)\<rparr>) t) = map_locks f (insert n S) t"
  using assms by (auto simp: map_locks_def set_node_def fun_eq_iff intro!: RadixTree.equality)

lemma lock_loop_eq:
  "chain (rt_nodes t) (rt_root t) n xs \<Longrightarrow> length xs \<le> fuel \<Longrightarrow>
     lock_loop fuel t (Some n) = Inr (map_locks (\<lambda>l. u32 (l + 1)) (set xs) t)"
proof (induction xs arbitrary: n t fuel)
  case Nil
  then have "n = rt_root t" by (auto elim: chain_NilE)
  then show ?case by (cases fuel) simp_all
next
  case (Cons x xs)
  from Cons.prems(1) obtain nd q where n: "x = n" "n \<noteq> rt_root t" "rt_nodes t n = Some nd" "nd_parent nd = Some q"
    "chain (rt_nodes t) (rt_root t) q xs" by (auto elim: chain_ConsE)
  obtain fuel' where f: "fuel = Suc fuel'" using Cons.prems(2) by (cases fuel) simp_all
  have nx: "n \<notin> set xs" using chain_distinct [OF Cons.prems(1)] n(1) by simp
  let ?t = "set_node n (nd\<lparr>nd_lock := u32 (nd_lock nd + 1)\<rparr>) t"
  have "chain (rt_nodes ?t) (rt_root ?t) q xs"
    using same_shape_chain [OF same_shape_set_node [OF n(3)], of "nd\<lparr>nd_lock := u32 (nd_lock nd + 1)\<rparr>"] n(5)
    by (simp add: skel_def)
  then have "lock_loop fuel' ?t (Some q) = Inr (map_locks (\<lambda>l. u32 (l + 1)) (set xs) ?t)"
    using Cons.IH [of ?t q fuel'] Cons.prems(2) f by simp
  then show ?case
    using n f map_locks_set_node [OF n(3) nx, of "\<lambda>l. u32 (l + 1)"] by simp
qed

lemma unlock_loop_eq:
  "chain (rt_nodes t) (rt_root t) n xs \<Longrightarrow> length xs \<le> fuel \<Longrightarrow>
     (\<And>m nd. m \<in> set xs \<Longrightarrow> rt_nodes t m = Some nd \<Longrightarrow> 0 < nd_lock nd) \<Longrightarrow>
     unlock_loop fuel t (Some n) = Inr (map_locks (\<lambda>l. l - 1) (set xs) t)"
proof (induction xs arbitrary: n t fuel)
  case Nil
  then have "n = rt_root t" by (auto elim: chain_NilE)
  then show ?case by (cases fuel) simp_all
next
  case (Cons x xs)
  from Cons.prems(1) obtain nd q where n: "x = n" "n \<noteq> rt_root t" "rt_nodes t n = Some nd" "nd_parent nd = Some q"
    "chain (rt_nodes t) (rt_root t) q xs" by (auto elim: chain_ConsE)
  obtain fuel' where f: "fuel = Suc fuel'" using Cons.prems(2) by (cases fuel) simp_all
  have nx: "n \<notin> set xs" using chain_distinct [OF Cons.prems(1)] n(1) by simp
  let ?t = "set_node n (nd\<lparr>nd_lock := nd_lock nd - 1\<rparr>) t"
  have ch: "chain (rt_nodes ?t) (rt_root ?t) q xs"
    using same_shape_chain [OF same_shape_set_node [OF n(3)], of "nd\<lparr>nd_lock := nd_lock nd - 1\<rparr>"] n(5)
    by (simp add: skel_def)
  have pos: "0 < nd_lock md" if "m \<in> set xs" "rt_nodes ?t m = Some md" for m md
    using that nx Cons.prems(3) [of m md] by (auto simp: set_node_def split: if_splits)
  have "unlock_loop fuel' ?t (Some q) = Inr (map_locks (\<lambda>l. l - 1) (set xs) ?t)"
    using Cons.IH [OF ch _ pos, of fuel'] Cons.prems(2) f by simp
  moreover have "0 < nd_lock nd" using Cons.prems(3) [of n nd] n by simp
  ultimately show ?case
    using n f map_locks_set_node [OF n(3) nx, of "\<lambda>l. l - 1"] by simp
qed

lemma size_filter_add: "size {#m \<in># add_mset x M. P m#} = (if P x then 1 else 0) + size {#m \<in># M. P m#}"
  by simp

text \<open>Adding or removing one pin moves the counts of the nodes above it by one.\<close>

lemma map_locks_inv:
  assumes inv: "tree_inv t pins" and ps: "\<forall>m \<in># pins'. m \<noteq> rt_root t \<and> rt_nodes t m \<noteq> None"
    and f: "\<And>n. n \<noteq> rt_root t \<Longrightarrow> rt_nodes t n \<noteq> None \<Longrightarrow>
       size {#m \<in># pins'. n \<in> anc t m#} = (if n \<in> S then f (size {#m \<in># pins. n \<in> anc t m#}) else size {#m \<in># pins. n \<in> anc t m#})"
  shows "tree_inv (map_locks f S t) pins'" "same_index t (map_locks f S t)"
proof -
  let ?t = "map_locks f S t"
  note D = tree_invD [OF inv] and s = map_locks_shape [of t f S]
  show "same_index t ?t" by (rule same_shape_index [OF s])
  then have "counts_ok ?t" using D(3) same_shape_dom [OF s] by (simp add: counts_ok_def same_index_def)
  moreover have "pins_ok ?t pins'"
    unfolding pins_ok_def same_shape_anc [OF s]
  proof (intro conjI allI impI)
    show "\<forall>m \<in># pins'. m \<noteq> rt_root ?t \<and> rt_nodes ?t m \<noteq> None" using ps by (auto simp: map_locks_def)
    fix n nd assume "rt_nodes ?t n = Some nd" "n \<noteq> rt_root ?t"
    then show "nd_lock nd = size {#m \<in># pins'. n \<in> anc t m#}"
      using f [of n] D(2) by (auto simp: map_locks_def pins_ok_def split: if_splits)
  qed
  ultimately show "tree_inv ?t pins'" using same_shape_wf [OF s D(1)] by (simp add: tree_inv_def)
qed

lemma lock_ok:
  assumes inv: "tree_inv t pins" and n: "rt_nodes t n = Some nd" "n \<noteq> rt_root t" and size: "size pins + 1 < 2 ^ 32"
  shows "lock t n = Inr (map_locks (\<lambda>l. u32 (l + 1)) (anc t n) t)"
    and "tree_inv (map_locks (\<lambda>l. u32 (l + 1)) (anc t n) t) (add_mset n pins)"
proof -
  note D = tree_invD [OF inv]
  obtain xs where xs: "chain (rt_nodes t) (rt_root t) n xs" using wf_chain [OF D(1) n(1)] .
  show "lock t n = Inr (map_locks (\<lambda>l. u32 (l + 1)) (anc t n) t)"
    unfolding lock_def anc_chain [OF xs] using lock_loop_eq [OF xs] chain_length [OF D(1) xs] by simp
  show "tree_inv (map_locks (\<lambda>l. u32 (l + 1)) (anc t n) t) (add_mset n pins)"
  proof (rule map_locks_inv(1) [OF inv])
    show "\<forall>m \<in># add_mset n pins. m \<noteq> rt_root t \<and> rt_nodes t m \<noteq> None" using D(2) n by (simp add: pins_ok_def)
    fix x
    have "size {#m \<in># pins. x \<in> anc t m#} + 1 < 2 ^ 32" using size size_filter_mset_lesseq [of "\<lambda>m. x \<in> anc t m" pins] by linarith
    then have "u32 (Suc (size {#m \<in># pins. x \<in> anc t m#})) = Suc (size {#m \<in># pins. x \<in> anc t m#})" by (simp add: u32_small)
    then show "size {#m \<in># add_mset n pins. x \<in> anc t m#} = (if x \<in> anc t n then u32 (size {#m \<in># pins. x \<in> anc t m#} + 1)
       else size {#m \<in># pins. x \<in> anc t m#})" by simp
  qed
qed

lemma unlock_ok:
  assumes inv: "tree_inv t pins" and n: "n \<in># pins"
  shows "unlock t n = Inr (map_locks (\<lambda>l. l - 1) (anc t n) t)"
    and "tree_inv (map_locks (\<lambda>l. l - 1) (anc t n) t) (pins - {#n#})"
proof -
  note D = tree_invD [OF inv]
  obtain nd where nd: "rt_nodes t n = Some nd" "n \<noteq> rt_root t" using D(2) n by (auto simp: pins_ok_def)
  obtain xs where xs: "chain (rt_nodes t) (rt_root t) n xs" using wf_chain [OF D(1) nd(1)] .
  obtain rest where rest: "pins = add_mset n rest" using n by (metis mset_add)
  have pos: "0 < nd_lock md" if m: "m \<in> set xs" "rt_nodes t m = Some md" for m md
  proof -
    have "m \<noteq> rt_root t" using chain_mem [OF xs m(1)] by simp
    then have "nd_lock md = size {#k \<in># pins. m \<in> anc t k#}" using D(2) m(2) by (simp add: pins_ok_def)
    then show ?thesis using m(1) anc_chain [OF xs] by (simp add: rest)
  qed
  show "unlock t n = Inr (map_locks (\<lambda>l. l - 1) (anc t n) t)"
    unfolding unlock_def anc_chain [OF xs] using unlock_loop_eq [OF xs _ pos] chain_length [OF D(1) xs] by simp
  show "tree_inv (map_locks (\<lambda>l. l - 1) (anc t n) t) (pins - {#n#})"
    by (rule map_locks_inv(1) [OF inv]) (use D(2) in \<open>auto simp: rest pins_ok_def\<close>)
qed

lemma match_prefix_tree:
  assumes "match_prefix t toks = Inr (res, t')" and "tree_inv t pins"
  shows "tree_inv t' pins" "same_index t t'"
proof -
  obtain c p r where "match_loop toks (length toks div rt_block_tokens t * rt_block_tokens t)
      t (rt_root t) 0 \<lparr>mr_num_tokens = 0, mr_blocks = [], mr_node = None\<rparr> = Inr (c, p, r, t')"
    using assms(1) by (auto simp: match_prefix_def result_simps)
  then show "tree_inv t' pins" "same_index t t'"
    using match_loop_tree(1) match_loop_tree(2) [OF _ assms(2)] assms(2) by blast+
qed


subsection \<open>insert\<close>

text \<open>The tree gains exactly the blocks on which it takes a reference.\<close>

lemma tree_insert_tree:
  fixes tokens :: "TokenId list"
  assumes inv: "tree_inv t pins" and sys: "sys_inv p" and size: "length blocks * rt_block_tokens t < 2 ^ 64"
    and live: "\<forall>b \<in> set blocks. 0 < rcount p b" and room: "\<forall>b. rcount p b + count (mset blocks) b < 2 ^ 32"
    and res: "tree_insert t p tokens blocks = Inr (k, t', p')"
  shows "tree_inv t' pins" "keeps t t' n" "count (tree_blocks t') b + rcount p b = count (tree_blocks t) b + rcount p' b"
proof -
  have "tree_inv t' pins \<and> keeps t t' n \<and> count (tree_blocks t') b + rcount p b = count (tree_blocks t) b + rcount p' b"
  proof (rule tree_insert_cases [OF tree_invD(1) [OF inv] sys size live room, of tokens], goal_cases)
    case (1 cur pre t1 xs cn r)
    let ?lb = "insert_blocks t tokens blocks"
    have t1: "tree_inv t1 pins" "same_index t t1"
      using match_loop_tree(1) [OF 1(1) inv] match_loop_tree(2) [OF 1(1) inv] by blast+
    from 1(8) consider (old) t2 where "touch t1 cur = Inr t2" "t' = t2" "p' = p"
      | (hit) "t' = t1\<lparr>rt_collisions := u64 (rt_collisions t1 + 1)\<rparr>" "p' = p"
      | (add) "addable t1 cur cn (new_leaf t1 tokens blocks cur pre ?lb)"
         "t' = add_leaf t1 cur cn (new_leaf t1 tokens blocks cur pre ?lb)"
         "rcount p' = (\<lambda>b. rcount p b + count (mset (drop pre (take ?lb blocks))) b)"
      using res by auto
    then show ?case
    proof cases
      case old
      then show ?thesis using touch_tree [OF old(1) t1(1)] same_index_trans [OF t1(2)] by (simp add: same_index_def)
    next
      case hit
      have "same_shape t1 t'" by (simp add: hit)
      then have "tree_inv t' pins" "same_index t1 t'"
        by (auto intro!: same_shape_inv [OF _ t1(1)] same_shape_index simp: hit)
      then show ?thesis using same_index_trans [OF t1(2)] hit by (simp add: same_index_def)
    next
      case add
      have l: "nd_lock (new_leaf t1 tokens blocks cur pre ?lb) = 0" by (simp add: new_leaf_def)
      note A = add_tree_inv [OF add(1) t1(1) l] add_blocks [OF add(1)]
      have "keeps t t' n" using keeps_trans [OF _ A(2)] t1(2) by (simp add: add(2) same_index_def)
      moreover have "tree_blocks t' = tree_blocks t + mset (drop pre (take ?lb blocks))"
        using A(3) t1(2) by (simp add: add(2) same_index_def new_leaf_def)
      ultimately show ?thesis using A(1) add by simp
    qed
  qed
  then show "tree_inv t' pins" "keeps t t' n" "count (tree_blocks t') b + rcount p b = count (tree_blocks t) b + rcount p' b"
    by blast+
qed

end
