(* ===== verification/Radix_Drop.thy ===== *)
theory Radix_Drop
  imports Radix_Pins
begin

section \<open>The prefix tree: dropping a leaf\<close>

text \<open>
  \<open>drop_node\<close> is the tree after \<^verbatim>\<open>drop_leaf()\<close>: the leaf is gone from the heap and from its
  parent's children. It keeps the shape invariant, the pins, the counters and every other
  path, and the index only loses entries.
\<close>

subsection \<open>Dropping a leaf\<close>

definition drop_node :: "RadixTree \<Rightarrow> nat \<Rightarrow> Node \<Rightarrow> nat \<Rightarrow> Node \<Rightarrow> RadixTree" where
  "drop_node t v vn q qn =
     t\<lparr>rt_nodes := (rt_nodes t)(q \<mapsto> qn\<lparr>nd_children :=
          AList.delete (block_key (nd_tokens vn) (rt_block_tokens t)) (nd_children qn)\<rparr>, v := None),
       rt_stored_blocks := sub64 (rt_stored_blocks t) (length (nd_blocks vn)),
       rt_num_nodes := sub64 (rt_num_nodes t) 1\<rparr>"

definition droppable :: "RadixTree \<Rightarrow> nat \<Rightarrow> Node \<Rightarrow> nat \<Rightarrow> Node \<Rightarrow> bool" where
  "droppable t v vn q qn \<longleftrightarrow> tree_wf t \<and> rt_nodes t v = Some vn \<and> v \<noteq> rt_root t \<and> nd_children vn = []
     \<and> nd_parent vn = Some q \<and> rt_nodes t q = Some qn
     \<and> map_of (nd_children qn) (block_key (nd_tokens vn) (rt_block_tokens t)) = Some v"

lemma droppableI:
  assumes "tree_wf t" and "rt_nodes t v = Some vn" and "v \<noteq> rt_root t" and "nd_children vn = []"
  obtains q qn where "droppable t v vn q qn"
  using wf_parent [OF assms(1-3)] assms unfolding droppable_def by blast

lemma drop_simps [simp]:
  "rt_root (drop_node t v vn q qn) = rt_root t" "rt_block_tokens (drop_node t v vn q qn) = rt_block_tokens t"
  "rt_next (drop_node t v vn q qn) = rt_next t" "rt_collisions (drop_node t v vn q qn) = rt_collisions t"
  "rt_clock (drop_node t v vn q qn) = rt_clock t"
  "rt_num_nodes (drop_node t v vn q qn) = sub64 (rt_num_nodes t) 1"
  "rt_stored_blocks (drop_node t v vn q qn) = sub64 (rt_stored_blocks t) (length (nd_blocks vn))"
  by (simp_all add: drop_node_def)

lemma droppable_other:
  assumes d: "droppable t v vn q qn" and "chain (rt_nodes t) (rt_root t) n xs" and "n \<noteq> v"
  shows "v \<notin> set xs"
  using assms(2,3)
proof (induction rule: chain.induct)
  case (ch_node n nd m xs)
  have wf: "tree_wf t" and v: "rt_nodes t v = Some vn" "nd_children vn = []" using d by (simp_all add: droppable_def)
  obtain m' mn where "nd_parent nd = Some m'" "rt_nodes t m' = Some mn"
    "map_of (nd_children mn) (block_key (nd_tokens nd) (rt_block_tokens t)) = Some n"
    using wf_parent [OF wf ch_node.hyps(2,1)] .
  then have "m \<noteq> v" using v ch_node.hyps(3) by auto
  with ch_node show ?case by simp
qed simp

lemma droppable_parent: "droppable t v vn q qn \<Longrightarrow> q \<noteq> v"
  by (auto simp: droppable_def)

lemma drop_nodes:
  assumes d: "droppable t v vn q qn"
  defines "H \<equiv> rt_nodes (drop_node t v vn q qn)"
  shows "H v = None"
    "H q = Some (qn\<lparr>nd_children := AList.delete (block_key (nd_tokens vn) (rt_block_tokens t)) (nd_children qn)\<rparr>)"
    "n \<noteq> v \<Longrightarrow> n \<noteq> q \<Longrightarrow> H n = rt_nodes t n"
  using droppable_parent [OF d] by (simp_all add: H_def drop_node_def)

lemma drop_old:
  assumes d: "droppable t v vn q qn" and n: "rt_nodes t n = Some nd" "n \<noteq> v"
  obtains nd' where "rt_nodes (drop_node t v vn q qn) n = Some nd'" "nd_tokens nd' = nd_tokens nd"
    "nd_blocks nd' = nd_blocks nd" "nd_parent nd' = nd_parent nd" "nd_lock nd' = nd_lock nd"
    "nd_last nd' = nd_last nd"
    "map_of (nd_children nd') = (if n = q then (map_of (nd_children nd))(block_key (nd_tokens vn) (rt_block_tokens t) := None)
       else map_of (nd_children nd))"
    "distinct (map fst (nd_children nd)) \<Longrightarrow> distinct (map fst (nd_children nd'))"
proof (cases "n = q")
  case True
  then have "nd = qn" using d n by (simp add: droppable_def)
  then show thesis using True drop_nodes(2) [OF d] that by (simp add: delete_conv' distinct_delete)
next
  case False
  then show thesis using drop_nodes(3) [OF d n(2) False] n that [of nd] by simp
qed

lemma drop_same:
  assumes d: "droppable t v vn q qn" and n: "rt_nodes t n = Some nd" and n': "rt_nodes (drop_node t v vn q qn) n = Some nd'"
  shows "nd_tokens nd' = nd_tokens nd" "nd_blocks nd' = nd_blocks nd" "nd_parent nd' = nd_parent nd"
    "nd_lock nd' = nd_lock nd"
    "map_of (nd_children nd') = (if n = q then (map_of (nd_children nd))(block_key (nd_tokens vn) (rt_block_tokens t) := None)
       else map_of (nd_children nd))"
    "distinct (map fst (nd_children nd)) \<Longrightarrow> distinct (map fst (nd_children nd'))" "n \<noteq> v"
proof -
  show "n \<noteq> v" using n' drop_nodes(1) [OF d] by auto
  show "nd_tokens nd' = nd_tokens nd" "nd_blocks nd' = nd_blocks nd" "nd_parent nd' = nd_parent nd" "nd_lock nd' = nd_lock nd"
    "map_of (nd_children nd') = (if n = q then (map_of (nd_children nd))(block_key (nd_tokens vn) (rt_block_tokens t) := None)
       else map_of (nd_children nd))"
    "distinct (map fst (nd_children nd)) \<Longrightarrow> distinct (map fst (nd_children nd'))"
    by (rule drop_old [OF d n \<open>n \<noteq> v\<close>]; simp only: n' option.inject)+
qed

lemma drop_dom:
  assumes d: "droppable t v vn q qn"
  shows "dom (rt_nodes (drop_node t v vn q qn)) = dom (rt_nodes t) - {v}"
  using d by (auto simp: drop_node_def droppable_def)

lemma drop_chain:
  assumes d: "droppable t v vn q qn" and ch: "chain (rt_nodes t) (rt_root t) n xs" and n: "n \<noteq> v"
  shows "chain (rt_nodes (drop_node t v vn q qn)) (rt_root t) n xs"
    "path (rt_nodes (drop_node t v vn q qn)) xs = path (rt_nodes t) xs"
    "path_blocks (rt_nodes (drop_node t v vn q qn)) xs = path_blocks (rt_nodes t) xs"
proof -
  let ?H = "rt_nodes (drop_node t v vn q qn)"
  have same: "map_option nd_parent (?H m) = map_option nd_parent (rt_nodes t m)
      \<and> nd_tokens (the (?H m)) = nd_tokens (the (rt_nodes t m)) \<and> nd_blocks (the (?H m)) = nd_blocks (the (rt_nodes t m))"
    if m: "m \<in> set xs" for m
  proof -
    obtain md where md: "rt_nodes t m = Some md" using chain_mem [OF ch m] by blast
    have "m \<noteq> v" using droppable_other [OF d ch n] m by blast
    show ?thesis by (rule drop_old [OF d md \<open>m \<noteq> v\<close>]) (simp add: md)
  qed
  show "chain ?H (rt_root t) n xs" by (rule chain_cong [OF ch]) (use same in blast)
  show "path ?H xs = path (rt_nodes t) xs" "path_blocks ?H xs = path_blocks (rt_nodes t) xs"
    using same by (intro path_cong; blast)+
qed

lemma drop_wf:
  assumes d: "droppable t v vn q qn"
  shows "tree_wf (drop_node t v vn q qn)"
proof -
  let ?t = "drop_node t v vn q qn" and ?bt = "rt_block_tokens t"
  let ?key = "block_key (nd_tokens vn) ?bt"
  have wf: "tree_wf t" and v: "rt_nodes t v = Some vn" "v \<noteq> rt_root t" "nd_children vn = []"
    and q: "nd_parent vn = Some q" "rt_nodes t q = Some qn" "map_of (nd_children qn) ?key = Some v"
    using d by (simp_all add: droppable_def)
  obtain rn where rn: "rt_nodes t (rt_root t) = Some rn" "nd_parent rn = None" "nd_tokens rn = []" "nd_blocks rn = []"
    using tree_wfD(6) [OF wf] by blast
  have "root_ok ?t" by (rule drop_old [OF d rn(1)]) (use v rn in \<open>auto simp: root_ok_def\<close>)
  moreover have "n < rt_next ?t \<and> links_ok ?t n nd' \<and> (n \<noteq> rt_root ?t \<longrightarrow> body_ok ?t n nd')
      \<and> (\<exists>xs. chain (rt_nodes ?t) (rt_root ?t) n xs)" if n': "rt_nodes ?t n = Some nd'" for n nd'
  proof -
    obtain nd where n: "rt_nodes t n = Some nd" using n' drop_dom [OF d] by blast
    note nd = drop_same(1-3,5,6) [OF d n n'] and nv = drop_same(7) [OF d n n']
    obtain xs where xs: "chain (rt_nodes t) (rt_root t) n xs" using wf_chain [OF wf n] .
    have links: "links_ok ?t n nd'"
    proof (rule links_okI)
      show "distinct (map fst (nd_children nd'))" using nd(5) tree_wfD(3) [OF wf n] by (simp add: links_ok_def)
      fix k c assume k: "map_of (nd_children nd') k = Some c"
      then have k0: "map_of (nd_children nd) k = Some c" using nd(4) by (auto split: if_splits)
      obtain cn where cn: "rt_nodes t c = Some cn" "c \<noteq> rt_root t" "nd_parent cn = Some n" "k = block_key (nd_tokens cn) ?bt"
        using wf_child [OF wf n k0] .
      have "c \<noteq> v"
      proof
        assume "c = v"
        then have "n = q" "k = ?key" using cn(1,3,4) v(1) q(1) by simp_all
        then show False using k nd(4) by simp
      qed
      then obtain cn' where "rt_nodes ?t c = Some cn'" "nd_tokens cn' = nd_tokens cn" "nd_parent cn' = nd_parent cn"
        using drop_old [OF d cn(1)] by blast
      with cn show "c \<noteq> rt_root ?t \<and> (\<exists>cn. rt_nodes ?t c = Some cn \<and> nd_parent cn = Some n
          \<and> k = block_key (nd_tokens cn) (rt_block_tokens ?t))" by simp
    qed
    have body: "body_ok ?t n nd'" if nr: "n \<noteq> rt_root t"
    proof -
      obtain m mn where m: "nd_parent nd = Some m" "rt_nodes t m = Some mn"
        "map_of (nd_children mn) (block_key (nd_tokens nd) ?bt) = Some n" using wf_parent [OF wf n nr] .
      have mv: "m \<noteq> v" using m(2,3) v(1,3) by auto
      obtain mn' where mn': "rt_nodes ?t m = Some mn'" "map_of (nd_children mn') =
          (if m = q then (map_of (nd_children mn))(?key := None) else map_of (nd_children mn))"
        using drop_old [OF d m(2) mv] .
      have "block_key (nd_tokens nd) ?bt \<noteq> ?key" if "m = q" using that m(2,3) q(2,3) nv by auto
      then have "map_of (nd_children mn') (block_key (nd_tokens nd) ?bt) = Some n" using mn'(2) m(3) by simp
      then show ?thesis using wf_body [OF wf n nr] m(1) mn'(1) nd by (simp add: body_ok_def)
    qed
    show ?thesis using links body drop_chain(1) [OF d xs nv] tree_wfD(2) [OF wf n] by auto
  qed
  ultimately show ?thesis unfolding tree_wf_def using tree_wfD(1) [OF wf] by simp
qed

lemma drop_blocks:
  assumes d: "droppable t v vn q qn"
  shows "tree_blocks t = tree_blocks (drop_node t v vn q qn) + mset (nd_blocks vn)"
proof -
  let ?t = "drop_node t v vn q qn" and ?D = "dom (rt_nodes t)"
  have wf: "tree_wf t" and v: "rt_nodes t v = Some vn" using d by (simp_all add: droppable_def)
  have vd: "v \<in> ?D" using v by auto
  have "mset (nd_blocks (the (rt_nodes ?t n))) = mset (nd_blocks (the (rt_nodes t n)))" if n: "n \<in> ?D - {v}" for n
  proof -
    obtain nd where nd: "rt_nodes t n = Some nd" "n \<noteq> v" using n by blast
    show ?thesis by (rule drop_old [OF d nd]) (simp add: nd)
  qed
  then have "tree_blocks ?t = (\<Sum>n \<in> ?D - {v}. mset (nd_blocks (the (rt_nodes t n))))"
    unfolding tree_blocks_def drop_dom [OF d] by (rule sum.cong [OF refl])
  then show ?thesis unfolding tree_blocks_def [of t] sum.remove [OF wf_finite [OF wf] vd] using v by simp
qed

lemma drop_counts:
  assumes d: "droppable t v vn q qn" and c: "counts_ok t"
  shows "counts_ok (drop_node t v vn q qn)"
proof -
  let ?t = "drop_node t v vn q qn" and ?D = "dom (rt_nodes t)"
  have wf: "tree_wf t" and v: "rt_nodes t v = Some vn" "v \<noteq> rt_root t" using d by (simp_all add: droppable_def)
  have "{v, rt_root t} \<subseteq> ?D" using v(1) wf_root_dom [OF wf] by blast
  then have "card {v, rt_root t} \<le> card ?D" by (rule card_mono [OF wf_finite [OF wf]])
  moreover have "card {v, rt_root t} = 2" using v(2) by simp
  ultimately have two: "1 \<le> card ?D - 1" by linarith
  have "v \<in> ?D" using v(1) by blast
  then have card: "card (dom (rt_nodes ?t)) = card ?D - 1" unfolding drop_dom [OF d] by (rule card_Diff_singleton)
  have "rt_num_nodes ?t = sub64 (u64 (card ?D - 1)) 1" using c unfolding drop_simps counts_ok_def by simp
  also have "\<dots> = u64 (card (dom (rt_nodes ?t)) - 1)" unfolding card by (rule sub64_u64 [OF two])
  finally have num: "rt_num_nodes ?t = u64 (card (dom (rt_nodes ?t)) - 1)" .
  let ?k = "length (nd_blocks vn)"
  have sz: "size (tree_blocks t) = size (tree_blocks ?t) + ?k" using drop_blocks [OF d] by simp
  have "rt_stored_blocks ?t = sub64 (u64 (size (tree_blocks t))) ?k" using c unfolding drop_simps counts_ok_def by simp
  also have "\<dots> = u64 (size (tree_blocks t) - ?k)" by (rule sub64_u64) (simp add: sz)
  finally show ?thesis using num by (simp add: counts_ok_def sz)
qed

lemma drop_tree_inv:
  assumes d: "droppable t v vn q qn" and inv: "tree_inv t pins" and lock: "nd_lock vn = 0"
  shows "tree_inv (drop_node t v vn q qn) pins" "n \<noteq> v \<Longrightarrow> keeps t (drop_node t v vn q qn) n" "v \<notin># pins"
proof -
  let ?t = "drop_node t v vn q qn"
  note D = tree_invD [OF inv]
  have v: "rt_nodes t v = Some vn" "v \<noteq> rt_root t" using d by (simp_all add: droppable_def)
  have lk: "nd_lock nd = size {#m \<in># pins. n \<in> anc t m#}" if "rt_nodes t n = Some nd" "n \<noteq> rt_root t" for n nd
    using D(2) that unfolding pins_ok_def by blast
  have "size {#m \<in># pins. v \<in> anc t m#} = 0" using lk [OF v] lock by simp
  moreover have "v \<in> anc t v"
  proof -
    obtain xs where xs: "chain (rt_nodes t) (rt_root t) v xs" using wf_chain [OF D(1) v(1)] .
    then show ?thesis unfolding anc_chain [OF xs] using chain_head [OF xs v(2)] by fastforce
  qed
  ultimately show nv: "v \<notin># pins" by auto
  have pd: "m \<noteq> rt_root t \<and> (\<exists>mn. rt_nodes t m = Some mn)" if "m \<in># pins" for m
    using D(2) that unfolding pins_ok_def by blast
  have ancs: "anc ?t m = anc t m" if m: "m \<in># pins" for m
  proof -
    have mv: "m \<noteq> v" using m nv by auto
    obtain mn where "rt_nodes t m = Some mn" using pd [OF m] by blast
    then obtain xs where xs: "chain (rt_nodes t) (rt_root t) m xs" using wf_chain [OF D(1)] by blast
    have "chain (rt_nodes ?t) (rt_root ?t) m xs" using drop_chain(1) [OF d xs mv] by simp
    then show ?thesis by (simp only: anc_chain anc_chain [OF xs])
  qed
  have eq: "{#m \<in># pins. n \<in> anc ?t m#} = {#m \<in># pins. n \<in> anc t m#}" for n
    by (rule filter_mset_cong) (use ancs in blast)+
  have "nd_lock nd' = size {#m \<in># pins. n \<in> anc ?t m#}" if n: "rt_nodes ?t n = Some nd'" "n \<noteq> rt_root t" for n nd'
  proof -
    obtain nd where nd: "rt_nodes t n = Some nd" using n(1) drop_dom [OF d] by blast
    have "nd_lock nd' = nd_lock nd" by (rule drop_same(4) [OF d nd n(1)])
    then show ?thesis unfolding eq using lk [OF nd n(2)] by simp
  qed
  moreover have "\<forall>m \<in># pins. m \<noteq> rt_root t \<and> rt_nodes ?t m \<noteq> None"
  proof
    fix m assume m: "m \<in># pins"
    then have "m \<noteq> rt_root t" "m \<in> dom (rt_nodes t) - {v}" using pd [OF m] nv by blast+
    then show "m \<noteq> rt_root t \<and> rt_nodes ?t m \<noteq> None" unfolding drop_dom [OF d, symmetric] by blast
  qed
  ultimately have "pins_ok ?t pins" by (simp add: pins_ok_def)
  moreover have "counts_ok ?t" by (rule drop_counts [OF d D(3)])
  ultimately show "tree_inv ?t pins" using drop_wf [OF d] by (simp add: tree_inv_def)
  show "keeps t ?t n" if "n \<noteq> v"
    unfolding keeps_def drop_simps
  proof (intro allI impI)
    fix xs assume "chain (rt_nodes t) (rt_root t) n xs"
    from drop_chain [OF d this that]
    show "\<exists>ys. chain (rt_nodes ?t) (rt_root t) n ys \<and> path (rt_nodes ?t) ys = path (rt_nodes t) xs
        \<and> path_blocks (rt_nodes ?t) ys = path_blocks (rt_nodes t) xs" by blast
  qed
qed


lemma count_decref_fold: "foldE count_decref bs (k, p)
  = foldE (\<lambda>b (n, s). bindE (decref s b) (\<lambda>(f, s'). Inr (if f then n + 1 else n, s'))) bs (k, p)"
  by (rule arg_cong [where f = "\<lambda>f. foldE f bs (k, p)"])
    (simp add: fun_eq_iff count_decref_def split_def)

lemma drop_leaf_ok:
  assumes d: "droppable t v vn q qn" and sys: "sys_inv p" and le: "\<forall>b. count (mset (nd_blocks vn)) b \<le> rcount p b"
  shows "\<exists>p'. drop_leaf t p v = Inr (card {b \<in> set (nd_blocks vn). rcount p b = count (mset (nd_blocks vn)) b}, drop_node t v vn q qn, p')
     \<and> sys_inv p' \<and> pool_rel p p' \<and> rcount p' = (\<lambda>b. rcount p b - count (mset (nd_blocks vn)) b)"
proof -
  obtain p' where "foldE count_decref (nd_blocks vn) (0, p)
      = Inr (card {b \<in> set (nd_blocks vn). rcount p b = count (mset (nd_blocks vn)) b}, p')"
    "sys_inv p'" "pool_rel p p'" "rcount p' = (\<lambda>b. rcount p b - count (mset (nd_blocks vn)) b)"
    using pool.dec_all [OF sys le, of 0] by (auto simp: count_decref_fold)
  moreover have "m |` (- {v}) = m(v := None)" for m :: heap by (auto simp: restrict_map_def)
  ultimately show ?thesis using d
    by (simp add: drop_leaf_def droppable_def drop_node_def Let_def del: restrict_fun_upd)
qed

end
