(* ===== verification/Radix_Lru.thy ===== *)
theory Radix_Lru
  imports Radix_Pins
begin

section \<open>The prefix tree: walking all nodes\<close>

text \<open>
  \<open>below t n\<close> is the set of nodes in the subtree of \<open>n\<close>. The subtrees on the stack of a
  depth-first walk are disjoint, so the walk visits every node once and ends within its fuel.
  \<^verbatim>\<open>find_lru_leaf()\<close> therefore returns the least recently used candidate.
\<close>

subsection \<open>Finding the least recently used leaf\<close>

definition below :: "RadixTree \<Rightarrow> nat \<Rightarrow> nat set" where
  "below t s = {m. \<exists>xs. chain (rt_nodes t) (rt_root t) m xs \<and> s \<in> set (xs @ [rt_root t])}"

lemma below_dom: "tree_wf t \<Longrightarrow> below t s \<subseteq> dom (rt_nodes t)"
  unfolding below_def using chain_node_exists by blast

lemma below_root: "tree_wf t \<Longrightarrow> below t (rt_root t) = dom (rt_nodes t)"
  using below_dom [of t "rt_root t"] wf_chain unfolding below_def by fastforce

lemma wf_children_distinct:
  assumes wf: "tree_wf t" and n: "rt_nodes t n = Some nd"
  shows "distinct (map snd (nd_children nd))"
proof -
  have d: "distinct (map fst (nd_children nd))" using tree_wfD(3) [OF wf n] by (simp add: links_ok_def)
  have "inj_on snd (set (nd_children nd))"
  proof (rule inj_onI)
    fix x y assume x: "x \<in> set (nd_children nd)" "y \<in> set (nd_children nd)" "snd x = snd y"
    have m: "map_of (nd_children nd) (fst x) = Some (snd x)" "map_of (nd_children nd) (fst y) = Some (snd x)"
      using map_of_is_SomeI [OF d, of "fst x" "snd x"] map_of_is_SomeI [OF d, of "fst y" "snd y"] x
      by (metis prod.collapse)+
    obtain cn where "rt_nodes t (snd x) = Some cn" "fst x = block_key (nd_tokens cn) (rt_block_tokens t)"
      using wf_child [OF wf n m(1)] .
    moreover obtain cn' where "rt_nodes t (snd x) = Some cn'" "fst y = block_key (nd_tokens cn') (rt_block_tokens t)"
      using wf_child [OF wf n m(2)] .
    ultimately show "x = y" using x(3) by (simp add: prod_eq_iff)
  qed
  then show ?thesis using d by (simp add: distinct_map)
qed

lemma wf_child_mem:
  assumes wf: "tree_wf t" and n: "rt_nodes t n = Some nd" and c: "c \<in> snd ` set (nd_children nd)"
  obtains cn where "rt_nodes t c = Some cn" "c \<noteq> rt_root t" "nd_parent cn = Some n"
proof -
  obtain k where "(k, c) \<in> set (nd_children nd)" using c by force
  then have "map_of (nd_children nd) k = Some c"
    using tree_wfD(3) [OF wf n] by (simp add: links_ok_def map_of_is_SomeI)
  then show thesis using wf_child [OF wf n] that by metis
qed

lemma below_child:
  assumes wf: "tree_wf t" and n: "rt_nodes t n = Some nd" and c: "c \<in> snd ` set (nd_children nd)"
    and m: "m \<in> below t c"
  shows "m \<in> below t n" "m \<noteq> n" "\<exists>xs us ys. chain (rt_nodes t) (rt_root t) m xs \<and> chain (rt_nodes t) (rt_root t) n ys \<and> xs = us @ c # ys"
proof -
  obtain cn where cn: "rt_nodes t c = Some cn" "c \<noteq> rt_root t" "nd_parent cn = Some n" using wf_child_mem [OF wf n c] .
  obtain xs where xs: "chain (rt_nodes t) (rt_root t) m xs" "c \<in> set xs" using m cn(2) by (auto simp: below_def)
  obtain us zs where s: "xs = us @ c # zs" "chain (rt_nodes t) (rt_root t) c (c # zs)" using chain_suffix [OF xs] by blast
  obtain ys where ys: "chain (rt_nodes t) (rt_root t) n ys" using wf_chain [OF wf n] .
  have "chain (rt_nodes t) (rt_root t) c (c # ys)" by (rule ch_node [OF cn(2,1,3) ys])
  then have zs: "zs = ys" using chain_unique [OF s(2)] by blast
  show "\<exists>xs us ys. chain (rt_nodes t) (rt_root t) m xs \<and> chain (rt_nodes t) (rt_root t) n ys \<and> xs = us @ c # ys"
    using xs(1) ys s(1) zs by blast
  have "n = rt_root t \<or> n \<in> set ys" using chain_head [OF ys] by (metis list.set_intros(1))
  then show "m \<in> below t n" using xs(1) s(1) zs by (auto simp: below_def)
  show "m \<noteq> n"
  proof
    assume "m = n"
    then have "xs = ys" using chain_unique [OF xs(1)] ys by blast
    then show False using s(1) zs by simp
  qed
qed

lemma below_step:
  assumes wf: "tree_wf t" and n: "rt_nodes t n = Some nd"
  shows "below t n = insert n (\<Union>c \<in> snd ` set (nd_children nd). below t c)"
proof
  have "m = n \<or> (\<exists>c \<in> snd ` set (nd_children nd). c \<in> set xs)"
    if "chain (rt_nodes t) (rt_root t) m xs" "n \<in> set (xs @ [rt_root t])" for m xs
    using that
  proof (induction rule: chain.induct)
    case ch_root
    then show ?case by simp
  next
    case (ch_node m md q xs)
    obtain q' qn where q: "nd_parent md = Some q'" "rt_nodes t q' = Some qn"
      "map_of (nd_children qn) (block_key (nd_tokens md) (rt_block_tokens t)) = Some m"
      using wf_parent [OF wf ch_node.hyps(2,1)] .
    show ?case
    proof (cases "q = n")
      case True
      then have "m \<in> snd ` set (nd_children nd)" using q ch_node.hyps(3) n by (force dest: map_of_SomeD)
      then show ?thesis by auto
    next
      case False
      then show ?thesis using ch_node by auto
    qed
  qed
  then show "below t n \<subseteq> insert n (\<Union>c \<in> snd ` set (nd_children nd). below t c)"
    unfolding below_def by fastforce
  obtain ys where ys: "chain (rt_nodes t) (rt_root t) n ys" using wf_chain [OF wf n] .
  moreover have "n = rt_root t \<or> n \<in> set ys" using chain_head [OF ys] by (metis list.set_intros(1))
  ultimately have "n \<in> below t n" by (auto simp: below_def)
  then show "insert n (\<Union>c \<in> snd ` set (nd_children nd). below t c) \<subseteq> below t n"
    using below_child(1) [OF wf n] by blast
qed

lemma below_siblings:
  assumes wf: "tree_wf t" and n: "rt_nodes t n = Some nd"
    and c: "c \<in> snd ` set (nd_children nd)" "d \<in> snd ` set (nd_children nd)" "c \<noteq> d"
  shows "below t c \<inter> below t d = {}"
proof (rule ccontr)
  assume "below t c \<inter> below t d \<noteq> {}"
  then obtain m where m: "m \<in> below t c" "m \<in> below t d" by blast
  obtain xs us ys where 1: "chain (rt_nodes t) (rt_root t) m xs" "chain (rt_nodes t) (rt_root t) n ys" "xs = us @ c # ys"
    using below_child(3) [OF wf n c(1) m(1)] by blast
  obtain xs' us' ys' where 2: "chain (rt_nodes t) (rt_root t) m xs'" "chain (rt_nodes t) (rt_root t) n ys'" "xs' = us' @ d # ys'"
    using below_child(3) [OF wf n c(2) m(2)] by blast
  have "xs' = xs" "ys' = ys" using chain_unique 1(1,2) 2(1,2) by blast+
  then show False using 1(3) 2(3) c(3) by simp
qed

lemma below_card:
  assumes wf: "tree_wf t" and n: "rt_nodes t n = Some nd"
  shows "card (below t n) = Suc (sum_list (map (\<lambda>c. card (below t c)) (map snd (nd_children nd))))"
proof -
  let ?C = "snd ` set (nd_children nd)"
  have fin: "finite (below t c)" for c using below_dom [OF wf] wf_finite [OF wf] finite_subset by blast
  have "n \<notin> (\<Union>c \<in> ?C. below t c)" using below_child(2) [OF wf n] by blast
  then have "card (below t n) = Suc (card (\<Union>c \<in> ?C. below t c))"
    unfolding below_step [OF wf n] using fin by simp
  also have "card (\<Union>c \<in> ?C. below t c) = (\<Sum>c \<in> ?C. card (below t c))"
    using fin below_siblings [OF wf n] by (intro card_UN_disjoint) auto
  also have "\<dots> = sum_list (map (\<lambda>c. card (below t c)) (map snd (nd_children nd)))"
    using sum_list_distinct_conv_sum_set [OF wf_children_distinct [OF wf n], of "\<lambda>c. card (below t c)"] by simp
  finally show ?thesis .
qed

definition candidates :: "RadixTree \<Rightarrow> nat list \<Rightarrow> nat set" where
  "candidates t rejected = {n. \<exists>nd. rt_nodes t n = Some nd \<and> lru_candidate t rejected n nd}"

definition least_recent :: "RadixTree \<Rightarrow> nat set \<Rightarrow> nat option \<Rightarrow> bool" where
  "least_recent t C best \<longleftrightarrow> (case best of
      None \<Rightarrow> C = {}
    | Some b \<Rightarrow> b \<in> C \<and> (\<forall>c \<in> C. nd_last (the (rt_nodes t b)) \<le> nd_last (the (rt_nodes t c))))"

lemma better_ok:
  assumes n: "rt_nodes t n = Some nd" and C: "C \<subseteq> dom (rt_nodes t)" and l: "least_recent t C best"
  shows "\<exists>best'. better t n nd best = Inr best' \<and> least_recent t (insert n C) best'"
proof (cases best)
  case None
  then show ?thesis using l by (simp add: better_def least_recent_def)
next
  case (Some b)
  then have b: "b \<in> C" "\<forall>c \<in> C. nd_last (the (rt_nodes t b)) \<le> nd_last (the (rt_nodes t c))"
    using l by (simp_all add: least_recent_def)
  obtain bn where "rt_nodes t b = Some bn" using b(1) C by blast
  then show ?thesis using Some b n by (auto simp: better_def least_recent_def)
qed

text \<open>One node popped off the stack: the nodes still to visit are those below the others and below its children.\<close>

lemma lru_pop:
  assumes wf: "tree_wf t" and st: "set (xs @ [n]) \<subseteq> dom (rt_nodes t)" and n: "rt_nodes t n = Some nd"
  defines "stack' \<equiv> xs @ map snd (nd_children nd)"
  shows "set stack' \<subseteq> dom (rt_nodes t)"
    "Suc (sum_list (map (\<lambda>c. card (below t c)) stack')) = sum_list (map (\<lambda>c. card (below t c)) (xs @ [n]))"
    "candidates t rejected \<inter> (\<Union>c \<in> set (xs @ [n]). below t c)
       = (if lru_candidate t rejected n nd then {n} else {}) \<union> (candidates t rejected \<inter> (\<Union>c \<in> set stack'. below t c))"
proof -
  have "c \<in> dom (rt_nodes t)" if "c \<in> snd ` set (nd_children nd)" for c
    using wf_child_mem [OF wf n that] by blast
  then show "set stack' \<subseteq> dom (rt_nodes t)" using st by (auto simp: stack'_def)
  show "Suc (sum_list (map (\<lambda>c. card (below t c)) stack')) = sum_list (map (\<lambda>c. card (below t c)) (xs @ [n]))"
    using below_card [OF wf n] by (simp add: stack'_def)
  have "(\<Union>c \<in> set (xs @ [n]). below t c) = insert n (\<Union>c \<in> set stack'. below t c)"
    using below_step [OF wf n] by (auto simp: stack'_def)
  then show "candidates t rejected \<inter> (\<Union>c \<in> set (xs @ [n]). below t c)
       = (if lru_candidate t rejected n nd then {n} else {}) \<union> (candidates t rejected \<inter> (\<Union>c \<in> set stack'. below t c))"
    using n by (auto simp: candidates_def)
qed

lemma lru_loop_ok:
  assumes wf: "tree_wf t"
  shows "set stack \<subseteq> dom (rt_nodes t) \<Longrightarrow> sum_list (map (\<lambda>c. card (below t c)) stack) \<le> fuel \<Longrightarrow>
     C \<subseteq> dom (rt_nodes t) \<Longrightarrow> least_recent t C best \<Longrightarrow>
     \<exists>r. lru_loop fuel t rejected stack best = Inr r
       \<and> least_recent t (C \<union> (candidates t rejected \<inter> (\<Union>c \<in> set stack. below t c))) r"
proof (induction fuel arbitrary: stack C best)
  case 0
  show ?case
  proof (cases stack)
    case Nil
    then show ?thesis using 0 by simp
  next
    case (Cons x xs)
    then obtain nd where "rt_nodes t x = Some nd" using "0.prems"(1) by auto
    then have "0 < card (below t x)" using below_card [OF wf] by simp
    then show ?thesis using "0.prems"(2) Cons by simp
  qed
next
  case (Suc fuel)
  show ?case
  proof (cases stack rule: rev_cases)
    case Nil
    then show ?thesis using Suc.prems by simp
  next
    case (snoc xs n)
    obtain nd where n: "rt_nodes t n = Some nd" using Suc.prems(1) snoc by auto
    note pop = lru_pop [OF wf Suc.prems(1) [unfolded snoc] n]
    let ?C' = "if lru_candidate t rejected n nd then insert n C else C" and ?stack' = "xs @ map snd (nd_children nd)"
    obtain best' where b: "(if lru_candidate t rejected n nd then better t n nd best else Inr best) = Inr best'"
      "least_recent t ?C' best'" using better_ok [OF n Suc.prems(3,4)] Suc.prems(4)
      by (cases "lru_candidate t rejected n nd") auto
    have C': "?C' \<subseteq> dom (rt_nodes t)" using Suc.prems(3) n by auto
    have f': "sum_list (map (\<lambda>c. card (below t c)) ?stack') \<le> fuel" using Suc.prems(2) pop(2) unfolding snoc by linarith
    have eq: "C \<union> (candidates t rejected \<inter> (\<Union>c \<in> set stack. below t c))
        = ?C' \<union> (candidates t rejected \<inter> (\<Union>c \<in> set ?stack'. below t c))" unfolding snoc pop(3) by auto
    obtain y ys where y: "stack = y # ys" using snoc by (metis neq_Nil_conv snoc_eq_iff_butlast)
    then have "last (y # ys) = n" "butlast (y # ys) = xs" using snoc by (metis last_snoc, metis butlast_snoc)
    then have "lru_loop (Suc fuel) t rejected stack best = lru_loop fuel t rejected ?stack' best'"
      unfolding y by (simp only: lru_loop.simps node_at_Some [OF n] bindE_Inr b(1))
    with Suc.IH [OF pop(1) f' C' b(2)] eq show ?thesis by metis
  qed
qed

lemma find_lru_leaf_ok:
  assumes wf: "tree_wf t"
  shows "\<exists>r. find_lru_leaf t rejected = Inr r \<and> least_recent t (candidates t rejected) r"
proof -
  have "dom (rt_nodes t) \<subseteq> {..<rt_next t}" using tree_wfD(2) [OF wf] by auto
  then have "card (dom (rt_nodes t)) \<le> rt_next t" using card_mono [of "{..<rt_next t}"] by simp
  then have "\<exists>r. lru_loop (rt_next t) t rejected [rt_root t] None = Inr r
       \<and> least_recent t ({} \<union> (candidates t rejected \<inter> (\<Union>c \<in> set [rt_root t]. below t c))) r"
    using wf_root_dom [OF wf] by (intro lru_loop_ok [OF wf]) (simp_all add: below_root [OF wf] least_recent_def)
  moreover have "candidates t rejected \<inter> dom (rt_nodes t) = candidates t rejected" by (auto simp: candidates_def)
  ultimately show ?thesis by (simp add: find_lru_leaf_def below_root [OF wf])
qed

end
