(* ===== verification/Radix_Evict.thy ===== *)
theory Radix_Evict
  imports Radix_Drop Radix_Lru
begin

section \<open>The prefix tree: eviction, demotion victims, destruction\<close>

text \<open>
  \<open>shrunk\<close> says what eviction may do to the tree and the pool; \<^verbatim>\<open>evict()\<close> ends, does no more
  than that, and falls short of its goal only when every unpinned leaf holds a block that
  somebody else references. \<open>picked\<close> is the same for \<^verbatim>\<open>pick_demotion_victims()\<close>, which
  changes nothing. The destructor gives back every reference of the tree.
\<close>

subsection \<open>evict\<close>

lemma node_blocks:
  assumes "tree_wf t" and "rt_nodes t n = Some nd"
  shows "mset (nd_blocks nd) \<subseteq># tree_blocks t"
proof -
  have "n \<in> dom (rt_nodes t)" using assms(2) by blast
  then have "tree_blocks t = mset (nd_blocks (the (rt_nodes t n)))
      + (\<Sum>m \<in> dom (rt_nodes t) - {n}. mset (nd_blocks (the (rt_nodes t m))))"
    unfolding tree_blocks_def by (rule sum.remove [OF wf_finite [OF assms(1)]])
  then show ?thesis using assms(2) by simp
qed

text \<open>The tree holds a reference on every block it stores.\<close>

definition tree_refs :: "RadixTree \<Rightarrow> BlockPool \<Rightarrow> bool" where
  "tree_refs t p \<longleftrightarrow> (\<forall>b. count (tree_blocks t) b \<le> rcount p b)"

lemma tree_refs_node:
  assumes "tree_wf t" and "tree_refs t p" and "rt_nodes t n = Some nd"
  shows "count (mset (nd_blocks nd)) b \<le> rcount p b" "b \<in> set (nd_blocks nd) \<Longrightarrow> 0 < rcount p b"
proof -
  show le: "count (mset (nd_blocks nd)) b \<le> rcount p b"
    using mset_subset_eq_count [OF node_blocks [OF assms(1,3)], of b] assms(2) unfolding tree_refs_def
    by (meson le_trans)
  assume "b \<in> set (nd_blocks nd)"
  then have "0 < count (mset (nd_blocks nd)) b" by simp
  with le show "0 < rcount p b" by linarith
qed

text \<open>
  What eviction may do: take a multiset \<open>G\<close> of \<open>k\<close> blocks, on each of which the tree held the
  only reference, out of the tree and free them.
\<close>

definition shrunk :: "nat multiset \<Rightarrow> RadixTree \<Rightarrow> BlockPool \<Rightarrow> nat \<Rightarrow> RadixTree \<Rightarrow> BlockPool \<Rightarrow> bool" where
  "shrunk pins t p k t' p' \<longleftrightarrow> tree_inv t' pins \<and> sys_inv p' \<and> pool_rel p p' \<and> (\<forall>n \<in># pins. keeps t t' n)
     \<and> (\<forall>P b. cached t' P b \<longrightarrow> cached t P b)
     \<and> rt_root t' = rt_root t \<and> rt_block_tokens t' = rt_block_tokens t \<and> rt_next t' = rt_next t
     \<and> dom (rt_nodes t') \<subseteq> dom (rt_nodes t) \<and> (0 < k \<longrightarrow> dom (rt_nodes t') \<subset> dom (rt_nodes t))
     \<and> (\<exists>G. tree_blocks t = tree_blocks t' + G \<and> size G = k \<and> (\<forall>b. rcount p b = rcount p' b + count G b)
          \<and> (\<forall>b \<in># G. rcount p b = 1))"

lemma shrunk_refl: "tree_inv t pins \<Longrightarrow> sys_inv p \<Longrightarrow> shrunk pins t p 0 t p"
  by (simp add: shrunk_def pool_rel_refl)

lemma shrunkD:
  assumes "shrunk pins t p k t' p'"
  shows "tree_inv t' pins" "sys_inv p'" "pool_rel p p'" "n \<in># pins \<Longrightarrow> keeps t t' n" "cached t' P b \<Longrightarrow> cached t P b"
    "rt_root t' = rt_root t" "rt_block_tokens t' = rt_block_tokens t" "rt_next t' = rt_next t"
    "dom (rt_nodes t') \<subseteq> dom (rt_nodes t)" "0 < k \<Longrightarrow> dom (rt_nodes t') \<subset> dom (rt_nodes t)"
  using assms by (simp_all add: shrunk_def)

lemma shrunk_taken:
  assumes "shrunk pins t p k t' p'"
  obtains G where "tree_blocks t = tree_blocks t' + G" "size G = k" "\<And>b. rcount p b = rcount p' b + count G b"
    "\<And>b. b \<in># G \<Longrightarrow> rcount p b = 1"
  using assms unfolding shrunk_def by blast

lemma shrunkI:
  assumes "tree_inv t' pins" "sys_inv p'" "pool_rel p p'" "\<And>n. n \<in># pins \<Longrightarrow> keeps t t' n"
    "\<And>P b. cached t' P b \<Longrightarrow> cached t P b"
    "rt_root t' = rt_root t" "rt_block_tokens t' = rt_block_tokens t" "rt_next t' = rt_next t"
    "dom (rt_nodes t') \<subseteq> dom (rt_nodes t)" "0 < k \<Longrightarrow> dom (rt_nodes t') \<noteq> dom (rt_nodes t)"
    "tree_blocks t = tree_blocks t' + G" "size G = k" "\<And>b. rcount p b = rcount p' b + count G b"
    "\<And>b. b \<in># G \<Longrightarrow> rcount p b = 1"
  shows "shrunk pins t p k t' p'"
proof -
  have "\<exists>G. tree_blocks t = tree_blocks t' + G \<and> size G = k \<and> (\<forall>b. rcount p b = rcount p' b + count G b)
      \<and> (\<forall>b \<in># G. rcount p b = 1)" by (intro exI [of _ G] conjI allI ballI; rule assms)
  then show ?thesis unfolding shrunk_def using assms(1-10) by (simp add: psubset_eq)
qed

lemma shrunk_trans:
  assumes 1: "shrunk pins t p j t1 p1" and 2: "shrunk pins t1 p1 k t' p'"
  shows "shrunk pins t p (j + k) t' p'"
proof -
  obtain G where G: "tree_blocks t = tree_blocks t1 + G" "size G = j" "\<And>b. rcount p b = rcount p1 b + count G b"
    "\<And>b. b \<in># G \<Longrightarrow> rcount p b = 1" using shrunk_taken [OF 1] by blast
  obtain G' where G': "tree_blocks t1 = tree_blocks t' + G'" "size G' = k" "\<And>b. rcount p1 b = rcount p' b + count G' b"
    "\<And>b. b \<in># G' \<Longrightarrow> rcount p1 b = 1" using shrunk_taken [OF 2] by blast
  note A = shrunkD [OF 1] and B = shrunkD [OF 2]
  show ?thesis
  proof (rule shrunkI [where G = "G + G'"])
    fix b assume b: "b \<in># G + G'"
    show "rcount p b = 1"
    proof (cases "b \<in># G")
      case True
      then show ?thesis by (rule G(4))
    next
      case False
      then have "count G b = 0" by (simp add: not_in_iff)
      moreover have "b \<in># G'" using b False by simp
      ultimately show ?thesis using G(3) [of b] G'(4) [of b] by simp
    qed
  next
    show "dom (rt_nodes t') \<noteq> dom (rt_nodes t)" if "0 < j + k" using that A(9,10) B(9,10) by auto
    show "pool_rel p p'" by (rule pool_rel_trans [OF A(3) B(3)])
    show "keeps t t' n" if "n \<in># pins" for n by (rule keeps_trans [OF A(4) [OF that] B(4) [OF that]])
  qed (use A B G(1-3) G'(1-3) in auto)
qed

lemma shrunk_refs: "shrunk pins t p k t' p' \<Longrightarrow> tree_refs t p \<Longrightarrow> tree_refs t' p'"
  unfolding shrunk_def tree_refs_def by (metis add_le_cancel_right count_union)

lemma tree_is_sole_owner_ok:
  "(\<And>b. b \<in> set bs \<Longrightarrow> 0 < rcount p b) \<Longrightarrow> sys_inv p \<Longrightarrow>
     tree_is_sole_owner p bs = Inr (\<forall>b \<in> set bs. rcount p b = 1)"
proof (induction bs)
  case (Cons b bs)
  have l: "b < length (bp_location p)" using Cons.prems(1) [of b] by (simp add: rcount_def split: if_splits)
  then have "refcount p b = Inr (rcount p b)"
    using pool_invD(1) [OF sys_invD(1) [OF Cons.prems(2)]] by (simp add: refcount_def rcount_def)
  then show ?case using Cons by simp
qed simp

lemma drop_cached:
  assumes d: "droppable t v vn q qn" and c: "cached (drop_node t v vn q qn) P b"
  shows "cached t P b"
proof -
  let ?t = "drop_node t v vn q qn"
  have wf: "tree_wf t" using d by (simp add: droppable_def)
  obtain n xs i where x: "chain (rt_nodes ?t) (rt_root t) n xs" "i < length (path_blocks (rt_nodes ?t) xs)"
    "P = take ((i + 1) * rt_block_tokens t) (path (rt_nodes ?t) xs)" "b = path_blocks (rt_nodes ?t) xs ! i"
    using c unfolding cached_def drop_simps by blast
  obtain nd' where "rt_nodes ?t n = Some nd'" using chain_node_exists [OF drop_wf [OF d], of n xs] x(1) by auto
  then have "n \<in> dom (rt_nodes t) - {v}" using drop_dom [OF d] by blast
  then obtain nd where n: "rt_nodes t n = Some nd" "n \<noteq> v" by blast
  obtain ys where ys: "chain (rt_nodes t) (rt_root t) n ys" using wf_chain [OF wf n(1)] .
  note D = drop_chain [OF d ys n(2)]
  have "xs = ys" using chain_unique [OF x(1) D(1)] .
  then show ?thesis unfolding cached_def using x D ys by metis
qed

lemma drop_shrunk:
  assumes d: "droppable t v vn q qn" and inv: "tree_inv t pins" and sys: "sys_inv p" and refs: "tree_refs t p"
    and lock: "nd_lock vn = 0" and sole: "\<forall>b \<in> set (nd_blocks vn). rcount p b = 1"
  shows "\<exists>p'. drop_leaf t p v = Inr (length (nd_blocks vn), drop_node t v vn q qn, p')
     \<and> shrunk pins t p (length (nd_blocks vn)) (drop_node t v vn q qn) p'"
proof -
  let ?bs = "nd_blocks vn"
  have v: "rt_nodes t v = Some vn" using d by (simp add: droppable_def)
  note le = tree_refs_node [OF tree_invD(1) [OF inv] refs v]
  have one: "count (mset ?bs) b = 1" if "b \<in> set ?bs" for b
  proof -
    have "count (mset ?bs) b \<le> 1" using le(1) [of b] sole that by auto
    moreover have "0 < count (mset ?bs) b" using that by simp
    ultimately show ?thesis by linarith
  qed
  then have dist: "distinct ?bs" using distinct_count_atmost_1 by (metis count_mset_0_iff)
  have "{b \<in> set ?bs. rcount p b = count (mset ?bs) b} = set ?bs" using one sole by auto
  then have k: "card {b \<in> set ?bs. rcount p b = count (mset ?bs) b} = length ?bs" using distinct_card [OF dist] by simp
  obtain p' where p': "drop_leaf t p v = Inr (length ?bs, drop_node t v vn q qn, p')" "sys_inv p'" "pool_rel p p'"
    "rcount p' = (\<lambda>b. rcount p b - count (mset ?bs) b)"
    using drop_leaf_ok [OF d sys] le(1) unfolding k by blast
  note T = drop_tree_inv [OF d inv lock]
  have dom': "dom (rt_nodes (drop_node t v vn q qn)) \<subset> dom (rt_nodes t)"
    "dom (rt_nodes (drop_node t v vn q qn)) \<subseteq> dom (rt_nodes t)"
    unfolding drop_dom [OF d] using v by auto
  have "shrunk pins t p (length ?bs) (drop_node t v vn q qn) p'"
  proof (rule shrunkI [where G = "mset ?bs"])
    show "tree_inv (drop_node t v vn q qn) pins" by (rule T(1))
    show "keeps t (drop_node t v vn q qn) n" if "n \<in># pins" for n using T(2,3) that by metis
    show "tree_blocks t = tree_blocks (drop_node t v vn q qn) + mset ?bs" by (rule drop_blocks [OF d])
    show "rcount p b = rcount p' b + count (mset ?bs) b" for b using le(1) [of b] by (simp add: p'(4))
  qed (use p'(2,3) drop_cached [OF d] dom' sole in auto)
  with p'(1) show ?thesis by blast
qed

text \<open>Nodes already set aside hold a block the tree shares with somebody else.\<close>

definition shared :: "RadixTree \<Rightarrow> BlockPool \<Rightarrow> nat \<Rightarrow> bool" where
  "shared t p n \<longleftrightarrow> (\<exists>nd b. rt_nodes t n = Some nd \<and> b \<in> set (nd_blocks nd) \<and> rcount p b \<noteq> 1)"

definition open_nodes :: "RadixTree \<Rightarrow> nat list \<Rightarrow> nat set" where
  "open_nodes t rejected = dom (rt_nodes t) - {rt_root t} - set rejected"

lemma drop_shared:
  assumes d: "droppable t v vn q qn" and sole: "\<forall>b \<in> set (nd_blocks vn). rcount p b = 1"
    and s: "shrunk pins t p (length (nd_blocks vn)) (drop_node t v vn q qn) p'" and n: "shared t p n"
  shows "shared (drop_node t v vn q qn) p' n"
proof -
  let ?t = "drop_node t v vn q qn"
  have v: "rt_nodes t v = Some vn" using d by (simp add: droppable_def)
  obtain nd b where nd: "rt_nodes t n = Some nd" "b \<in> set (nd_blocks nd)" "rcount p b \<noteq> 1" using n by (auto simp: shared_def)
  have nv: "n \<noteq> v" using nd v sole by auto
  obtain nd' where nd': "rt_nodes ?t n = Some nd'" "nd_blocks nd' = nd_blocks nd" using drop_old [OF d nd(1) nv] .
  obtain G where "\<forall>b. rcount p b = rcount p' b + count G b" "\<forall>b \<in># G. rcount p b = 1" using s unfolding shrunk_def by blast
  then have "rcount p' b = rcount p b" using nd(3) by (metis add.right_neutral not_in_iff)
  then show ?thesis using nd nd' by (auto simp: shared_def)
qed

lemma candidates_open: "candidates t rejected \<subseteq> open_nodes t rejected"
  by (auto simp: candidates_def lru_candidate_def open_nodes_def)

lemma open_nodes_fuel: assumes wf: "tree_wf t" shows "card (open_nodes t []) < rt_next t"
proof -
  have "dom (rt_nodes t) \<subseteq> {..<rt_next t}" using tree_wfD(2) [OF wf] by auto
  then have "card (dom (rt_nodes t)) \<le> rt_next t" using card_mono [of "{..<rt_next t}"] by simp
  moreover have "card (open_nodes t []) < card (dom (rt_nodes t))"
    using card_Diff1_less [OF wf_finite [OF wf] wf_root_dom [OF wf]] by (simp add: open_nodes_def)
  ultimately show ?thesis by linarith
qed

text \<open>One turn of the loop: the leaf found is shared and rejected, or dropped.\<close>

lemma open_nodes_less:
  assumes "tree_wf t" "v \<in> candidates t rejected"
  shows "card (open_nodes t rejected - {v}) < card (open_nodes t rejected)"
proof -
  have "finite (open_nodes t rejected)" using wf_finite [OF assms(1)] by (simp add: open_nodes_def)
  moreover have "v \<in> open_nodes t rejected" using assms(2) candidates_open by blast
  ultimately show ?thesis by (rule card_Diff1_less)
qed

lemma evict_reject:
  assumes wf: "tree_wf t" and sys: "sys_inv p" and refs: "tree_refs t p" and want: "freed < want"
    and v: "find_lru_leaf t rejected = Inr (Some v)" "v \<in> candidates t rejected" "shared t p v"
  shows "evict_loop (Suc fuel) want t p freed rejected = evict_loop fuel want t p freed (rejected @ [v])"
    "card (open_nodes t (rejected @ [v])) < card (open_nodes t rejected)"
proof -
  obtain vn where vn: "rt_nodes t v = Some vn" using v(2) by (auto simp: candidates_def)
  have "\<not> (\<forall>b \<in> set (nd_blocks vn). rcount p b = 1)" using v(3) vn by (auto simp: shared_def)
  then have "tree_is_sole_owner p (nd_blocks vn) = Inr False"
    using tree_is_sole_owner_ok [OF tree_refs_node(2) [OF wf refs vn] sys] by simp
  then show "evict_loop (Suc fuel) want t p freed rejected = evict_loop fuel want t p freed (rejected @ [v])"
    using want v(1) vn by simp
  have "open_nodes t (rejected @ [v]) = open_nodes t rejected - {v}" by (auto simp: open_nodes_def)
  then show "card (open_nodes t (rejected @ [v])) < card (open_nodes t rejected)" using open_nodes_less [OF wf v(2)] by simp
qed

text \<open>The block counts of the nodes: the last leaf dropped bounds how far the loop overshoots.\<close>

definition node_sizes :: "RadixTree \<Rightarrow> nat set" where
  "node_sizes t = {length (nd_blocks nd) | n nd. rt_nodes t n = Some nd}"

lemma drop_sizes:
  assumes d: "droppable t v vn q qn"
  shows "node_sizes (drop_node t v vn q qn) \<subseteq> node_sizes t"
proof
  fix s assume "s \<in> node_sizes (drop_node t v vn q qn)"
  then obtain n nd' where n: "rt_nodes (drop_node t v vn q qn) n = Some nd'" "s = length (nd_blocks nd')" by (auto simp: node_sizes_def)
  then have "n \<in> dom (rt_nodes t) - {v}" using drop_dom [OF d] by blast
  then obtain nd where nd: "rt_nodes t n = Some nd" "n \<noteq> v" by blast
  obtain nd1 where "rt_nodes (drop_node t v vn q qn) n = Some nd1" "nd_blocks nd1 = nd_blocks nd" by (rule drop_old [OF d nd])
  then have "s = length (nd_blocks nd)" using n by simp
  then show "s \<in> node_sizes t" using nd(1) by (auto simp: node_sizes_def)
qed

lemma evict_drop:
  assumes inv: "tree_inv t pins" and sys: "sys_inv p" and refs: "tree_refs t p" and want: "freed < want"
    and v: "find_lru_leaf t rejected = Inr (Some v)" "v \<in> candidates t rejected" "\<not> shared t p v"
    and sh: "\<forall>r \<in> set rejected. shared t p r"
  shows "\<exists>j t1 p1. 0 < j \<and> j \<in> node_sizes t \<and> node_sizes t1 \<subseteq> node_sizes t \<and> evict_loop (Suc fuel) want t p freed rejected = evict_loop fuel want t1 p1 (freed + j) rejected
     \<and> shrunk pins t p j t1 p1 \<and> (\<forall>r \<in> set rejected. shared t1 p1 r) \<and> card (open_nodes t1 rejected) < card (open_nodes t rejected)"
proof -
  have wf: "tree_wf t" by (rule tree_invD(1) [OF inv])
  obtain vn where vn: "rt_nodes t v = Some vn" "v \<noteq> rt_root t" "nd_children vn = []" "nd_lock vn = 0"
    using v(2) by (auto simp: candidates_def lru_candidate_def)
  have sole: "\<forall>b \<in> set (nd_blocks vn). rcount p b = 1" using v(3) vn(1) by (simp add: shared_def)
  have so: "tree_is_sole_owner p (nd_blocks vn) = Inr True"
    using tree_is_sole_owner_ok [OF tree_refs_node(2) [OF wf refs vn(1)] sys] sole by simp
  obtain q qn where d: "droppable t v vn q qn" using droppableI [OF wf vn(1-3)] .
  let ?t = "drop_node t v vn q qn" and ?j = "length (nd_blocks vn)"
  obtain p1 where p1: "drop_leaf t p v = Inr (?j, ?t, p1)" and s: "shrunk pins t p ?j ?t p1"
    using drop_shrunk [OF d inv sys refs vn(4) sole] by blast
  have j: "0 < ?j" using wf_body(1) [OF wf vn(1,2)] by simp
  have "evict_loop (Suc fuel) want t p freed rejected = evict_loop fuel want ?t p1 (freed + ?j) rejected"
    using want v(1) vn(1) so p1 j by simp
  moreover have "open_nodes ?t rejected = open_nodes t rejected - {v}" by (auto simp: open_nodes_def drop_dom [OF d])
  then have "card (open_nodes ?t rejected) < card (open_nodes t rejected)" using open_nodes_less [OF wf v(2)] by simp
  moreover have "\<forall>r \<in> set rejected. shared ?t p1 r" using drop_shared [OF d sole s] sh by blast
  moreover have "?j \<in> node_sizes t" using vn(1) by (auto simp: node_sizes_def)
  ultimately show ?thesis using j s drop_sizes [OF d] by (intro exI [of _ ?j] exI [of _ ?t] exI [of _ p1] conjI)
qed

lemma evict_loop_ok:
  assumes "tree_inv t pins" and "sys_inv p" and "tree_refs t p"
    and "\<forall>r \<in> set rejected. shared t p r" and "card (open_nodes t rejected) < fuel"
  shows "\<exists>k t' p'. evict_loop fuel want t p freed rejected = Inr (freed + k, t', p') \<and> shrunk pins t p k t' p'
     \<and> (freed + k < want \<longrightarrow> (\<forall>n \<in> candidates t' []. shared t' p' n)) \<and> (k = 0 \<or> (\<exists>s \<in> node_sizes t. freed + k < want + s))"
  using assms
proof (induction fuel arbitrary: t p freed rejected)
  case (Suc fuel)
  note inv = Suc.prems(1) and sys = Suc.prems(2) and refs = Suc.prems(3)
  have wf: "tree_wf t" by (rule tree_invD(1) [OF inv])
  obtain r where r: "find_lru_leaf t rejected = Inr r" "least_recent t (candidates t rejected) r"
    using find_lru_leaf_ok [OF wf] by blast
  consider "want \<le> freed" | "freed < want" "r = None" | v where "freed < want" "r = Some v" "shared t p v"
    | v where "freed < want" "r = Some v" "\<not> shared t p v" by (cases r) fastforce+
  then show ?case
  proof cases
    case 1
    then show ?thesis using shrunk_refl [OF inv sys] by (auto intro!: exI [of _ 0])
  next
    case 2
    then have "candidates t rejected = {}" using r(2) by (simp add: least_recent_def)
    then have "shared t p n" if "n \<in> candidates t []" for n
      using that Suc.prems(4) unfolding candidates_def lru_candidate_def by blast
    then show ?thesis using 2 r shrunk_refl [OF inv sys] by (auto intro!: exI [of _ 0])
  next
    case 3
    note R = evict_reject [OF wf sys refs 3(1) r(1) [unfolded 3(2)] _ 3(3)]
    have vc: "v \<in> candidates t rejected" using r(2) 3(2) by (simp add: least_recent_def)
    show ?thesis unfolding R(1) [OF vc] using Suc.prems(4,5) 3(3) R(2) [OF vc] by (intro Suc.IH [OF inv sys refs]) auto
  next
    case 4
    have vc: "v \<in> candidates t rejected" using r(2) 4(2) by (simp add: least_recent_def)
    obtain j t1 p1 where sz: "j \<in> node_sizes t" "node_sizes t1 \<subseteq> node_sizes t" and d: "0 < j" "evict_loop (Suc fuel) want t p freed rejected = evict_loop fuel want t1 p1 (freed + j) rejected"
      "shrunk pins t p j t1 p1" "\<forall>r \<in> set rejected. shared t1 p1 r" "card (open_nodes t1 rejected) < card (open_nodes t rejected)"
      using evict_drop [OF inv sys refs 4(1) r(1) [unfolded 4(2)] vc 4(3) Suc.prems(4)] by blast
    have i1: "tree_inv t1 pins" "sys_inv p1" "card (open_nodes t1 rejected) < fuel" using d(3,5) Suc.prems(5) by (simp_all add: shrunk_def)
    obtain k t' p' where k: "evict_loop fuel want t1 p1 (freed + j) rejected = Inr (freed + j + k, t', p')"
      "shrunk pins t1 p1 k t' p'" "freed + j + k < want \<longrightarrow> (\<forall>n \<in> candidates t' []. shared t' p' n)"
      "k = 0 \<or> (\<exists>s \<in> node_sizes t1. freed + j + k < want + s)"
      using Suc.IH [OF i1(1,2) shrunk_refs [OF d(3) refs] d(4) i1(3), of "freed + j"] by blast
    have "\<exists>s \<in> node_sizes t. freed + (j + k) < want + s" using k(4)
    proof
      assume "k = 0"
      then show ?thesis using 4(1) sz(1) by (intro bexI [of _ j]) simp_all
    qed (use sz(2) in \<open>auto simp: add.assoc\<close>)
    then show ?thesis using d(2) k(1-3) shrunk_trans [OF d(3) k(2)]
      by (intro exI [of _ "j + k"] exI [of _ t'] exI [of _ p']) (simp add: add.assoc)
  qed
qed simp

lemma evict_bounded:
  assumes inv: "tree_inv t pins" and "sys_inv p" and "tree_refs t p"
  shows "\<exists>k t' p'. evict t p want = Inr (k, t', p') \<and> shrunk pins t p k t' p'
     \<and> (k < want \<longrightarrow> (\<forall>n \<in> candidates t' []. shared t' p' n)) \<and> (k = 0 \<or> (\<exists>s \<in> node_sizes t. k < want + s))"
proof -
  have wf: "tree_wf t" by (rule tree_invD(1) [OF inv])
  have "card (open_nodes t []) < rt_next t" by (rule open_nodes_fuel [OF wf])
  then show ?thesis using evict_loop_ok [OF assms, of "[]" "rt_next t" want 0] by (fastforce simp: evict_def)
qed

lemma evict_ok:
  assumes "tree_inv t pins" and "sys_inv p" and "tree_refs t p"
  shows "\<exists>k t' p'. evict t p want = Inr (k, t', p') \<and> shrunk pins t p k t' p'
     \<and> (k < want \<longrightarrow> (\<forall>n \<in> candidates t' []. shared t' p' n))"
  using evict_bounded [OF assms, of want] by (elim exE conjE) (intro exI conjI)

subsection \<open>Demotion victims\<close>

definition demotable :: "BlockPool \<Rightarrow> BlockId \<Rightarrow> bool" where
  "demotable p b \<longleftrightarrow> loc_tier (bp_location p ! b) = 0 \<and> rcount p b = 1 \<and> \<not> migrating p b"

definition coldest :: "RadixTree \<Rightarrow> BlockPool \<Rightarrow> nat set \<Rightarrow> BlockId set" where
  "coldest t p N = {b. demotable p b \<and> (\<exists>n \<in> N. \<exists>nd. rt_nodes t n = Some nd \<and> b \<in> set (nd_blocks nd))}"

lemma block_tier_rcount: "sys_inv p \<Longrightarrow> 0 < rcount p b \<Longrightarrow> block_tier p b = Inr (loc_tier (bp_location p ! b))"
  using locate_live [OF sys_invD(1), of p b] by (simp add: block_tier_def live_rcount)

lemma refcount_rcount: "sys_inv p \<Longrightarrow> 0 < rcount p b \<Longrightarrow> refcount p b = Inr (rcount p b)"
  using pool_invD(1) [OF sys_invD(1), of p] by (simp add: refcount_def rcount_def split: if_splits)

lemma pick_block_ok:
  assumes "sys_inv p" and "0 < rcount p b"
  shows "pick_block p k b out = Inr (if length out < k \<and> demotable p b then out @ [b] else out)"
  using block_tier_rcount [OF assms] refcount_rcount [OF assms] by (simp add: pick_block_def demotable_def)

lemma pick_blocks_ok:
  assumes "sys_inv p" and "\<And>b. b \<in> set bs \<Longrightarrow> 0 < rcount p b"
  shows "foldE (pick_block p k) bs out = Inr (out @ take (k - length out) (filter (demotable p) bs))"
  using assms(2)
proof (induction bs arbitrary: out)
  case (Cons b bs)
  have "pick_block p k b out = Inr (if length out < k \<and> demotable p b then out @ [b] else out)"
    using Cons.prems by (intro pick_block_ok [OF assms(1)]) simp
  then show ?case
    using Cons.IH Cons.prems by (cases "k - length out") (auto simp: diff_Suc)
qed simp

lemma nodes_disjoint:
  assumes wf: "tree_wf t" and m: "rt_nodes t m = Some md" and n: "rt_nodes t n = Some nd" "m \<noteq> n"
  shows "mset (nd_blocks md) + mset (nd_blocks nd) \<subseteq># tree_blocks t"
proof -
  let ?f = "\<lambda>n. mset (nd_blocks (the (rt_nodes t n)))"
  have d: "m \<in> dom (rt_nodes t)" "n \<in> dom (rt_nodes t) - {m}" using m n by auto
  have "tree_blocks t = ?f m + (?f n + sum ?f (dom (rt_nodes t) - {m} - {n}))"
    unfolding tree_blocks_def
    using sum.remove [OF wf_finite [OF wf] d(1), of ?f] sum.remove [OF _ d(2), of ?f] wf_finite [OF wf] by simp
  then show ?thesis using m n(1) by (simp add: add.assoc [symmetric])
qed


lemma tree_refs_one:
  assumes "tree_refs t p" and "rcount p b = 1" shows "count (tree_blocks t) b \<le> 1"
  using assms by (metis tree_refs_def)

lemma demotable_unique:
  assumes wf: "tree_wf t" and refs: "tree_refs t p" and b: "demotable p b"
    and m: "rt_nodes t m = Some md" "b \<in> set (nd_blocks md)" and n: "rt_nodes t n = Some nd" "b \<in> set (nd_blocks nd)"
  shows "m = n"
proof (rule ccontr)
  assume "m \<noteq> n"
  from mset_subset_eq_count [OF nodes_disjoint [OF wf m(1) n(1) this], of b]
  have "count (mset (nd_blocks md)) b + count (mset (nd_blocks nd)) b \<le> 1"
    using tree_refs_one [OF refs, of b] b by (simp add: demotable_def)
  moreover have "0 < count (mset (nd_blocks md)) b" "0 < count (mset (nd_blocks nd)) b" using m n by simp_all
  ultimately show False by linarith
qed

lemma demotable_distinct:
  assumes wf: "tree_wf t" and refs: "tree_refs t p" and n: "rt_nodes t n = Some nd"
  shows "distinct (filter (demotable p) (nd_blocks nd))"
proof -
  have "count (mset (filter (demotable p) (nd_blocks nd))) b \<le> 1" for b
  proof (cases "demotable p b")
    case True
    then show ?thesis
      using tree_refs_one [OF refs, of b] mset_subset_eq_count [OF node_blocks [OF wf n], of b]
      by (simp add: demotable_def)
  next
    case False
    then show ?thesis by simp
  qed
  then show ?thesis unfolding distinct_count_atmost_1
    by (metis count_mset_0_iff le_antisym less_one linorder_not_less)
qed

text \<open>The picker's loop: what it has collected comes from the nodes it has set aside.\<close>

definition picked :: "RadixTree \<Rightarrow> BlockPool \<Rightarrow> nat \<Rightarrow> nat set \<Rightarrow> BlockId list \<Rightarrow> bool" where
  "picked t p k N out \<longleftrightarrow> distinct out \<and> length out \<le> k \<and> set out \<subseteq> coldest t p N
     \<and> (length out < k \<longrightarrow> set out = coldest t p N)"

lemma picked_step:
  assumes wf: "tree_wf t" and refs: "tree_refs t p" and v: "rt_nodes t v = Some vn" "v \<notin> N"
    and pk: "picked t p k N out"
  shows "picked t p k (insert v N) (out @ take (k - length out) (filter (demotable p) (nd_blocks vn)))"
proof -
  let ?f = "filter (demotable p) (nd_blocks vn)" and ?new = "take (k - length out) (filter (demotable p) (nd_blocks vn))"
  have out: "distinct out" "length out \<le> k" "set out \<subseteq> coldest t p N" using pk by (simp_all add: picked_def)
  have cold: "coldest t p (insert v N) = coldest t p N \<union> set ?f" using v(1) by (auto simp: coldest_def)
  have new: "set ?new \<subseteq> set ?f" by (rule set_take_subset)
  have "coldest t p N \<inter> set ?f = {}"
    using demotable_unique [OF wf refs _ _ _ v(1)] v(2) by (fastforce simp: coldest_def)
  then have "distinct (out @ ?new)" using out demotable_distinct [OF wf refs v(1)] new by auto
  moreover have "length (out @ ?new) \<le> k" using out(2) by simp
  moreover have "set (out @ ?new) = coldest t p (insert v N)" if less: "length (out @ ?new) < k"
  proof -
    have "length ?f < k - length out" using less out(2) by auto
    then have "?new = ?f" by simp
    moreover have "set out = coldest t p N" using pk less by (simp add: picked_def)
    ultimately show ?thesis using cold by simp
  qed
  ultimately show ?thesis using out(3) new cold unfolding picked_def by auto
qed

lemma pick_loop_ok:
  assumes inv: "tree_wf t" and sys: "sys_inv p" and refs: "tree_refs t p"
  shows "set rejected \<subseteq> candidates t [] \<Longrightarrow> picked t p k (set rejected) out \<Longrightarrow> card (open_nodes t rejected) < fuel \<Longrightarrow>
     \<exists>vs. pick_loop fuel k t p rejected out = Inr vs \<and> picked t p k (candidates t []) vs"
proof (induction fuel arbitrary: rejected out)
  case (Suc fuel)
  have mono: "picked t p k (candidates t []) out" if "\<not> length out < k"
  proof -
    have "coldest t p (set rejected) \<subseteq> coldest t p (candidates t [])" using Suc.prems(1) by (auto simp: coldest_def)
    then show ?thesis using Suc.prems(2) that by (auto simp: picked_def)
  qed
  show ?case
  proof (cases "length out < k")
    case False
    then show ?thesis using mono by simp
  next
    case True
    obtain r where r: "find_lru_leaf t rejected = Inr r" "least_recent t (candidates t rejected) r"
      using find_lru_leaf_ok [OF inv] by blast
    have rej: "candidates t rejected = candidates t [] - set rejected"
      by (auto simp: candidates_def lru_candidate_def)
    show ?thesis
    proof (cases r)
      case None
      then have "candidates t rejected = {}" using r(2) by (simp add: least_recent_def)
      then have "set rejected = candidates t []" using rej Suc.prems(1) by blast
      then show ?thesis using True r None Suc.prems(2) by simp
    next
      case (Some v)
      then have vc: "v \<in> candidates t rejected" using r(2) by (simp add: least_recent_def)
      then obtain vn where vn: "rt_nodes t v = Some vn" by (auto simp: candidates_def)
      let ?out = "out @ take (k - length out) (filter (demotable p) (nd_blocks vn))"
      have fold: "foldE (pick_block p k) (nd_blocks vn) out = Inr ?out"
        by (rule pick_blocks_ok [OF sys tree_refs_node(2) [OF inv refs vn]])
      have vr: "v \<notin> set rejected" "v \<in> candidates t []" using vc rej by auto
      have "picked t p k (insert v (set rejected)) ?out" by (rule picked_step [OF inv refs vn vr(1) Suc.prems(2)])
      then have pk: "picked t p k (set (rejected @ [v])) ?out" by simp
      have sub: "set (rejected @ [v]) \<subseteq> candidates t []" using vr Suc.prems(1) by simp
      have fin: "finite (open_nodes t rejected)" using wf_finite [OF inv] by (simp add: open_nodes_def)
      have "open_nodes t (rejected @ [v]) = open_nodes t rejected - {v}" by (auto simp: open_nodes_def)
      then have "card (open_nodes t (rejected @ [v])) < fuel"
        using card_Diff1_less [OF fin subsetD [OF candidates_open vc]] Suc.prems(3) by simp
      from Suc.IH [OF sub pk this] show ?thesis using True r Some vn fold by simp
    qed
  qed
qed simp

lemma pick_demotion_victims_ok:
  assumes "tree_wf t" and "sys_inv p" and "tree_refs t p"
  shows "\<exists>vs. pick_demotion_victims t p k = Inr vs \<and> picked t p k (candidates t []) vs"
  unfolding pick_demotion_victims_def
  by (rule pick_loop_ok [OF assms]) (use open_nodes_fuel [OF assms(1)] in \<open>simp_all add: picked_def coldest_def\<close>)

subsection \<open>Destruction\<close>

lemma release_blocks_ok:
  assumes "sys_inv p" and "\<And>b. count (mset bs) b \<le> rcount p b"
  shows "\<exists>p'. release_blocks bs p = Inr p' \<and> sys_inv p' \<and> pool_rel p p'
     \<and> rcount p' = (\<lambda>b. rcount p b - count (mset bs) b)"
proof -
  have "foldE (\<lambda>bid q. bindE (decref q bid) (\<lambda>(_, q'). Inr q')) bs p = Inr p'"
    if "foldE (\<lambda>b (n, s). bindE (decref s b) (\<lambda>(f, s'). Inr (if f then n + 1 else n, s'))) bs (k, p) = Inr (k', p')"
    for k k' p' :: "_" and bs p
    using that
  proof (induction bs arbitrary: k p)
    case (Cons b bs)
    then show ?case by (fastforce simp: result_simps)
  qed simp
  moreover obtain k p' where "foldE (\<lambda>b (n, s). bindE (decref s b) (\<lambda>(f, s'). Inr (if f then n + 1 else n, s'))) bs (0::nat, p) = Inr (0 + k, p')"
     "sys_inv p'" "rcount p' = (\<lambda>b. rcount p b - count (mset bs) b)" "pool_rel p p'"
    using pool.dec_all [OF assms(1), of bs 0] assms(2) by blast
  ultimately show ?thesis unfolding release_blocks_def by blast
qed


definition region :: "RadixTree \<Rightarrow> nat list \<Rightarrow> nat set" where
  "region t stack = (\<Union>c \<in> set stack. below t c)"

definition region_blocks :: "RadixTree \<Rightarrow> nat set \<Rightarrow> BlockId multiset" where
  "region_blocks t D = (\<Sum>n \<in> D. mset (nd_blocks (the (rt_nodes t n))))"

lemma region_finite: "tree_wf t \<Longrightarrow> finite (region t stack)"
  unfolding region_def using below_dom wf_finite by (meson finite_UN_I finite_set finite_subset)

lemma region_card_le: "tree_wf t \<Longrightarrow> card (region t stack) \<le> sum_list (map (\<lambda>c. card (below t c)) stack)"
proof (induction stack)
  case (Cons c stack)
  have "card (region t (c # stack)) \<le> card (below t c) + card (region t stack)"
    unfolding region_def by (simp add: card_Un_le)
  then show ?case using Cons by simp
qed (simp add: region_def)

text \<open>
  The subtrees on the stack stay disjoint: their union has as many nodes as they have
  together.
\<close>

lemma region_pop:
  assumes wf: "tree_wf t" and ne: "stack \<noteq> []" and n: "rt_nodes t (last stack) = Some nd"
    and card: "card (region t stack) = sum_list (map (\<lambda>c. card (below t c)) stack)"
  defines "stack' \<equiv> butlast stack @ map snd (nd_children nd)"
  shows "region t stack = insert (last stack) (region t stack')" "last stack \<notin> region t stack'"
    "card (region t stack') = sum_list (map (\<lambda>c. card (below t c)) stack')"
proof -
  let ?n = "last stack" and ?rest = "butlast stack"
  have st: "stack = ?rest @ [?n]" using ne by simp
  have "region t stack = region t ?rest \<union> below t ?n" unfolding region_def by (subst st) auto
  then show ins: "region t stack = insert ?n (region t stack')"
    unfolding stack'_def region_def using below_step [OF wf n] by auto
  have "sum_list (map (\<lambda>c. card (below t c)) stack) = sum_list (map (\<lambda>c. card (below t c)) ?rest) + card (below t ?n)"
    by (subst st) simp
  then have sum: "card (region t stack) = Suc (sum_list (map (\<lambda>c. card (below t c)) stack'))"
    using card below_card [OF wf n] by (simp add: stack'_def)
  note le = region_card_le [OF wf, of stack']
  show notin: "?n \<notin> region t stack'"
  proof
    assume "?n \<in> region t stack'"
    then have "region t stack = region t stack'" unfolding ins by (rule insert_absorb)
    then show False using sum le by simp
  qed
  show "card (region t stack') = sum_list (map (\<lambda>c. card (below t c)) stack')"
    using sum ins notin region_finite [OF wf, of stack'] by simp
qed

lemma stack_nonempty:
  assumes wf: "tree_wf t" and st: "set stack \<subseteq> dom (rt_nodes t)" "card (region t stack) = sum_list (map (\<lambda>c. card (below t c)) stack)"
    and ne: "stack \<noteq> []"
  shows "0 < card (region t stack)"
proof -
  obtain nd where "rt_nodes t (last stack) = Some nd" using st(1) ne by (meson domD last_in_set subsetD)
  from region_pop(1) [OF wf ne this st(2)] show ?thesis using region_finite [OF wf, of stack] by (simp add: card_gt_0_iff)
qed

lemma destroy_loop_ok:
  assumes wf: "tree_wf t"
  shows "set stack \<subseteq> dom (rt_nodes t) \<Longrightarrow> card (region t stack) = sum_list (map (\<lambda>c. card (below t c)) stack) \<Longrightarrow>
     card (region t stack) \<le> fuel \<Longrightarrow> sys_inv p \<Longrightarrow> (\<And>b. count (region_blocks t (region t stack)) b \<le> rcount p b) \<Longrightarrow>
     \<exists>p'. destroy_loop fuel (rt_nodes t |` region t stack) stack p = Inr (Map.empty, p') \<and> sys_inv p'
       \<and> rcount p' = (\<lambda>b. rcount p b - count (region_blocks t (region t stack)) b)"
proof (induction fuel arbitrary: stack p)
  case 0
  have "stack = []" using stack_nonempty [OF wf "0.prems"(1,2)] "0.prems"(3) by auto
  then show ?case using "0.prems" by (simp add: region_def region_blocks_def)
next
  case (Suc fuel)
  show ?case
  proof (cases "stack = []")
    case True
    then show ?thesis using Suc.prems by (simp add: region_def region_blocks_def)
  next
    case ne: False
    let ?n = "last stack" and ?D = "region t stack"
    obtain nd where n: "rt_nodes t ?n = Some nd" using Suc.prems(1) ne by (meson domD last_in_set subsetD)
    let ?stack' = "butlast stack @ map snd (nd_children nd)"
    let ?D' = "region t ?stack'"
    note R = region_pop [OF wf ne n Suc.prems(2)]
    have fin: "finite ?D'" by (rule region_finite [OF wf])
    have blocks: "region_blocks t ?D = mset (nd_blocks nd) + region_blocks t ?D'"
      unfolding region_blocks_def R(1) using R(2) fin n by simp
    have le: "count (mset (nd_blocks nd)) b \<le> rcount p b" for b
      using Suc.prems(5) [of b] unfolding blocks count_union by linarith
    obtain p1 where p1: "release_blocks (nd_blocks nd) p = Inr p1" "sys_inv p1"
      "rcount p1 = (\<lambda>b. rcount p b - count (mset (nd_blocks nd)) b)"
      using release_blocks_ok [OF Suc.prems(4) le] by blast
    have "set (butlast stack) \<subseteq> dom (rt_nodes t)" using Suc.prems(1) in_set_butlastD by fast
    moreover have "c \<in> dom (rt_nodes t)" if "c \<in> snd ` set (nd_children nd)" for c
      using wf_child_mem [OF wf n that] by blast
    ultimately have s': "set ?stack' \<subseteq> dom (rt_nodes t)" by auto
    have f': "card ?D' \<le> fuel" using Suc.prems(3) R(1,2) fin by simp
    have le': "count (region_blocks t ?D') b \<le> rcount p1 b" for b
      using Suc.prems(5) [of b] unfolding blocks count_union p1(3) by linarith
    obtain p' where p': "destroy_loop fuel (rt_nodes t |` ?D') ?stack' p1 = Inr (Map.empty, p')" "sys_inv p'"
      "rcount p' = (\<lambda>b. rcount p1 b - count (region_blocks t ?D') b)"
      using Suc.IH [OF s' R(3) f' p1(2) le'] by blast
    have "(rt_nodes t |` ?D)(?n := None) = rt_nodes t |` ?D'"
      using R(1,2) by (auto simp: restrict_map_def fun_eq_iff)
    moreover have "(rt_nodes t |` ?D) ?n = Some nd" using R(1) n by simp
    moreover obtain x xs where "stack = x # xs" using ne by (cases stack) simp_all
    ultimately have "destroy_loop (Suc fuel) (rt_nodes t |` ?D) stack p = destroy_loop fuel (rt_nodes t |` ?D') ?stack' p1"
      using p1(1) by (simp only: destroy_loop.simps option.case bindE_Inr)
    then show ?thesis using p' p1(3) blocks by (simp add: fun_eq_iff)
  qed
qed

lemma RadixTree_destroy_ok:
  assumes wf: "tree_wf t" and sys: "sys_inv p" and refs: "tree_refs t p"
  shows "\<exists>p'. RadixTree_destroy t p = Inr (Map.empty, p') \<and> sys_inv p'
     \<and> rcount p' = (\<lambda>b. rcount p b - count (tree_blocks t) b)"
proof -
  have reg: "region t [rt_root t] = dom (rt_nodes t)" by (simp add: region_def below_root [OF wf])
  have all: "rt_nodes t |` dom (rt_nodes t) = rt_nodes t" by (auto simp: restrict_map_def fun_eq_iff domIff)
  have "dom (rt_nodes t) \<subseteq> {..<rt_next t}" using tree_wfD(2) [OF wf] by auto
  then have "card (dom (rt_nodes t)) \<le> rt_next t" using card_mono [of "{..<rt_next t}"] by simp
  moreover have "region_blocks t (dom (rt_nodes t)) = tree_blocks t" by (simp add: region_blocks_def tree_blocks_def)
  ultimately show ?thesis
    using destroy_loop_ok [OF wf, of "[rt_root t]" "rt_next t" p] wf_root_dom [OF wf] sys refs
    by (simp add: RadixTree_destroy_def reg all below_root [OF wf] tree_refs_def)
qed

end
