(* ===== verification/Radix_Index.thy ===== *)
theory Radix_Index
  imports Radix_Evict
begin

section \<open>The prefix tree as a map from token prefixes to blocks\<close>

text \<open>
  \<open>index t\<close> is what the tree means to a client: the partial map from block-aligned token
  prefixes to the block that holds the last block of the prefix. It is well defined because
  two ways down the tree that spell the same tokens are the same way. \<open>index_step\<close> is the
  abstract behaviour of each operation on that map and \<open>reachable_tree\<close> the states a tree
  can reach under any sequence of operations, while other parts of the program
  change the pool between them without taking away the tree's references.
\<close>

subsection \<open>The index is a map\<close>

lemma path_blocks_split:
  "i < length (path_blocks H xs) \<Longrightarrow>
     \<exists>us a zs. xs = us @ a # zs \<and> length (path_blocks H zs) \<le> i \<and> i < length (path_blocks H (a # zs))"
proof (induction xs)
  case (Cons x xs)
  show ?case
  proof (cases "i < length (path_blocks H xs)")
    case True
    then obtain us a zs where "xs = us @ a # zs" "length (path_blocks H zs) \<le> i" "i < length (path_blocks H (a # zs))"
      using Cons.IH by blast
    then show ?thesis by (intro exI [of _ "x # us"]) auto
  next
    case False
    then show ?thesis using Cons.prems by (intro exI [of _ "[]"]) auto
  qed
qed simp

lemma chain_parts:
  assumes "chain H r n (us @ a # zs)"
  obtains q qn where "chain H r q zs" "a \<noteq> r" "H a = Some qn" "nd_parent qn = Some q"
proof -
  obtain us' ys where s: "us @ a # zs = us' @ a # ys" "chain H r a (a # ys)"
    using chain_suffix [OF assms, of a] by auto
  have "a \<notin> set us" "a \<notin> set zs" "a \<notin> set us'" "a \<notin> set ys"
    using chain_distinct [OF assms] s(1) by (auto dest: arg_cong [where f = distinct])
  then have "ys = zs" using s(1) by (simp add: append_Cons_eq_iff)
  then show thesis using s(2) that by (auto elim: chain_ConsE)
qed

lemma cached_unique:
  assumes wf: "tree_wf t" and c: "cached t P b" "cached t P b'"
  shows "b = b'"
proof -
  let ?H = "rt_nodes t" and ?r = "rt_root t" and ?bt = "rt_block_tokens t"
  obtain n xs i where x: "chain ?H ?r n xs" "i < length (path_blocks ?H xs)" "P = take ((i + 1) * ?bt) (path ?H xs)"
    "b = path_blocks ?H xs ! i" using c(1) unfolding cached_def by blast
  obtain m ys j where y: "chain ?H ?r m ys" "j < length (path_blocks ?H ys)" "P = take ((j + 1) * ?bt) (path ?H ys)"
    "b' = path_blocks ?H ys ! j" using c(2) unfolding cached_def by blast
  have bt: "0 < ?bt" by (rule tree_wfD(1) [OF wf])
  let ?K = "(i + 1) * ?bt"
  have K: "?K \<le> length (path ?H xs)"
    unfolding wf_path_length [OF wf x(1)] using x(2) by (intro mult_le_mono1) simp
  have "(j + 1) * ?bt \<le> length (path ?H ys)"
    unfolding wf_path_length [OF wf y(1)] using y(2) by (intro mult_le_mono1) simp
  then have "length P = (j + 1) * ?bt" unfolding y(3) by simp
  moreover have "length P = ?K" unfolding x(3) using K by simp
  ultimately have ij: "j = i" using bt by simp
  have Ky: "?K \<le> length (path ?H ys)" "take ?K (path ?H ys) = take ?K (path ?H xs)"
    using \<open>(j + 1) * ?bt \<le> length (path ?H ys)\<close> x(3) y(3) ij by simp_all
  obtain us a zs where s: "xs = us @ a # zs" "length (path_blocks ?H zs) \<le> i" "i < length (path_blocks ?H (a # zs))"
    using path_blocks_split [OF x(2)] by blast
  obtain q where q: "chain ?H ?r q zs" using chain_parts [OF x(1) [unfolded s(1)]] by blast
  obtain qn where qn: "?H q = Some qn" using chain_node_exists [OF wf q] .
  have "path ?H xs = path ?H zs @ path ?H (us @ [a])" unfolding s(1) by (simp add: path_append)
  then have pz: "path ?H zs = take (length (path ?H zs)) (path ?H xs)" by simp
  have lz: "length (path ?H zs) \<le> i * ?bt" unfolding wf_path_length [OF wf q] using s(2) by (rule mult_le_mono1)
  then have less: "length (path ?H zs) < ?K" using bt by simp
  have dvd: "?bt dvd ?K" by simp
  obtain ws where ws: "ys = ws @ zs"
    using chains_meet [OF wf q y(1) pz _ Ky dvd _ K] less K by auto
  have child: "\<exists>us' a' an. vs = us' @ [a'] \<and> map_of (nd_children qn) (block_key (drop (length (path ?H zs)) (path ?H xs)) ?bt) = Some a'"
    if "chain ?H ?r k (vs @ zs)" "?K \<le> length (path ?H (vs @ zs))" "take ?K (path ?H (vs @ zs)) = take ?K (path ?H xs)" for k vs
    using meet_child [OF wf q qn that(1) pz _ that(2,3) dvd less K] less K by auto
  obtain a1 us1 where 1: "us @ [a] = us1 @ [a1]" "map_of (nd_children qn) (block_key (drop (length (path ?H zs)) (path ?H xs)) ?bt) = Some a1"
    using child [of n "us @ [a]"] x(1) K s(1) by auto
  obtain a2 us2 where 2: "ws = us2 @ [a2]" "map_of (nd_children qn) (block_key (drop (length (path ?H zs)) (path ?H xs)) ?bt) = Some a2"
    using child [of m ws] y(1) Ky ws by auto
  have ys: "ys = us2 @ a # zs" using 1 2 ws by simp
  have "path_blocks ?H (vs @ a # zs) ! i = path_blocks ?H (a # zs) ! i" for vs
    using s(3) unfolding path_blocks_append by (simp only: nth_append if_True)
  then show ?thesis using x(4) y(4) s(1) ys ij by simp
qed

definition index :: "RadixTree \<Rightarrow> TokenId list \<rightharpoonup> BlockId" where
  "index t P = (if \<exists>b. cached t P b then Some (THE b. cached t P b) else None)"

lemma index_iff: "tree_wf t \<Longrightarrow> index t P = Some b \<longleftrightarrow> cached t P b"
proof -
  assume wf: "tree_wf t"
  have "(THE c. cached t P c) = b" if "cached t P b" for b
    using that cached_unique [OF wf] by (intro the_equality) blast+
  then show ?thesis by (auto simp: index_def)
qed

lemma index_None: "tree_wf t \<Longrightarrow> index t P = None \<longleftrightarrow> (\<forall>b. \<not> cached t P b)"
  using index_iff by (metis not_None_eq)

lemma index_eq:
  assumes "tree_wf t" "tree_wf t'" and "\<And>P b. cached t' P b \<longleftrightarrow> cached t P b"
  shows "index t' = index t"
proof
  fix P
  show "index t' P = index t P"
    using index_iff [OF assms(1), of P] index_iff [OF assms(2), of P] assms(3) [of P] by (metis option.exhaust)
qed


subsection \<open>What the operations do to the index\<close>

text \<open>\<open>bs\<close> is the block table of the longest prefix of \<open>toks\<close> that the index knows.\<close>

definition hits :: "(TokenId list \<rightharpoonup> BlockId) \<Rightarrow> nat \<Rightarrow> TokenId list \<Rightarrow> BlockId list \<Rightarrow> bool" where
  "hits idx bt toks bs \<longleftrightarrow> length bs * bt \<le> length toks
     \<and> (\<forall>i < length bs. idx (take ((i + 1) * bt) toks) = Some (bs ! i))
     \<and> (\<forall>i b. (i + 1) * bt \<le> length toks \<longrightarrow> idx (take ((i + 1) * bt) toks) = Some b \<longrightarrow> i < length bs)"

definition covers :: "RadixTree \<Rightarrow> nat option \<Rightarrow> TokenId list \<Rightarrow> BlockId list \<Rightarrow> bool" where
  "covers t node toks bs \<longleftrightarrow> (case node of
      None \<Rightarrow> toks = [] \<and> bs = []
    | Some n \<Rightarrow> n \<noteq> rt_root t \<and> (\<exists>xs. chain (rt_nodes t) (rt_root t) n xs \<and> path (rt_nodes t) xs = toks
        \<and> path_blocks (rt_nodes t) xs = bs))"

lemma hits_entry: "hits idx bt toks bs \<Longrightarrow> i < length bs \<Longrightarrow> idx (take ((i + 1) * bt) toks) = Some (bs ! i)"
  unfolding hits_def by blast

lemma hits_unique:
  assumes "hits idx bt toks bs" and "hits idx bt toks bs'" shows "bs = bs'"
proof -
  have *: "length as \<le> length cs" if h: "hits idx bt toks as" "hits idx bt toks cs" for as cs
  proof (cases "length as")
    case (Suc i)
    have "(i + 1) * bt \<le> length toks" using h(1) Suc by (simp add: hits_def)
    moreover have "idx (take ((i + 1) * bt) toks) = Some (as ! i)" using h(1) Suc by (simp add: hits_def)
    ultimately show ?thesis using h(2) Suc unfolding hits_def by fastforce
  qed simp
  have len: "length bs = length bs'" using * [OF assms] * [OF assms(2,1)] by simp
  have "bs ! i = bs' ! i" if "i < length bs" for i
    using assms that len unfolding hits_def by (metis option.inject)
  with len show ?thesis by (rule nth_equalityI)
qed

lemma match_prefix_index:
  assumes inv: "tree_inv t pins"
  shows "\<exists>res t'. match_prefix t toks = Inr (res, t') \<and> tree_inv t' pins \<and> same_index t t' \<and> index t' = index t
     \<and> rt_block_tokens t' = rt_block_tokens t \<and> rt_root t' = rt_root t
     \<and> hits (index t) (rt_block_tokens t) toks (mr_blocks res)
     \<and> mr_num_tokens res = length (mr_blocks res) * rt_block_tokens t
     \<and> covers t' (mr_node res) (take (mr_num_tokens res) toks) (mr_blocks res)"
proof -
  let ?bt = "rt_block_tokens t"
  have wf: "tree_wf t" by (rule tree_invD(1) [OF inv])
  obtain res t' n xs where m: "match_prefix t toks = Inr (res, t')" and w: "walk_inv t t'"
    and xs: "chain (rt_nodes t') (rt_root t') n xs" "path (rt_nodes t') xs = take (mr_num_tokens res) toks"
    "mr_blocks res = path_blocks (rt_nodes t') xs" and le: "mr_num_tokens res \<le> length toks"
    and node: "mr_node res = (if n = rt_root t then None else Some n)" and long: "longest t toks (length toks) (mr_num_tokens res)"
    using match_prefix_ok [OF wf] by metis
  have wf': "tree_wf t'" and bt': "rt_block_tokens t' = ?bt" and root: "rt_root t' = rt_root t"
    and cached': "\<And>P b. cached t' P b \<longleftrightarrow> cached t P b" using w by (simp_all add: walk_inv_def)
  have idx: "index t' = index t" by (rule index_eq [OF wf wf' cached'])
  have num: "mr_num_tokens res = length (mr_blocks res) * ?bt"
    using wf_path_length [OF wf' xs(1)] xs(2,3) le bt' by simp
  have "index t (take ((i + 1) * ?bt) toks) = Some (mr_blocks res ! i)" if "i < length (mr_blocks res)" for i
    using cached_path [OF xs(1,2) wf' le, of i] that xs(3) bt' by (simp add: index_iff [OF wf] cached')
  moreover have "i < length (mr_blocks res)"
    if i: "(i + 1) * ?bt \<le> length toks" "index t (take ((i + 1) * ?bt) toks) = Some b" for i b
  proof -
    let ?P = "take ((i + 1) * ?bt) toks"
    have len: "length ?P = (i + 1) * ?bt" using i(1) by simp
    have c: "cached t ?P b" using i(2) by (simp add: index_iff [OF wf])
    have "length ?P \<le> mr_num_tokens res"
      by (rule longest_cached [OF wf long c]) (use i(1) len in simp_all)
    then show ?thesis unfolding len num mult_le_cancel2 using tree_wfD(1) [OF wf] by simp
  qed
  ultimately have "hits (index t) ?bt toks (mr_blocks res)" using le num by (simp add: hits_def)
  moreover have "covers t' (mr_node res) (take (mr_num_tokens res) toks) (mr_blocks res)"
  proof (cases "n = rt_root t")
    case True
    then have "xs = []" using chain_unique [OF xs(1)] ch_root root by metis
    then show ?thesis using xs(2,3) node True by (simp add: covers_def)
  next
    case False
    then show ?thesis using xs node root by (auto simp: covers_def)
  qed
  moreover have "tree_inv t' pins" "same_index t t'"
    using match_prefix_tree(1) [OF m inv] match_prefix_tree(2) [OF m inv] by blast+
  ultimately show ?thesis using m idx num bt' root by blast
qed

definition insert_ready :: "RadixTree \<Rightarrow> BlockPool \<Rightarrow> BlockId list \<Rightarrow> bool" where
  "insert_ready t p blocks \<longleftrightarrow> length blocks * rt_block_tokens t < 2 ^ 64
     \<and> (\<forall>b \<in> set blocks. 0 < rcount p b) \<and> (\<forall>b. rcount p b + count (mset blocks) b < 2 ^ 32)"

lemma tree_insert_shape:
  assumes "tree_insert t p toks bs = Inr (k, t', p')" and "tree_wf t"
  shows "rt_root t' = rt_root t"
  using assms by (auto simp: tree_insert_def result_simps Let_def insert_loop_match [where res = undefined]
      split: if_splits elim!: touch_inv dest!: match_loop_walk_inv simp: walk_inv_def same_shape_def)

definition insert_index :: "(TokenId list \<rightharpoonup> BlockId) \<Rightarrow> nat \<Rightarrow> TokenId list \<Rightarrow> BlockId list \<Rightarrow> nat \<Rightarrow> nat
    \<Rightarrow> TokenId list \<rightharpoonup> BlockId" where
  "insert_index idx bt toks bs pre k P =
     (if \<exists>i. pre \<le> i \<and> i < pre + k \<and> P = take ((i + 1) * bt) toks then Some (bs ! (length P div bt - 1)) else idx P)"

text \<open>The blocks a walk has found, as the index sees them.\<close>

lemma walked_hits:
  fixes toks :: "TokenId list"
  assumes wf: "tree_wf t" and fit: "lb * rt_block_tokens t \<le> length toks" and pre: "pre \<le> lb"
    and long: "longest t toks (lb * rt_block_tokens t) (pre * rt_block_tokens t)"
    and all: "\<forall>i < pre. \<exists>b. cached t (take ((i + 1) * rt_block_tokens t) toks) b"
  shows "\<exists>cs. hits (index t) (rt_block_tokens t) (take (lb * rt_block_tokens t) toks) cs \<and> length cs = pre"
proof -
  let ?bt = "rt_block_tokens t"
  have bt: "0 < ?bt" by (rule tree_wfD(1) [OF wf])
  have tk: "take ((i + 1) * ?bt) (take (lb * ?bt) toks) = take ((i + 1) * ?bt) toks" if "i < lb" for i
    using mult_le_mono1 [of "i + 1" lb ?bt] that by (simp add: min_absorb1)
  define cs where "cs = map (\<lambda>i. the (index t (take ((i + 1) * ?bt) toks))) [0..<pre]"
  have "hits (index t) ?bt (take (lb * ?bt) toks) cs"
    unfolding hits_def
  proof (intro conjI allI impI)
    show "length cs * ?bt \<le> length (take (lb * ?bt) toks)" using mult_le_mono1 [OF pre, of ?bt] fit by (simp add: cs_def)
  next
    fix j assume "j < length cs"
    then have j: "j < pre" by (simp add: cs_def)
    then obtain b where "index t (take ((j + 1) * ?bt) toks) = Some b" using all index_iff [OF wf] by blast
    then show "index t (take ((j + 1) * ?bt) (take (lb * ?bt) toks)) = Some (cs ! j)" using tk [of j] j pre by (simp add: cs_def)
  next
    fix j b assume j: "(j + 1) * ?bt \<le> length (take (lb * ?bt) toks)" "index t (take ((j + 1) * ?bt) (take (lb * ?bt) toks)) = Some b"
    then have le: "(j + 1) * ?bt \<le> lb * ?bt" using fit by simp
    then have "j + 1 \<le> lb" unfolding mult_le_cancel2 using bt by simp
    then have "cached t (take ((j + 1) * ?bt) toks) b" using j(2) tk [of j] index_iff [OF wf] by simp
    moreover have "length (take ((j + 1) * ?bt) toks) = (j + 1) * ?bt" using le fit by simp
    ultimately have "(j + 1) * ?bt \<le> pre * ?bt" using longest_cached [OF wf long, of "take ((j + 1) * ?bt) toks" b] le by simp
    then have "j + 1 \<le> pre" unfolding mult_le_cancel2 using bt by simp
    then show "j < length cs" by (simp add: cs_def)
  qed
  then show ?thesis by (intro exI [of _ cs]) (simp add: cs_def)
qed

lemma added_index:
  fixes toks :: "TokenId list"
  assumes wf: "tree_wf t" "tree_wf t'" and bt: "0 < bt" and fit: "(pre + k) * bt \<le> length toks"
    and c: "\<And>P b. cached t' P b \<longleftrightarrow> cached t P b \<or> (\<exists>i. pre \<le> i \<and> i < pre + k \<and> P = take ((i + 1) * bt) toks \<and> b = bs ! i)"
  shows "index t' = insert_index (index t) bt toks bs pre k"
proof
  fix P
  show "index t' P = insert_index (index t) bt toks bs pre k P"
  proof (cases "\<exists>i. pre \<le> i \<and> i < pre + k \<and> P = take ((i + 1) * bt) toks")
    case True
    then obtain j where j: "pre \<le> j" "j < pre + k" "P = take ((j + 1) * bt) toks" by blast
    then have "(j + 1) * bt \<le> length toks" using mult_le_mono1 [of "j + 1" "pre + k" bt] fit by linarith
    then have "length P div bt - 1 = j" using bt unfolding j(3) by simp
    moreover have "index t' P = Some (bs ! j)" using c j index_iff [OF wf(2)] by blast
    ultimately show ?thesis using True by (simp add: insert_index_def)
  next
    case False
    then have "index t' P = Some b \<longleftrightarrow> index t P = Some b" for b
      using c [of P b] index_iff [OF wf(1), of P b] index_iff [OF wf(2), of P b] by blast
    then have "index t' P = index t P" by (metis option.exhaust)
    then show ?thesis unfolding insert_index_def if_not_P [OF False] .
  qed
qed

lemma tree_insert_result:
  fixes toks :: "TokenId list"
  assumes inv: "tree_inv t pins" and sys: "sys_inv p" and ready: "insert_ready t p bs"
  defines "lb \<equiv> insert_blocks t toks bs" and "bt \<equiv> rt_block_tokens t"
  shows "\<exists>k t' p' pre cs. tree_insert t p toks bs = Inr (k, t', p') \<and> tree_inv t' pins \<and> sys_inv p' \<and> pool_rel p p'
     \<and> (\<forall>n. keeps t t' n) \<and> rt_block_tokens t' = bt \<and> rt_root t' = rt_root t
     \<and> hits (index t) bt (take (lb * bt) toks) cs \<and> pre = length cs \<and> (k = 0 \<or> k = lb - pre) \<and> k = (if key_taken (dom (index t)) bt toks pre then 0 else lb - pre)
     \<and> index t' = insert_index (index t) bt toks bs pre k
     \<and> rcount p' = (\<lambda>b. rcount p b + count (mset (take k (drop pre bs))) b)
     \<and> tree_blocks t' = tree_blocks t + mset (take k (drop pre bs))
     \<and> rt_collisions t' = (if k = 0 \<and> pre < lb then u64 (rt_collisions t + 1) else rt_collisions t)"
proof -
  have wf: "tree_wf t" by (rule tree_invD(1) [OF inv])
  have bt: "0 < bt" using tree_wfD(1) [OF wf] by (simp add: bt_def)
  note R = ready [unfolded insert_ready_def, THEN conjunct1] ready [unfolded insert_ready_def, THEN conjunct2, THEN conjunct1]
    ready [unfolded insert_ready_def, THEN conjunct2, THEN conjunct2]
  obtain k t' p' pre where i: "tree_insert t p toks bs = Inr (k, t', p')" "tree_wf t'" "sys_inv p'" "pool_rel p p'"
    "rt_block_tokens t' = bt" "pre \<le> lb" "longest t toks (lb * bt) (pre * bt)" "k = 0 \<or> k = lb - pre"
    "\<forall>i < pre. \<exists>b. cached t (take ((i + 1) * bt) toks) b"
    "rcount p' = (\<lambda>b. rcount p b + count (mset (take k (drop pre bs))) b)"
    and c: "\<And>P b. cached t' P b \<longleftrightarrow> cached t P b
          \<or> (\<exists>i. pre \<le> i \<and> i < pre + k \<and> P = take ((i + 1) * bt) toks \<and> b = bs ! i)"
    and coll: "rt_collisions t' = (if k = 0 \<and> pre < lb then u64 (rt_collisions t + 1) else rt_collisions t)"
    and tk: "k = (if key_taken {P. \<exists>b. cached t P b} bt toks pre then 0 else lb - pre)"
    using tree_insert_index [OF wf sys R, of toks] unfolding lb_def bt_def by blast
  have lb: "lb * bt \<le> length toks" unfolding lb_def bt_def by (rule insert_blocks_fit)
  obtain cs where cs: "hits (index t) bt (take (lb * bt) toks) cs" "length cs = pre"
    using walked_hits [of t lb toks pre] wf lb i(6,7,9) unfolding bt_def by blast
  have "pre + k \<le> lb" using i(6,8) by linarith
  then have "(pre + k) * bt \<le> length toks" using mult_le_mono1 [of "pre + k" lb bt] lb by linarith
  then have idx: "index t' = insert_index (index t) bt toks bs pre k" by (rule added_index [OF wf i(2) bt _ c])
  have "{P. \<exists>b. cached t P b} = dom (index t)" using index_iff [OF wf] by (auto simp: dom_def)
  then have kt: "k = (if key_taken (dom (index t)) bt toks pre then 0 else lb - pre)" using tk by simp
  note T = tree_insert_tree [OF inv sys R i(1)]
  have "tree_blocks t' = tree_blocks t + mset (take k (drop pre bs))"
    using T(3) i(10) by (intro multiset_eqI) simp
  moreover have "rt_root t' = rt_root t" by (rule tree_insert_shape [OF i(1) wf])
  ultimately show ?thesis using i(1,3,4,5,8,10) T(1,2) cs idx coll kt by blast
qed


subsection \<open>Histories of a tree\<close>

datatype tree_op =
    Match "TokenId list" | Insert "TokenId list" "BlockId list" | Evict nat | Lock nat | Unlock nat

fun tree_exec :: "tree_op \<Rightarrow> RadixTree \<times> BlockPool \<Rightarrow> (RadixTree \<times> BlockPool) result" where
  "tree_exec (Match toks) (t, p) = bindE (match_prefix t toks) (\<lambda>(_, t'). Inr (t', p))"
| "tree_exec (Insert toks bs) (t, p) = bindE (tree_insert t p toks bs) (\<lambda>(_, t', p'). Inr (t', p'))"
| "tree_exec (Evict n) (t, p) = bindE (evict t p n) (\<lambda>(_, t', p'). Inr (t', p'))"
| "tree_exec (Lock n) (t, p) = bindE (lock t n) (\<lambda>t'. Inr (t', p))"
| "tree_exec (Unlock n) (t, p) = bindE (unlock t n) (\<lambda>t'. Inr (t', p))"

text \<open>
  What a client owes: to insert blocks it holds references on, to pin nodes of the tree and
  fewer than \<open>2 ^ 32\<close> of them at a time, and to unpin what it has pinned.
\<close>

fun tree_allowed :: "RadixTree \<Rightarrow> BlockPool \<Rightarrow> nat multiset \<Rightarrow> tree_op \<Rightarrow> bool" where
  "tree_allowed t p pins (Insert toks bs) \<longleftrightarrow> insert_ready t p bs"
| "tree_allowed t p pins (Lock n) \<longleftrightarrow> n \<noteq> rt_root t \<and> rt_nodes t n \<noteq> None \<and> size pins + 1 < 2 ^ 32"
| "tree_allowed t p pins (Unlock n) \<longleftrightarrow> n \<in># pins"
| "tree_allowed t p pins _ \<longleftrightarrow> True"

fun pins_after :: "tree_op \<Rightarrow> nat multiset \<Rightarrow> nat multiset" where
  "pins_after (Lock n) pins = add_mset n pins"
| "pins_after (Unlock n) pins = pins - {#n#}"
| "pins_after _ pins = pins"

inductive index_step :: "nat \<Rightarrow> tree_op \<Rightarrow> (TokenId list \<rightharpoonup> BlockId) \<Rightarrow> (TokenId list \<rightharpoonup> BlockId) \<Rightarrow> bool"
  for bt where
  ix_match: "index_step bt (Match toks) idx idx"
| ix_insert: "hits idx bt (take (min (length toks div bt) (length bs) * bt) toks) cs \<Longrightarrow>
     k = (if key_taken (dom idx) bt toks (length cs) then 0 else min (length toks div bt) (length bs) - length cs) \<Longrightarrow>
     index_step bt (Insert toks bs) idx (insert_index idx bt toks bs (length cs) k)"
| ix_evict: "idx' \<subseteq>\<^sub>m idx \<Longrightarrow> index_step bt (Evict n) idx idx'"
| ix_lock: "index_step bt (Lock n) idx idx"
| ix_unlock: "index_step bt (Unlock n) idx idx"

inductive reachable_tree :: "nat \<Rightarrow> RadixTree \<Rightarrow> BlockPool \<Rightarrow> nat multiset \<Rightarrow> bool" for bt where
  rt_init: "RadixTree_new bt = Inr t \<Longrightarrow> sys_inv p \<Longrightarrow> reachable_tree bt t p {#}"
| rt_env: "reachable_tree bt t p pins \<Longrightarrow> sys_inv p' \<Longrightarrow> tree_refs t p' \<Longrightarrow> reachable_tree bt t p' pins"
| rt_step: "reachable_tree bt t p pins \<Longrightarrow> tree_allowed t p pins oper \<Longrightarrow> tree_exec oper (t, p) = Inr (t', p') \<Longrightarrow>
     reachable_tree bt t' p' (pins_after oper pins)"

definition tree_ok :: "nat \<Rightarrow> RadixTree \<Rightarrow> BlockPool \<Rightarrow> nat multiset \<Rightarrow> bool" where
  "tree_ok bt t p pins \<longleftrightarrow> tree_inv t pins \<and> sys_inv p \<and> tree_refs t p \<and> rt_block_tokens t = bt"

lemma map_locks_ok:
  assumes "tree_ok bt t p pins" and "tree_inv (map_locks f S t) pins'"
  shows "tree_ok bt (map_locks f S t) p pins'" "index (map_locks f S t) = index t"
proof -
  have s: "same_shape t (map_locks f S t)" by (rule map_locks_shape)
  have "tree_blocks (map_locks f S t) = tree_blocks t" using same_shape_index [OF s] by (simp add: same_index_def)
  then show "tree_ok bt (map_locks f S t) p pins'" using assms by (simp add: tree_ok_def tree_refs_def)
  show "index (map_locks f S t) = index t"
    by (rule index_eq) (use assms same_shape_cached [OF s] in \<open>auto simp: tree_ok_def dest: tree_invD(1)\<close>)
qed

lemma tree_step_ok:
  assumes ok: "tree_ok bt t p pins" and allowed: "tree_allowed t p pins oper"
  shows "\<exists>t' p'. tree_exec oper (t, p) = Inr (t', p') \<and> tree_ok bt t' p' (pins_after oper pins)
     \<and> index_step bt oper (index t) (index t')"
proof -
  have inv: "tree_inv t pins" and sys: "sys_inv p" and refs: "tree_refs t p" and bt: "rt_block_tokens t = bt"
    using ok by (simp_all add: tree_ok_def)
  show ?thesis
  proof (cases oper)
    case (Match toks)
    obtain res t' where m: "match_prefix t toks = Inr (res, t')" "tree_inv t' pins" "same_index t t'" "index t' = index t"
      "rt_block_tokens t' = rt_block_tokens t" using match_prefix_index [OF inv] by blast
    then have "tree_ok bt t' p pins" using sys refs bt by (simp add: tree_ok_def tree_refs_def same_index_def)
    then show ?thesis using Match m(1,4) by (simp add: ix_match)
  next
    case (Insert toks bs)
    have ready: "insert_ready t p bs" using allowed Insert by simp
    obtain k t' p' cs where i: "tree_insert t p toks bs = Inr (k, t', p')" "tree_inv t' pins" "sys_inv p'"
      "rt_block_tokens t' = rt_block_tokens t" "hits (index t) (rt_block_tokens t) (take (insert_blocks t toks bs * rt_block_tokens t) toks) cs"
      "k = (if key_taken (dom (index t)) (rt_block_tokens t) toks (length cs) then 0 else insert_blocks t toks bs - length cs)"
      "index t' = insert_index (index t) (rt_block_tokens t) toks bs (length cs) k"
      "rcount p' = (\<lambda>b. rcount p b + count (mset (take k (drop (length cs) bs))) b)"
      "tree_blocks t' = tree_blocks t + mset (take k (drop (length cs) bs))"
      using tree_insert_result [OF inv sys ready, of toks] by blast
    have "tree_ok bt t' p' pins" using i(2-4,8,9) refs bt by (simp add: tree_ok_def tree_refs_def)
    moreover have "index_step bt (Insert toks bs) (index t) (index t')"
      unfolding i(7) bt by (rule ix_insert) (use i(5,6) bt in \<open>simp_all add: insert_blocks_def\<close>)
    ultimately show ?thesis using Insert i(1) by simp
  next
    case (Evict n)
    obtain k t' p' where e: "evict t p n = Inr (k, t', p')" and s: "shrunk pins t p k t' p'"
      using evict_ok [OF inv sys refs] by blast
    have wf: "tree_wf t" "tree_wf t'" using inv shrunkD(1) [OF s] by (simp_all add: tree_invD(1))
    have "index t' \<subseteq>\<^sub>m index t"
      unfolding map_le_def using index_iff [OF wf(1)] index_iff [OF wf(2)] shrunkD(5) [OF s] by (metis domD)
    moreover have "tree_ok bt t' p' pins"
      using shrunkD(1,2,7) [OF s] shrunk_refs [OF s refs] bt by (simp add: tree_ok_def)
    ultimately show ?thesis using Evict e ix_evict by auto
  next
    case (Lock n)
    obtain nd where n: "rt_nodes t n = Some nd" "n \<noteq> rt_root t" "size pins + 1 < 2 ^ 32" using allowed Lock by auto
    note L = lock_ok [OF inv n]
    show ?thesis using Lock L(1) map_locks_ok [OF ok L(2)] by (simp add: ix_lock)
  next
    case (Unlock n)
    have n: "n \<in># pins" using allowed Unlock by simp
    note L = unlock_ok [OF inv n]
    show ?thesis using Unlock L(1) map_locks_ok [OF ok L(2)] by (simp add: ix_unlock)
  qed
qed

lemma reachable_tree_ok:
  assumes "reachable_tree bt t p pins"
  shows "tree_ok bt t p pins"
  using assms
proof (induction rule: reachable_tree.induct)
  case (rt_init t p)
  then show ?case
    using tree_inv_new [OF rt_init(1)] by (auto simp: tree_ok_def tree_refs_def RadixTree_new_def result_simps)
next
  case (rt_env t p pins p')
  then show ?case by (simp add: tree_ok_def)
next
  case (rt_step t p pins oper t' p')
  then show ?case using tree_step_ok [OF rt_step.IH rt_step.hyps(2)] by simp
qed

lemma reachable_treeD:
  assumes "reachable_tree bt t p pins"
  shows "tree_wf t" "tree_inv t pins" "sys_inv p" "tree_refs t p" "rt_block_tokens t = bt"
  using reachable_tree_ok [OF assms] tree_invD(1) by (auto simp: tree_ok_def)

end
