(* ===== verification/Cache_Core.thy ===== *)
theory Cache_Core
  imports Cache_Manager Radix_Index
begin

section \<open>The cache manager: tree and pool together\<close>

text \<open>
  \<open>core t p pins X\<close> ties the two data structures together: every reference in the pool is
  the tree's or one of the multiset \<open>X\<close> of blocks that handles hold outside the tree, and no
  block has two. A block is \<open>guarded\<close> if a handle holds it or if it lies on the way to a
  pinned node. The lemmas show, operation by operation, that nothing the manager does on its
  own account (demoting, evicting, draining, promoting) touches a guarded block other
  than by bringing it to the compute tier.
\<close>

subsection \<open>Definitions\<close>

definition core :: "RadixTree \<Rightarrow> BlockPool \<Rightarrow> nat multiset \<Rightarrow> BlockId multiset \<Rightarrow> bool" where
  "core t p pins X \<longleftrightarrow> sys_inv p \<and> tree_inv t pins
     \<and> (\<forall>b. rcount p b = count (tree_blocks t) b + count X b) \<and> (\<forall>b. rcount p b \<le> 1)"

definition guarded :: "RadixTree \<Rightarrow> nat multiset \<Rightarrow> BlockId multiset \<Rightarrow> BlockId \<Rightarrow> bool" where
  "guarded t pins X b \<longleftrightarrow> b \<in># X
     \<or> (\<exists>n xs. n \<in># pins \<and> chain (rt_nodes t) (rt_root t) n xs \<and> b \<in> set (path_blocks (rt_nodes t) xs))"

text \<open>What a client sees of a block: its count, its bytes, and that it is (or will be) in compute memory.\<close>

definition kept :: "BlockPool \<Rightarrow> BlockPool \<Rightarrow> BlockId \<Rightarrow> bool" where
  "kept p p' b \<longleftrightarrow> view p' b = view p b \<and> (goal_tier p b = 0 \<longrightarrow> goal_tier p' b = 0)"

lemma coreD:
  assumes "core t p pins X"
  shows "sys_inv p" "tree_inv t pins" "rcount p b = count (tree_blocks t) b + count X b" "rcount p b \<le> 1"
    "tree_wf t" "tree_refs t p"
  using assms tree_invD(1) by (auto simp: core_def tree_refs_def)

lemma kept_refl [simp]: "kept p p b"
  by (simp add: kept_def)

lemma kept_trans: "kept p p' b \<Longrightarrow> kept p' p'' b \<Longrightarrow> kept p p'' b"
  by (simp add: kept_def)

lemma rcount_view: "rcount p b = (case view p b of None \<Rightarrow> 0 | Some (n, _) \<Rightarrow> n)"
  by (simp add: view_def rcount_def live_def)

lemma view_rcount: "view p' = view p \<Longrightarrow> rcount p' = rcount p"
  by (simp add: rcount_view fun_eq_iff)

lemma steady_kept: "view p' = view p \<Longrightarrow> steady p p' b \<Longrightarrow> kept p p' b"
  by (simp add: kept_def steady_goal)

lemma core_view: "core t p pins X \<Longrightarrow> sys_inv p' \<Longrightarrow> view p' = view p \<Longrightarrow> core t p' pins X"
  unfolding core_def by (metis view_rcount)

lemma path_blocks_node:
  assumes "chain (rt_nodes t) (rt_root t) n xs" and "b \<in> set (path_blocks (rt_nodes t) xs)"
  obtains m md where "m \<in> set xs" "rt_nodes t m = Some md" "b \<in> set (nd_blocks md)"
proof -
  obtain m where m: "m \<in> set xs" "b \<in> set (nd_blocks (the (rt_nodes t m)))" using assms(2) by (auto simp: path_blocks_def)
  obtain md where "rt_nodes t m = Some md" using chain_mem [OF assms(1) m(1)] by blast
  then show thesis using m that by simp
qed

lemma guarded_live:
  assumes c: "core t p pins X" and g: "guarded t pins X b"
  shows "0 < rcount p b"
proof -
  from g consider "b \<in># X" | n xs where "chain (rt_nodes t) (rt_root t) n xs" "b \<in> set (path_blocks (rt_nodes t) xs)"
    unfolding guarded_def by blast
  then show ?thesis
  proof cases
    case 1
    then show ?thesis using coreD(3) [OF c, of b] by simp
  next
    case 2
    obtain m md where "m \<in> set xs" "rt_nodes t m = Some md" "b \<in> set (nd_blocks md)" using path_blocks_node [OF 2] .
    then show ?thesis using tree_refs_node(2) [OF coreD(5,6) [OF c]] by blast
  qed
qed

lemma guarded_keeps: "guarded t pins X b \<Longrightarrow> (\<And>n. n \<in># pins \<Longrightarrow> keeps t t' n) \<Longrightarrow> guarded t' pins X b"
  unfolding guarded_def keeps_def by metis

lemma guarded_mono: "guarded t pins X b \<Longrightarrow> pins \<subseteq># pins' \<Longrightarrow> X \<subseteq># X' \<Longrightarrow> guarded t pins' X' b"
  unfolding guarded_def by (meson mset_subset_eqD)

text \<open>The blocks the victim picker may return are not guarded.\<close>

lemma coldest_not_guarded:
  assumes c: "core t p pins X" and v: "b \<in> coldest t p (candidates t [])"
  shows "\<not> guarded t pins X b"
proof
  assume g: "guarded t pins X b"
  obtain n nd where d: "demotable p b" and n: "n \<in> candidates t []" "rt_nodes t n = Some nd" "b \<in> set (nd_blocks nd)"
    using v by (auto simp: coldest_def)
  have free: "n \<noteq> rt_root t" "nd_lock nd = 0" using n(1,2) by (auto simp: candidates_def lru_candidate_def)
  have "0 < count (tree_blocks t) b"
    using mset_subset_eq_count [OF node_blocks [OF coreD(5) [OF c] n(2)], of b] n(3) by (metis count_mset_0_iff gr0I le_0_eq)
  then have "count X b = 0" using coreD(3,4) [OF c, of b] by linarith
  then have "b \<notin># X" by (simp add: not_in_iff)
  then obtain k xs where k: "k \<in># pins" "chain (rt_nodes t) (rt_root t) k xs" "b \<in> set (path_blocks (rt_nodes t) xs)"
    using g unfolding guarded_def by blast
  obtain m md where m: "m \<in> set xs" "rt_nodes t m = Some md" "b \<in> set (nd_blocks md)" using path_blocks_node [OF k(2,3)] .
  have "m = n" by (rule demotable_unique [OF coreD(5,6) [OF c] d m(2,3) n(2,3)])
  then have "n \<in> anc t k" using m(1) anc_chain [OF k(2)] by simp
  moreover have "{#m \<in># pins. n \<in> anc t m#} = {#}"
    using tree_invD(2) [OF coreD(2) [OF c]] n(2) free unfolding pins_ok_def by (metis size_eq_0_iff_empty)
  ultimately show False using k(1) by (metis (mono_tags, lifting) empty_iff filter_mset_eq_conv set_mset_empty set_mset_filter mem_Collect_eq)
qed

subsection \<open>Demotion\<close>

text \<open>
  The two demotion loops, on the request path and in the background, differ only in how a
  block is moved and which counter is bumped. \<open>move_all\<close> is their common shape, and the locale
  \<open>mover\<close> what they rely on: a move succeeds on an allocated block, changes neither
  contents nor counts, and disturbs no other block.
\<close>

fun move_all :: "(BlockPool \<Rightarrow> BlockId \<Rightarrow> (bool \<times> BlockPool) result) \<Rightarrow> BlockId list \<Rightarrow> nat \<Rightarrow> BlockPool
    \<Rightarrow> (nat \<times> BlockPool) result" where
  "move_all move [] n p = Inr (n, p)"
| "move_all move (b # bs) n p =
     bindE (move p b) (\<lambda>(moved, p'). if \<not> moved then Inr (n, p') else move_all move bs (bump n) p')"

locale mover =
  fixes move :: "BlockPool \<Rightarrow> BlockId \<Rightarrow> (bool \<times> BlockPool) result"
  assumes move_ok: "sys_inv p \<Longrightarrow> 0 < rcount p b \<Longrightarrow> 1 < length (bp_tiers p) \<Longrightarrow>
     \<exists>r p'. move p b = Inr (r, p') \<and> sys_inv p' \<and> view p' = view p \<and> (\<forall>c. c \<noteq> b \<longrightarrow> steady p p' c)
       \<and> length (bp_tiers p') = length (bp_tiers p) \<and> running p' = running p \<and> free0 p \<le> free0 p'"
begin

lemma move_all_ok:
  "sys_inv p \<Longrightarrow> \<forall>b \<in> set bs. 0 < rcount p b \<Longrightarrow> 1 < length (bp_tiers p) \<Longrightarrow>
     \<exists>k p'. move_all move bs n p = Inr (k, p') \<and> sys_inv p' \<and> view p' = view p
       \<and> (\<forall>c. c \<notin> set bs \<longrightarrow> steady p p' c) \<and> length (bp_tiers p') = length (bp_tiers p) \<and> running p' = running p \<and> free0 p \<le> free0 p'"
proof (induction bs arbitrary: n p)
  case (Cons b bs)
  obtain r p1 where m: "move p b = Inr (r, p1)" "sys_inv p1" "view p1 = view p" "\<forall>c. c \<noteq> b \<longrightarrow> steady p p1 c"
    "length (bp_tiers p1) = length (bp_tiers p)" "running p1 = running p" "free0 p \<le> free0 p1" using move_ok [OF Cons.prems(1) _ Cons.prems(3), of b] Cons.prems(2) by auto
  show ?case
  proof (cases r)
    case False
    then show ?thesis using m by auto
  next
    case True
    have "\<forall>b \<in> set bs. 0 < rcount p1 b" using Cons.prems(2) view_rcount [OF m(3)] by simp
    then obtain k p' where p': "move_all move bs (bump n) p1 = Inr (k, p')" "sys_inv p'" "view p' = view p1"
      "\<forall>c. c \<notin> set bs \<longrightarrow> steady p1 p' c" "length (bp_tiers p') = length (bp_tiers p1)" "running p' = running p1" "free0 p1 \<le> free0 p'"
      using Cons.IH [OF m(2), of "bump n"] m(5) Cons.prems(3) by auto
    have "steady p p' c" if "c \<notin> set (b # bs)" for c
      using steady_trans [of p p1 c p'] m(4) p'(4) that by simp
    then show ?thesis using True m p' by simp
  qed
qed auto

end

interpretation sync: mover "\<lambda>p b. migrate p b 1"
proof
  fix p b assume "sys_inv p" "0 < rcount p b" "1 < length (bp_tiers p)"
  then show "\<exists>r p'. migrate p b 1 = Inr (r, p') \<and> sys_inv p' \<and> view p' = view p \<and> (\<forall>c. c \<noteq> b \<longrightarrow> steady p p' c)
       \<and> length (bp_tiers p') = length (bp_tiers p) \<and> running p' = running p \<and> free0 p \<le> free0 p'"
    using migrate_status [of p b 1] by (auto simp: live_rcount)
qed

interpretation async: mover "\<lambda>p b. migrate_async p b 1"
proof
  fix p b assume "sys_inv p" "0 < rcount p b" "1 < length (bp_tiers p)"
  then show "\<exists>r p'. migrate_async p b 1 = Inr (r, p') \<and> sys_inv p' \<and> view p' = view p \<and> (\<forall>c. c \<noteq> b \<longrightarrow> steady p p' c)
       \<and> length (bp_tiers p') = length (bp_tiers p) \<and> running p' = running p \<and> free0 p \<le> free0 p'"
    using migrate_async_status [of p b 1] by (auto simp: live_rcount)
qed

lemma demote_sync_eq:
  "demote_sync vs m = bindE (move_all (\<lambda>p b. migrate p b 1) vs (st_demoted_blocks (cm_stats m)) (cm_pool m))
     (\<lambda>(n, p). Inr (m\<lparr>cm_pool := p, cm_stats := (cm_stats m)\<lparr>st_demoted_blocks := n\<rparr>\<rparr>))"
proof (induction vs arbitrary: m)
  case (Cons v vs)
  then show ?case by (cases "migrate (cm_pool m) v 1") (auto split: prod.splits)
qed simp

lemma demote_async_eq:
  "demote_async vs m = bindE (move_all (\<lambda>p b. migrate_async p b 1) vs (st_background_demotions (cm_stats m)) (cm_pool m))
     (\<lambda>(n, p). Inr (m\<lparr>cm_pool := p, cm_stats := (cm_stats m)\<lparr>st_background_demotions := n\<rparr>\<rparr>))"
proof (induction vs arbitrary: m)
  case (Cons v vs)
  then show ?case by (cases "migrate_async (cm_pool m) v 1") (auto split: prod.splits)
qed simp

end
