(* ===== verification/Cache_Frame.thy ===== *)
theory Cache_Frame
  imports Cache_Core
begin

section \<open>The cache manager: what the housekeeping leaves alone\<close>

text \<open>
  \<open>frame\<close> says what a handle's owner can rely on while the manager works on its own
  account: what the pinned nodes stand for stays, no prefix gets a new block, the blocks of
  the tree keep their bytes, guarded blocks keep count and bytes and stay bound for compute
  memory. \<open>tends\<close> lifts it to the manager, with the request counters unchanged. Every step of
  \<^verbatim>\<open>acquire()\<close> and \<^verbatim>\<open>release()\<close> that is not about a handle is shown to \<open>tend\<close>.
\<close>

subsection \<open>Frames\<close>

definition frame :: "nat multiset \<Rightarrow> BlockId multiset \<Rightarrow> RadixTree \<Rightarrow> BlockPool \<Rightarrow> RadixTree \<Rightarrow> BlockPool \<Rightarrow> bool" where
  "frame pins X t p t' p' \<longleftrightarrow> rt_root t' = rt_root t \<and> rt_block_tokens t' = rt_block_tokens t
     \<and> (\<forall>n \<in># pins. keeps t t' n) \<and> index t' \<subseteq>\<^sub>m index t
     \<and> (\<forall>b \<in># tree_blocks t'. b \<in># tree_blocks t \<and> content p' b = content p b)
     \<and> (\<forall>b. guarded t pins X b \<longrightarrow> kept p p' b)
     \<and> length (bp_tiers p') = length (bp_tiers p) \<and> running p' = running p"

lemma frameD:
  assumes "frame pins X t p t' p'"
  shows "rt_root t' = rt_root t" "rt_block_tokens t' = rt_block_tokens t" "n \<in># pins \<Longrightarrow> keeps t t' n"
    "index t' \<subseteq>\<^sub>m index t" "b \<in># tree_blocks t' \<Longrightarrow> b \<in># tree_blocks t"
    "b \<in># tree_blocks t' \<Longrightarrow> content p' b = content p b" "guarded t pins X b \<Longrightarrow> kept p p' b"
    "length (bp_tiers p') = length (bp_tiers p)" "running p' = running p"
  using assms unfolding frame_def by blast+

lemma frame_refl [simp]: "frame pins X t p t p"
  by (simp add: frame_def)

lemma frame_trans:
  assumes 1: "frame pins X t p t1 p1" and 2: "frame pins X t1 p1 t' p'"
  shows "frame pins X t p t' p'"
proof -
  have "keeps t t' n" if "n \<in># pins" for n using keeps_trans frameD(3) [OF 1 that] frameD(3) [OF 2 that] by blast
  moreover have "index t' \<subseteq>\<^sub>m index t" using map_le_trans frameD(4) [OF 1] frameD(4) [OF 2] by blast
  moreover have "kept p p' b" if g: "guarded t pins X b" for b
    using kept_trans [OF frameD(7) [OF 1 g] frameD(7) [OF 2]] guarded_keeps [OF g frameD(3) [OF 1]] by blast
  moreover have "b \<in># tree_blocks t \<and> content p' b = content p b" if b: "b \<in># tree_blocks t'" for b
    using frameD(5,6) [OF 1] frameD(5,6) [OF 2 b] by simp
  ultimately show ?thesis
    unfolding frame_def using frameD(1,2,8,9) [OF 1] frameD(1,2,8,9) [OF 2] by simp
qed

text \<open>The part of a frame that a handle depends on.\<close>

definition shelter :: "nat multiset \<Rightarrow> BlockId multiset \<Rightarrow> RadixTree \<Rightarrow> BlockPool \<Rightarrow> RadixTree \<Rightarrow> BlockPool \<Rightarrow> bool" where
  "shelter pins X t p t' p' \<longleftrightarrow> rt_root t' = rt_root t \<and> rt_block_tokens t' = rt_block_tokens t
     \<and> (\<forall>n \<in># pins. keeps t t' n) \<and> (\<forall>b. guarded t pins X b \<longrightarrow> kept p p' b)
     \<and> length (bp_tiers p') = length (bp_tiers p) \<and> running p' = running p"

lemma shelterD:
  assumes "shelter pins X t p t' p'"
  shows "rt_root t' = rt_root t" "rt_block_tokens t' = rt_block_tokens t" "n \<in># pins \<Longrightarrow> keeps t t' n"
    "guarded t pins X b \<Longrightarrow> kept p p' b" "length (bp_tiers p') = length (bp_tiers p)" "running p' = running p"
  using assms unfolding shelter_def by blast+

lemma frame_shelter: "frame pins X t p t' p' \<Longrightarrow> shelter pins X t p t' p'"
  unfolding frame_def shelter_def by blast

lemma shelter_trans:
  assumes 1: "shelter pins X t p t1 p1" and 2: "shelter pins X t1 p1 t' p'"
  shows "shelter pins X t p t' p'"
proof -
  have "keeps t t' n" if "n \<in># pins" for n using keeps_trans shelterD(3) [OF 1 that] shelterD(3) [OF 2 that] by blast
  moreover have "kept p p' b" if g: "guarded t pins X b" for b
    using kept_trans [OF shelterD(4) [OF 1 g] shelterD(4) [OF 2]] guarded_keeps [OF g shelterD(3) [OF 1]] by blast
  ultimately show ?thesis
    unfolding shelter_def using shelterD(1,2,5,6) [OF 1] shelterD(1,2,5,6) [OF 2] by simp
qed

lemma frame_mono:
  assumes f: "frame pins' X' t p t' p'" and s: "pins \<subseteq># pins'" "X \<subseteq># X'"
  shows "frame pins X t p t' p'"
  using frameD [OF f] guarded_mono [OF _ s] mset_subset_eqD [OF s(1)] unfolding frame_def by blast

lemma content_view: "view p' b = view p b \<Longrightarrow> live p b \<Longrightarrow> content p' b = content p b"
  by (simp add: view_def split: if_splits)

lemma tree_block_live: "core t p pins X \<Longrightarrow> b \<in># tree_blocks t \<Longrightarrow> live p b"
  using coreD(3) [of t p pins X b] by (simp add: live_rcount)

text \<open>Operations that change neither the tree nor a block's count or bytes.\<close>

lemma frame_pool:
  assumes c: "core t p pins X" and v: "view p' = view p"
    and g: "\<And>b. guarded t pins X b \<Longrightarrow> goal_tier p b = 0 \<Longrightarrow> goal_tier p' b = 0"
    and f: "length (bp_tiers p') = length (bp_tiers p)" "running p' = running p"
  shows "frame pins X t p t p'"
  using content_view [of p' _ p] tree_block_live [OF c] g f unfolding frame_def kept_def by (simp add: v)

text \<open>Operations that change only the tree's bookkeeping.\<close>

lemma frame_tree:
  assumes "same_index t t'" "rt_root t' = rt_root t" "rt_block_tokens t' = rt_block_tokens t" "index t' = index t"
  shows "frame pins X t p t' p"
  using assms unfolding frame_def same_index_def by simp

lemma core_tree: "core t p pins X \<Longrightarrow> tree_inv t' pins' \<Longrightarrow> same_index t t' \<Longrightarrow> core t' p pins' X"
  unfolding core_def same_index_def by metis

lemma shrunk_kept:
  assumes c: "core t p pins X" and s: "shrunk pins t p k t' p'"
  shows "core t' p' pins X" "frame pins X t p t' p'" "guarded t pins X b \<Longrightarrow> steady p p' b"
proof -
  obtain G where G: "tree_blocks t = tree_blocks t' + G" "\<And>b. rcount p b = rcount p' b + count G b" using shrunk_taken [OF s] by blast
  show c': "core t' p' pins X"
  proof -
    have "rcount p' b = count (tree_blocks t') b + count X b" "rcount p' b \<le> 1" for b
      using coreD(3,4) [OF c, of b] G(2) [of b] by (simp_all add: G(1))
    then show ?thesis unfolding core_def using shrunkD(1,2) [OF s] by blast
  qed
  have live: "live p' b" if "guarded t pins X b" for b
    using guarded_live [OF c' guarded_keeps [OF that shrunkD(4) [OF s]]] by (simp add: live_rcount)
  have view: "view p' b = view p b" if "live p' b" for b
  proof -
    have "rcount p' b = rcount p b" using that G(2) [of b] coreD(4) [OF c, of b] by (simp add: live_rcount)
    then show ?thesis using pool_rel_live(1,2) [OF shrunkD(3) [OF s] that] that by (simp add: view_def rcount_def live_def)
  qed
  show st: "steady p p' b" if "guarded t pins X b" for b using pool_rel_live(3) [OF shrunkD(3) [OF s] live [OF that]] .
  have "kept p p' b" if "guarded t pins X b" for b using view [OF live [OF that]] steady_goal [OF st [OF that]] by (simp add: kept_def)
  moreover have "index t' \<subseteq>\<^sub>m index t"
    unfolding map_le_def using index_iff [OF coreD(5) [OF c]] index_iff [OF coreD(5) [OF c']] shrunkD(5) [OF s] by (metis domIff option.exhaust)
  moreover have "b \<in># tree_blocks t \<and> content p' b = content p b" if "b \<in># tree_blocks t'" for b
    using pool_rel_live(2) [OF shrunkD(3) [OF s] tree_block_live [OF c' that]] that by (simp add: G(1))
  moreover have "length (bp_tiers p') = length (bp_tiers p)" "running p' = running p"
    using shrunkD(3) [OF s] by (simp_all add: pool_rel_def running_def)
  ultimately show "frame pins X t p t' p'" unfolding frame_def using shrunkD(4,6,7) [OF s] by simp
qed


subsection \<open>Managers\<close>

text \<open>The counters of requests and handles; the others count what the housekeeping moves.\<close>

definition request_counters :: "Stats \<Rightarrow> nat \<times> nat \<times> nat \<times> nat \<times> nat \<times> nat" where
  "request_counters s = (st_requests s, st_served s, st_total_tokens s, st_hit_tokens s, st_alloc_failures s, st_abandoned s)"

definition tends :: "nat multiset \<Rightarrow> BlockId multiset \<Rightarrow> CacheManager \<Rightarrow> CacheManager \<Rightarrow> bool" where
  "tends pins X m m' \<longleftrightarrow> core (cm_tree m') (cm_pool m') pins X
     \<and> frame pins X (cm_tree m) (cm_pool m) (cm_tree m') (cm_pool m')
     \<and> cm_cfg m' = cm_cfg m \<and> cm_options m' = cm_options m
     \<and> request_counters (cm_stats m') = request_counters (cm_stats m)"

lemma tendsD:
  assumes "tends pins X m m'"
  shows "core (cm_tree m') (cm_pool m') pins X" "frame pins X (cm_tree m) (cm_pool m) (cm_tree m') (cm_pool m')"
    "cm_cfg m' = cm_cfg m" "cm_options m' = cm_options m" "request_counters (cm_stats m') = request_counters (cm_stats m)"
  using assms by (simp_all add: tends_def)

lemma tends_refl: "core (cm_tree m) (cm_pool m) pins X \<Longrightarrow> tends pins X m m"
  by (simp add: tends_def)

lemma tends_trans: "tends pins X m m1 \<Longrightarrow> tends pins X m1 m' \<Longrightarrow> tends pins X m m'"
  using frame_trans unfolding tends_def by metis

lemma tends_pool:
  assumes c: "core (cm_tree m) (cm_pool m) pins X" and "sys_inv p'" and "view p' = view (cm_pool m)"
    and "\<And>b. guarded (cm_tree m) pins X b \<Longrightarrow> goal_tier (cm_pool m) b = 0 \<Longrightarrow> goal_tier p' b = 0"
    and "length (bp_tiers p') = length (bp_tiers (cm_pool m))" "running p' = running (cm_pool m)"
    and "cm_tree m' = cm_tree m" "cm_pool m' = p'" "cm_cfg m' = cm_cfg m" "cm_options m' = cm_options m"
    and "request_counters (cm_stats m') = request_counters (cm_stats m)"
  shows "tends pins X m m'"
  using assms core_view [OF c assms(2,3)] frame_pool [OF c assms(3-6)] by (simp add: tends_def)

subsection \<open>Draining and background demotion\<close>

lemma drain_tends:
  assumes c: "core (cm_tree m) (cm_pool m) pins X"
  shows "\<exists>p. drain_migrations (cm_pool m) = Inr p \<and> tends pins X m (m\<lparr>cm_pool := p\<rparr>) \<and> free0 (cm_pool m) \<le> free0 p"
proof -
  obtain p where p: "drain_migrations (cm_pool m) = Inr p" "sys_inv p" "view p = view (cm_pool m)"
    "\<forall>b. goal_tier p b = goal_tier (cm_pool m) b" "length (bp_tiers p) = length (bp_tiers (cm_pool m))" "running p = running (cm_pool m)" "free0 (cm_pool m) \<le> free0 p"
    using drain_status [OF coreD(1) [OF c]] by blast
  have "tends pins X m (m\<lparr>cm_pool := p\<rparr>)" by (rule tends_pool [OF c p(2,3) _ p(5,6)]) (simp_all add: p(4))
  then show ?thesis using p(1,7) by blast
qed

lemma count_loop:
  "(\<And>x. x \<in> set xs \<Longrightarrow> f x = Inr (g x)) \<Longrightarrow>
     foldE (\<lambda>x n. bindE (f x) (\<lambda>r. Inr (if P x r then n + 1 else n))) xs k = Inr (k + length (filter (\<lambda>x. P x (g x)) xs))"
  by (induction xs arbitrary: k) auto

text \<open>The blocks on their way out of tier \<open>t\<close>.\<close>

definition leaving :: "BlockPool \<Rightarrow> nat \<Rightarrow> BlockId set" where
  "leaving p t = {b. migrating p b \<and> loc_tier (bp_location p ! b) = t \<and> goal_tier p b \<noteq> t}"

lemma pending_departures_eq:
  assumes sys: "sys_inv p"
  shows "pending_departures p t = Inr (card (leaving p t))" "finite (leaving p t)"
proof -
  note m = sys_invD(5) [OF sys]
  let ?E = "filter (\<lambda>(b, q). loc_tier (bp_location p ! b) = t \<and> goal_tier p b \<noteq> t) (bp_migrating p)"
  have entry: "b < length (bp_location p)" "\<exists>j. job_at p q = Inr j \<and> job_dst_tier j = goal_tier p b" if e: "(b, q) \<in> set (bp_migrating p)" for b q
  proof -
    have mo: "map_of (bp_migrating p) b = Some q" using migrating_mem [OF m] e by simp
    then have b: "migrating p b" by (simp add: migrating_def)
    show "b < length (bp_location p)" using no_job_dead [OF sys] b bound_None [OF m] by (auto simp: live_def)
    show "\<exists>j. job_at p q = Inr j \<and> job_dst_tier j = goal_tier p b"
      using migration_target_eq [OF m b] mo by (auto simp: migration_target_def result_simps)
  qed
  have "foldE (\<lambda>(bid, ptr) count. bindE (nthE (bp_location p) bid) (\<lambda>loc. bindE (job_at p ptr) (\<lambda>j.
          Inr (if loc_tier loc = t \<and> job_dst_tier j \<noteq> t then count + 1 else count)))) es k
      = Inr (k + length (filter (\<lambda>(b, q). loc_tier (bp_location p ! b) = t \<and> goal_tier p b \<noteq> t) es))"
    if "set es \<subseteq> set (bp_migrating p)" for es k
    using that
  proof (induction es arbitrary: k)
    case (Cons e es)
    then show ?case using entry [of "fst e" "snd e"] by (auto simp: split_def)
  qed simp
  then have "pending_departures p t = Inr (length ?E)" by (simp add: pending_departures_def)
  moreover have d: "distinct (map fst ?E)" using m by (auto simp: mig_inv_def intro: distinct_map_filter)
  moreover have s: "set (map fst ?E) = leaving p t"
    by (force simp: leaving_def migrating_def split_def map_of_eq_None_iff)
  ultimately show "pending_departures p t = Inr (card (leaving p t))" using distinct_card [OF d] by simp
  show "finite (leaving p t)" unfolding s [symmetric] by simp
qed


lemma victims_frame:
  assumes c: "core (cm_tree m) (cm_pool m) pins X" and vs: "set vs \<subseteq> coldest (cm_tree m) (cm_pool m) (candidates (cm_tree m) [])"
    and p': "sys_inv p'" "view p' = view (cm_pool m)" "\<forall>b. b \<notin> set vs \<longrightarrow> steady (cm_pool m) p' b"
      "length (bp_tiers p') = length (bp_tiers (cm_pool m))" "running p' = running (cm_pool m)"
    and m': "cm_tree m' = cm_tree m" "cm_pool m' = p'" "cm_cfg m' = cm_cfg m" "cm_options m' = cm_options m"
      "request_counters (cm_stats m') = request_counters (cm_stats m)"
  shows "tends pins X m m'" "guarded (cm_tree m) pins X b \<Longrightarrow> steady (cm_pool m) (cm_pool m') b"
proof -
  have s: "steady (cm_pool m) p' b" if "guarded (cm_tree m) pins X b" for b
    using coldest_not_guarded [OF c] that vs p'(3) by blast
  show "tends pins X m m'"
    by (rule tends_pool [OF c p'(1,2) _ p'(4,5) m']) (simp add: steady_goal [OF s])
  show "guarded (cm_tree m) pins X b \<Longrightarrow> steady (cm_pool m) (cm_pool m') b" using s m'(2) by simp
qed

lemma coldest_live: "b \<in> coldest t p N \<Longrightarrow> 0 < rcount p b"
  by (simp add: coldest_def demotable_def)

lemma demote_async_tends:
  assumes c: "core (cm_tree m) (cm_pool m) pins X" and vs: "set vs \<subseteq> coldest (cm_tree m) (cm_pool m) (candidates (cm_tree m) [])"
    and two: "1 < length (bp_tiers (cm_pool m))"
  shows "\<exists>m'. demote_async vs m = Inr m' \<and> tends pins X m m' \<and> cm_tree m' = cm_tree m \<and> free0 (cm_pool m) \<le> free0 (cm_pool m')"
proof -
  obtain n p' where p': "move_all (\<lambda>p b. migrate_async p b 1) vs (st_background_demotions (cm_stats m)) (cm_pool m) = Inr (n, p')"
    "sys_inv p'" "view p' = view (cm_pool m)" "\<forall>b. b \<notin> set vs \<longrightarrow> steady (cm_pool m) p' b"
    "length (bp_tiers p') = length (bp_tiers (cm_pool m))" "running p' = running (cm_pool m)" "free0 (cm_pool m) \<le> free0 p'"
    using async.move_all_ok [OF coreD(1) [OF c] _ two, of vs] vs coldest_live by blast
  show ?thesis
    using victims_frame(1) [OF c vs p'(2-6), of "m\<lparr>cm_pool := p', cm_stats := (cm_stats m)\<lparr>st_background_demotions := n\<rparr>\<rparr>"]
    unfolding demote_async_eq p'(1) using p'(7) by (simp add: request_counters_def)
qed

lemma demote_sync_tends:
  assumes c: "core (cm_tree m) (cm_pool m) pins X" and vs: "set vs \<subseteq> coldest (cm_tree m) (cm_pool m) (candidates (cm_tree m) [])"
    and two: "1 < length (bp_tiers (cm_pool m))"
  shows "\<exists>m'. demote_sync vs m = Inr m' \<and> tends pins X m m' \<and> free0 (cm_pool m) \<le> free0 (cm_pool m')
     \<and> (\<forall>b. guarded (cm_tree m) pins X b \<longrightarrow> steady (cm_pool m) (cm_pool m') b)"
proof -
  obtain n p' where p': "move_all (\<lambda>p b. migrate p b 1) vs (st_demoted_blocks (cm_stats m)) (cm_pool m) = Inr (n, p')"
    "sys_inv p'" "view p' = view (cm_pool m)" "\<forall>b. b \<notin> set vs \<longrightarrow> steady (cm_pool m) p' b"
    "length (bp_tiers p') = length (bp_tiers (cm_pool m))" "running p' = running (cm_pool m)" "free0 (cm_pool m) \<le> free0 p'"
    using sync.move_all_ok [OF coreD(1) [OF c] _ two, of vs] vs coldest_live by blast
  show ?thesis
    using victims_frame [OF c vs p'(2-6), of "m\<lparr>cm_pool := p', cm_stats := (cm_stats m)\<lparr>st_demoted_blocks := n\<rparr>\<rparr>"]
    unfolding demote_sync_eq p'(1) using p'(7) by (simp add: request_counters_def)
qed

lemma tends_victims: "core (cm_tree m) (cm_pool m) pins X \<Longrightarrow> tends pins X (m\<lparr>cm_victims := vs\<rparr>) m' \<Longrightarrow> tends pins X m m'"
  by (simp add: tends_def)

text \<open>\<^verbatim>\<open>maintain()\<close> always ends, and the blocks it starts to demote are nobody's.\<close>

lemma maintain_tends:
  assumes c: "core (cm_tree m) (cm_pool m) pins X"
  shows "\<exists>m'. maintain m = Inr m' \<and> tends pins X m m' \<and> cm_tree m' = cm_tree m \<and> free0 (cm_pool m) \<le> free0 (cm_pool m')"
proof -
  note D = coreD [OF c]
  let ?w = "op_spill_watermark (cm_options m)" and ?f = "u64 (free0 (cm_pool m) + card (leaving (cm_pool m) 0))"
  obtain vs where vs: "pick_demotion_victims (cm_tree m) (cm_pool m) (?w - ?f) = Inr vs"
    "set vs \<subseteq> coldest (cm_tree m) (cm_pool m) (candidates (cm_tree m) [])"
    using pick_demotion_victims_ok [OF D(5,1,6)] unfolding picked_def by blast
  have step: "\<exists>m'. demote_async vs (m\<lparr>cm_victims := vs\<rparr>) = Inr m' \<and> tends pins X m m' \<and> cm_tree m' = cm_tree m
      \<and> free0 (cm_pool m) \<le> free0 (cm_pool m')" if "1 < length (bp_tiers (cm_pool m))"
    using demote_async_tends [of "m\<lparr>cm_victims := vs\<rparr>" pins X vs] c vs(2) that tends_victims [OF c] by auto
  show ?thesis
    using step tends_refl [OF c]
    by (auto simp: maintain_def num_tiers_def num_free_eq [OF D(1)] pending_departures_eq [OF D(1)] vs(1) Let_def)
qed

subsection \<open>Making room\<close>

text \<open>
  The loop over \<^verbatim>\<open>evict()\<close> ends because each turn but the last takes a node out of the
  tree; it stops short only when no unpinned leaf is left, since no block of the tree has a
  second reference.
\<close>

lemma core_not_shared: "core t p pins X \<Longrightarrow> \<not> shared t p n"
proof
  assume c: "core t p pins X" and "shared t p n"
  then obtain nd b where b: "rt_nodes t n = Some nd" "b \<in> set (nd_blocks nd)" "rcount p b \<noteq> 1" by (auto simp: shared_def)
  then have "0 < rcount p b" using tree_refs_node(2) [OF coreD(5,6) [OF c]] by blast
  then show False using coreD(4) [OF c, of b] b(3) by simp
qed

lemma evict_until_tends:
  assumes "core (cm_tree m) (cm_pool m) pins X" and "card (dom (rt_nodes (cm_tree m))) \<le> fuel"
  shows "\<exists>m'. evict_until fuel demand m = Inr m' \<and> tends pins X m m' \<and> free0 (cm_pool m) \<le> free0 (cm_pool m')
     \<and> (\<forall>b. guarded (cm_tree m) pins X b \<longrightarrow> steady (cm_pool m) (cm_pool m') b)
     \<and> (demand \<le> free0 (cm_pool m') \<or> candidates (cm_tree m') [] = {})"
  using assms
proof (induction fuel arbitrary: m)
  case 0
  then show ?case using wf_root_dom [OF coreD(5) [OF 0(1)]] wf_finite [OF coreD(5) [OF 0(1)]] by auto
next
  case (Suc fuel)
  note c = Suc.prems(1) and D = coreD [OF Suc.prems(1)]
  let ?f = "free0 (cm_pool m)"
  show ?case
  proof (cases "demand \<le> ?f")
    case True
    then show ?thesis using tends_refl [OF c] by (simp add: evict_until.simps [of "Suc fuel"] num_free_eq [OF D(1)])
  next
    case False
    obtain k t p where e: "evict (cm_tree m) (cm_pool m) (demand - ?f) = Inr (k, t, p)"
      "shrunk pins (cm_tree m) (cm_pool m) k t p" "k < demand - ?f \<Longrightarrow> \<forall>n \<in> candidates t []. shared t p n"
      using evict_ok [OF D(2,1,6)] by blast
    note s = shrunk_kept [OF c e(2)]
    have mono: "free0 (cm_pool m) \<le> free0 p"
      using pool_rel_free [OF shrunkD(3) [OF e(2)], of 0] pool_invD(2) [OF sys_invD(1) [OF D(1)]] by (simp add: free0_def)
    let ?m = "\<lambda>n. m\<lparr>cm_tree := t, cm_pool := p, cm_stats := (cm_stats m)\<lparr>st_evicted_blocks := n\<rparr>\<rparr>"
    have t1: "tends pins X m (?m n)" "tends pins X m (m\<lparr>cm_tree := t, cm_pool := p\<rparr>)" for n
      using s(1,2) by (simp_all add: tends_def request_counters_def)
    show ?thesis
    proof (cases "k = 0")
      case True
      then have "candidates t [] = {}" using e(3) False core_not_shared [OF s(1)] by auto
      then show ?thesis using t1(2) s(3) True e(1) False mono by (simp add: evict_until.simps [of "Suc fuel"] num_free_eq [OF D(1)])
    next
      case k: False
      let ?m1 = "?m (u64 (st_evicted_blocks (cm_stats m) + k))"
      have "card (dom (rt_nodes t)) < card (dom (rt_nodes (cm_tree m)))"
        using shrunkD(10) [OF e(2)] k by (intro psubset_card_mono wf_finite [OF D(5)]) simp
      then have "card (dom (rt_nodes (cm_tree ?m1))) \<le> fuel" using Suc.prems(2) by simp
      then obtain m' where m': "evict_until fuel demand ?m1 = Inr m'" "tends pins X ?m1 m'" "free0 p \<le> free0 (cm_pool m')"
        "\<forall>b. guarded t pins X b \<longrightarrow> steady p (cm_pool m') b"
        "demand \<le> free0 (cm_pool m') \<or> candidates (cm_tree m') [] = {}"
        using Suc.IH [of ?m1] s(1) by auto
      have "steady (cm_pool m) (cm_pool m') b" if g: "guarded (cm_tree m) pins X b" for b
        using steady_trans [OF s(3) [OF g]] m'(4) guarded_keeps [OF g shrunkD(4) [OF e(2)]] by blast
      moreover have "evict_until (Suc fuel) demand m = Inr m'"
        using m'(1) e(1) k False by (simp add: evict_until.simps [of "Suc fuel"] num_free_eq [OF D(1)])
      ultimately show ?thesis using tends_trans [OF t1(1) m'(2)] m'(5) order_trans [OF mono m'(3)] by blast
    qed
  qed
qed

lemma acquire_room_tends:
  assumes c: "core (cm_tree m) (cm_pool m) pins X"
  shows "\<exists>m'. acquire_room demand m = Inr m' \<and> tends pins X m m' \<and> free0 (cm_pool m) \<le> free0 (cm_pool m')
     \<and> (\<forall>b. guarded (cm_tree m) pins X b \<longrightarrow> steady (cm_pool m) (cm_pool m') b)
     \<and> (demand \<le> free0 (cm_pool m') \<or> candidates (cm_tree m') [] = {})"
proof -
  note D = coreD [OF c]
  let ?k = "demand - free0 (cm_pool m)"
  let ?d = "if free0 (cm_pool m) < demand \<and> num_tiers (cm_pool m) > 1
     then bindE (pick_demotion_victims (cm_tree m) (cm_pool m) ?k) (\<lambda>victims. demote_sync victims (m\<lparr>cm_victims := victims\<rparr>)) else Inr m"
  obtain vs where vs: "pick_demotion_victims (cm_tree m) (cm_pool m) ?k = Inr vs"
    "set vs \<subseteq> coldest (cm_tree m) (cm_pool m) (candidates (cm_tree m) [])"
    using pick_demotion_victims_ok [OF D(5,1,6)] unfolding picked_def by blast
  have dem: "\<exists>m1. demote_sync vs (m\<lparr>cm_victims := vs\<rparr>) = Inr m1 \<and> tends pins X m m1 \<and> free0 (cm_pool m) \<le> free0 (cm_pool m1)
     \<and> (\<forall>b. guarded (cm_tree m) pins X b \<longrightarrow> steady (cm_pool m) (cm_pool m1) b)" if "1 < length (bp_tiers (cm_pool m))"
    using demote_sync_tends [of "m\<lparr>cm_victims := vs\<rparr>" pins X vs] c vs(2) that tends_victims [OF c] by auto
  obtain m1 where m1: "?d = Inr m1" "tends pins X m m1" "free0 (cm_pool m) \<le> free0 (cm_pool m1)" "\<forall>b. guarded (cm_tree m) pins X b \<longrightarrow> steady (cm_pool m) (cm_pool m1) b"
  proof (cases "free0 (cm_pool m) < demand \<and> num_tiers (cm_pool m) > 1")
    case True
    then show ?thesis using dem that vs(1) by (auto simp: num_tiers_def)
  next
    case False
    then show ?thesis using that [of m] tends_refl [OF c] by (auto split: if_splits)
  qed
  note c1 = tendsD(1) [OF m1(2)]
  have "dom (rt_nodes (cm_tree m1)) \<subseteq> {..< rt_next (cm_tree m1)}" using tree_wfD(2) [OF coreD(5) [OF c1]] by auto
  then have "card (dom (rt_nodes (cm_tree m1))) \<le> rt_next (cm_tree m1)" by (metis card_lessThan card_mono finite_lessThan)
  then obtain m' where m': "evict_until (rt_next (cm_tree m1)) demand m1 = Inr m'" "tends pins X m1 m'" "free0 (cm_pool m1) \<le> free0 (cm_pool m')"
    "\<forall>b. guarded (cm_tree m1) pins X b \<longrightarrow> steady (cm_pool m1) (cm_pool m') b"
    "demand \<le> free0 (cm_pool m') \<or> candidates (cm_tree m') [] = {}" using evict_until_tends [OF c1] by blast
  have "steady (cm_pool m) (cm_pool m') b" if g: "guarded (cm_tree m) pins X b" for b
    using steady_trans m1(4) m'(4) g guarded_keeps [OF g frameD(3) [OF tendsD(2) [OF m1(2)]]] by blast
  moreover have "acquire_room demand m = Inr m'" using m1(1) m'(1) by (simp add: acquire_room_def num_free_eq [OF D(1)])
  ultimately show ?thesis using tends_trans [OF m1(2) m'(2)] m'(5) order_trans [OF m1(3) m'(3)] by blast
qed

end
