(* ===== verification/Cache_Acquire.thy ===== *)
theory Cache_Acquire
  imports Cache_Frame
begin

section \<open>The cache manager: the steps of acquire\<close>

text \<open>
  The steps that bring a matched prefix into compute memory and add fresh blocks to it. A
  block is \<open>settled\<close> if no copy is about to take it away; after \<open>keep_block\<close> every matched
  block is, the number of promotions counted is the number of matched blocks whose goal is
  not compute memory, and with as many free slots no promotion can fail.
\<close>

definition settled :: "BlockPool \<Rightarrow> BlockId \<Rightarrow> bool" where
  "settled p b \<longleftrightarrow> (migrating p b \<longrightarrow> goal_tier p b = 0)"

definition away :: "BlockPool \<Rightarrow> BlockId list \<Rightarrow> nat" where
  "away p bs = length (filter (\<lambda>b. goal_tier p b \<noteq> 0) bs)"

lemma away_simps [simp]:
  "away p [] = 0" "away p (b # bs) = (if goal_tier p b \<noteq> 0 then 1 else 0) + away p bs"
  by (simp_all add: away_def)

lemma away_mono: "(\<And>b. b \<in> set bs \<Longrightarrow> goal_tier p b = 0 \<Longrightarrow> goal_tier p' b = 0) \<Longrightarrow> away p' bs \<le> away p bs"
  by (induction bs) auto

lemma steady_settled: "steady p p' b \<Longrightarrow> sys_inv p \<Longrightarrow> sys_inv p' \<Longrightarrow> settled p' b \<longleftrightarrow> settled p b"
  by (simp add: settled_def steady_goal steady_migrating sys_invD(5))

subsection \<open>Cancelling demotions of the hit\<close>

lemma keep_block_ok:
  assumes sys: "sys_inv p"
  shows "\<exists>p'. keep_block b p = Inr p' \<and> sys_inv p' \<and> view p' = view p \<and> settled p' b
     \<and> (\<forall>c. goal_tier p c = 0 \<longrightarrow> goal_tier p' c = 0) \<and> (\<forall>c. settled p c \<longrightarrow> settled p' c)
     \<and> length (bp_tiers p') = length (bp_tiers p) \<and> running p' = running p \<and> free0 p' = free0 p"
proof (cases "settled p b")
  case True
  then have "keep_block b p = Inr p"
    using migration_target_eq [OF sys_invD(5) [OF sys], of b] by (simp add: keep_block_def settled_def)
  then show ?thesis using sys True by simp
next
  case False
  let ?p = "cancelled_pool p b"
  have sys': "sys_inv ?p" by (rule sys_inv_cancelled [OF sys])
  have eq: "keep_block b p = Inr ?p"
    using False migration_target_eq [OF sys_invD(5) [OF sys], of b] cancel_migration_eq [OF sys_invD(5) [OF sys], of b]
    by (auto simp: keep_block_def settled_def)
  have "\<not> migrating ?p b" using not_migrating_cancelled [OF sys_invD(5) [OF sys]] by blast
  then have b: "settled ?p b" by (simp add: settled_def)
  have "goal_tier ?p c = 0" if "goal_tier p c = 0" for c
    using steady_goal [OF steady_cancelled [of c b p]] that False by (cases "c = b") (auto simp: settled_def)
  moreover have "settled ?p c" if "settled p c" for c
    using steady_settled [OF steady_cancelled [of c b p] sys sys'] that b by (cases "c = b") auto
  ultimately show ?thesis using eq sys' b by (simp add: running_def)
qed

lemma keep_blocks_ok:
  assumes "sys_inv p"
  shows "\<exists>p'. foldE keep_block bs p = Inr p' \<and> sys_inv p' \<and> view p' = view p \<and> (\<forall>b \<in> set bs. settled p' b)
     \<and> (\<forall>c. goal_tier p c = 0 \<longrightarrow> goal_tier p' c = 0) \<and> (\<forall>c. settled p c \<longrightarrow> settled p' c)
     \<and> length (bp_tiers p') = length (bp_tiers p) \<and> running p' = running p \<and> free0 p' = free0 p"
  using assms
proof (induction bs arbitrary: p)
  case (Cons b bs)
  obtain p1 where p1: "keep_block b p = Inr p1" "sys_inv p1" "view p1 = view p" "settled p1 b"
    "\<forall>c. goal_tier p c = 0 \<longrightarrow> goal_tier p1 c = 0" "\<forall>c. settled p c \<longrightarrow> settled p1 c"
    "length (bp_tiers p1) = length (bp_tiers p)" "running p1 = running p" "free0 p1 = free0 p" using keep_block_ok [OF Cons.prems, of b] by blast
  show ?case using Cons.IH [OF p1(2)] p1 by auto
qed simp

lemma count_promotions_eq:
  assumes sys: "sys_inv p" and bs: "\<forall>b \<in> set bs. 0 < rcount p b \<and> settled p b"
  shows "count_promotions p bs = Inr (away p bs)"
proof -
  have "count_promotions p bs = Inr (0 + length (filter (\<lambda>b. loc_tier (bp_location p ! b) \<noteq> 0 \<and> \<not> migrating p b) bs))"
    unfolding count_promotions_def using block_tier_rcount [OF sys] bs by (intro count_loop) blast
  moreover have "filter (\<lambda>b. loc_tier (bp_location p ! b) \<noteq> 0 \<and> \<not> migrating p b) bs = filter (\<lambda>b. goal_tier p b \<noteq> 0) bs"
    using bs goal_settled [OF sys_invD(5) [OF sys]] by (intro filter_cong) (auto simp: settled_def)
  ultimately show ?thesis by (simp add: away_def)
qed

subsection \<open>Promotions cannot fail\<close>

lemma promote_move:
  assumes sys: "sys_inv p" and b: "0 < rcount p b" "loc_tier (bp_location p ! b) \<noteq> 0" "\<not> migrating p b" and free: "0 < free0 p"
  shows "\<exists>p'. (if async then bindE (migrate_async p b 0) (\<lambda>(moved, p). if \<not> moved then migrate p b 0 else Inr (moved, p))
                else migrate p b 0) = Inr (True, p') \<and> sys_inv p' \<and> view p' = view p \<and> goal_tier p' b = 0
     \<and> (\<forall>c. c \<noteq> b \<longrightarrow> steady p p' c) \<and> free0 p = free0 p' + 1
     \<and> length (bp_tiers p') = length (bp_tiers p) \<and> running p' = running p"
proof -
  have live: "live p b" using b(1) by (simp add: live_rcount)
  have t0: "0 < length (bp_tiers p)" using pool_invD(2) [OF sys_invD(1) [OF sys]] by simp
  have f: "ts_free (bp_tiers p ! 0) \<noteq> []" using free by (auto simp: free0_def)
  show ?thesis using migrate_status [OF sys live t0] migrate_async_status [OF sys live t0] b f by (cases async) auto
qed

lemma promote_block_ok:
  assumes c: "core (cm_tree m) (cm_pool m) pins X" and b: "0 < rcount (cm_pool m) b" "settled (cm_pool m) b"
    and free: "goal_tier (cm_pool m) b \<noteq> 0 \<Longrightarrow> 0 < free0 (cm_pool m)"
  shows "\<exists>m'. promote_block b m = Inr m' \<and> tends pins X m m' \<and> cm_tree m' = cm_tree m
     \<and> view (cm_pool m') = view (cm_pool m) \<and> goal_tier (cm_pool m') b = 0 \<and> (\<forall>c. c \<noteq> b \<longrightarrow> steady (cm_pool m) (cm_pool m') c)
     \<and> free0 (cm_pool m) = free0 (cm_pool m') + (if goal_tier (cm_pool m) b \<noteq> 0 then 1 else 0)"
proof -
  note D = coreD [OF c]
  note tier = block_tier_rcount [OF D(1) b(1)] and goal = goal_settled [OF sys_invD(5) [OF D(1)], of b]
  show ?thesis
  proof (cases "loc_tier (bp_location (cm_pool m) ! b) = 0 \<or> migrating (cm_pool m) b")
    case True
    then have "goal_tier (cm_pool m) b = 0" using b(2) goal by (auto simp: settled_def)
    then show ?thesis using True tends_refl [OF c] tier by (auto simp: promote_block_def)
  next
    case False
    then have g: "goal_tier (cm_pool m) b \<noteq> 0" using goal by simp
    obtain p where p: "(if op_async_promotion (cm_options m)
        then bindE (migrate_async (cm_pool m) b 0) (\<lambda>(moved, p). if \<not> moved then migrate p b 0 else Inr (moved, p))
        else migrate (cm_pool m) b 0) = Inr (True, p)" "sys_inv p" "view p = view (cm_pool m)" "goal_tier p b = 0"
      "\<forall>c. c \<noteq> b \<longrightarrow> steady (cm_pool m) p c" "free0 (cm_pool m) = free0 p + 1"
      "length (bp_tiers p) = length (bp_tiers (cm_pool m))" "running p = running (cm_pool m)"
      using promote_move [OF D(1) b(1) _ _ free [OF g]] False by blast
    let ?m = "m\<lparr>cm_pool := p, cm_stats := (cm_stats m)\<lparr>st_promoted_blocks := bump (st_promoted_blocks (cm_stats m))\<rparr>\<rparr>"
    have "goal_tier p c = 0" if "goal_tier (cm_pool m) c = 0" for c using p(4,5) steady_goal that by (cases "c = b") auto
    then have "tends pins X m ?m" by (intro tends_pool [OF c p(2,3) _ p(7,8)]) (simp_all add: request_counters_def)
    moreover have "promote_block b m = Inr ?m" using p(1) False tier by (simp add: promote_block_def)
    ultimately show ?thesis using p g by auto
  qed
qed

lemma promote_blocks_ok:
  assumes "core (cm_tree m) (cm_pool m) pins X" and "\<forall>b \<in> set bs. 0 < rcount (cm_pool m) b \<and> settled (cm_pool m) b"
    and "away (cm_pool m) bs \<le> free0 (cm_pool m)"
  shows "\<exists>m'. foldE promote_block bs m = Inr m' \<and> tends pins X m m' \<and> cm_tree m' = cm_tree m
     \<and> view (cm_pool m') = view (cm_pool m) \<and> (\<forall>b \<in> set bs. goal_tier (cm_pool m') b = 0)
     \<and> (\<forall>b. goal_tier (cm_pool m) b = 0 \<longrightarrow> goal_tier (cm_pool m') b = 0)
     \<and> free0 (cm_pool m) \<le> free0 (cm_pool m') + away (cm_pool m) bs"
  using assms
proof (induction bs arbitrary: m)
  case Nil
  then show ?case using tends_refl by auto
next
  case (Cons b bs)
  have b: "0 < rcount (cm_pool m) b" "settled (cm_pool m) b" using Cons.prems(2) by auto
  have f: "0 < free0 (cm_pool m)" if "goal_tier (cm_pool m) b \<noteq> 0" using Cons.prems(3) that by simp
  obtain m1 where m1: "promote_block b m = Inr m1" "tends pins X m m1" "cm_tree m1 = cm_tree m" "view (cm_pool m1) = view (cm_pool m)"
    "goal_tier (cm_pool m1) b = 0" "\<forall>c. c \<noteq> b \<longrightarrow> steady (cm_pool m) (cm_pool m1) c"
    "free0 (cm_pool m) = free0 (cm_pool m1) + (if goal_tier (cm_pool m) b \<noteq> 0 then 1 else 0)"
    using promote_block_ok [OF Cons.prems(1) b f] by blast
  note c1 = tendsD(1) [OF m1(2)]
  have goal: "goal_tier (cm_pool m1) c = 0" if "goal_tier (cm_pool m) c = 0" for c
    using m1(5,6) steady_goal that by (cases "c = b") auto
  have "settled (cm_pool m1) c" if "settled (cm_pool m) c" for c
    using steady_settled [OF _ coreD(1) [OF Cons.prems(1)] coreD(1) [OF c1]] m1(5,6) that by (cases "c = b") (auto simp: settled_def)
  then have "\<forall>c \<in> set bs. 0 < rcount (cm_pool m1) c \<and> settled (cm_pool m1) c"
    using Cons.prems(2) view_rcount [OF m1(4)] by simp
  moreover have "away (cm_pool m1) bs \<le> away (cm_pool m) bs" using goal by (rule away_mono)
  ultimately obtain m' where m': "foldE promote_block bs m1 = Inr m'" "tends pins X m1 m'" "cm_tree m' = cm_tree m1"
    "view (cm_pool m') = view (cm_pool m1)" "\<forall>c \<in> set bs. goal_tier (cm_pool m') c = 0"
    "\<forall>c. goal_tier (cm_pool m1) c = 0 \<longrightarrow> goal_tier (cm_pool m') c = 0"
    "free0 (cm_pool m1) \<le> free0 (cm_pool m') + away (cm_pool m1) bs"
    using Cons.IH [OF c1] Cons.prems(3) m1(7) by auto
  have "free0 (cm_pool m) \<le> free0 (cm_pool m') + away (cm_pool m) (b # bs)"
    using m1(7) m'(7) \<open>away (cm_pool m1) bs \<le> away (cm_pool m) bs\<close> by simp
  then show ?case using m1 m' goal tends_trans [OF m1(2) m'(2)] by simp
qed

subsection \<open>Fresh blocks\<close>

lemma allocate_core:
  assumes c: "core t p pins X" and free: "0 < free0 p"
  shows "\<exists>b p'. allocate p = Inr (b, p') \<and> b \<noteq> kInvalidBlock \<and> core t p' pins (add_mset b X) \<and> \<not> live p b
     \<and> (\<forall>c. live p c \<longrightarrow> live p' c \<and> view p' c = view p c \<and> steady p p' c) \<and> goal_tier p' b = 0
     \<and> free0 p = free0 p' + 1 \<and> length (bp_tiers p') = length (bp_tiers p) \<and> running p' = running p"
proof -
  obtain b p' where a: "allocate p = Inr (b, p')" "sys_inv p'" "\<not> live p b" "b \<noteq> kInvalidBlock" "view p' = (view p)(b \<mapsto> (1, content p' b))"
    "\<forall>c. live p c \<longrightarrow> steady p p' c" "goal_tier p' b = 0" "free0 p = free0 p' + 1" "length (bp_tiers p') = length (bp_tiers p)"
    "running p' = running p" using allocate_status [OF coreD(1) [OF c] free] by blast
  have rc: "rcount p' = (rcount p)(b := 1)" using a(5) by (auto simp: rcount_view fun_eq_iff)
  have 0: "rcount p b = 0" using a(3) by (simp add: live_rcount)
  have "rcount p' d = count (tree_blocks t) d + count (add_mset b X) d" "rcount p' d \<le> 1" for d
    using coreD(3,4) [OF c, of d] 0 by (auto simp: rc)
  then have "core t p' pins (add_mset b X)" unfolding core_def using a(2) coreD(2) [OF c] by blast
  moreover have "live p' d \<and> view p' d = view p d" if "live p d" for d
    using a(3,5) that by (cases "d = b") (auto simp: live_rcount rc)
  ultimately show ?thesis using a by blast
qed

lemma allocate_fresh_ok:
  assumes "core t p pins X" and "n \<le> free0 p"
  shows "\<exists>fs p'. allocate_fresh n p bs = Inr (bs @ fs, p') \<and> length fs = n \<and> core t p' pins (X + mset fs)
     \<and> (\<forall>c. live p c \<longrightarrow> view p' c = view p c \<and> steady p p' c) \<and> (\<forall>b \<in> set fs. \<not> live p b \<and> goal_tier p' b = 0)
     \<and> free0 p = free0 p' + n \<and> length (bp_tiers p') = length (bp_tiers p) \<and> running p' = running p"
  using assms
proof (induction n arbitrary: p X bs)
  case 0
  then show ?case by auto
next
  case (Suc n)
  obtain b p1 where a: "allocate p = Inr (b, p1)" "b \<noteq> kInvalidBlock" "core t p1 pins (add_mset b X)" "\<not> live p b"
    "\<forall>c. live p c \<longrightarrow> live p1 c \<and> view p1 c = view p c \<and> steady p p1 c" "goal_tier p1 b = 0" "free0 p = free0 p1 + 1"
    "length (bp_tiers p1) = length (bp_tiers p)" "running p1 = running p"
    using allocate_core [OF Suc.prems(1)] Suc.prems(2) by auto
  have "n \<le> free0 p1" using a(7) Suc.prems(2) by simp
  then obtain fs p' where f: "allocate_fresh n p1 (bs @ [b]) = Inr ((bs @ [b]) @ fs, p')" "length fs = n"
    "core t p' pins (add_mset b X + mset fs)" "\<forall>c. live p1 c \<longrightarrow> view p' c = view p1 c \<and> steady p1 p' c"
    "\<forall>b \<in> set fs. \<not> live p1 b \<and> goal_tier p' b = 0" "free0 p1 = free0 p' + n" "length (bp_tiers p') = length (bp_tiers p1)" "running p' = running p1"
    using Suc.IH [OF a(3)] by blast
  have "live p1 b" using coreD(3) [OF a(3), of b] by (simp add: live_rcount)
  then have "goal_tier p' b = 0" using f(4) a(6) steady_goal by metis
  then have "\<forall>d \<in> set (b # fs). \<not> live p d \<and> goal_tier p' d = 0" using f(5) a(4,5) by auto
  moreover have "view p' c = view p c \<and> steady p p' c" if "live p c" for c using a(5) f(4) that steady_trans by metis
  ultimately show ?case using a f by (intro exI [of _ "b # fs"] exI [of _ p']) simp
qed


subsection \<open>Pinning\<close>

definition pin_of :: "nat option \<Rightarrow> nat multiset" where
  "pin_of n = (case n of None \<Rightarrow> {#} | Some n \<Rightarrow> {#n#})"

lemma pin_of_simps [simp]: "pin_of None = {#}" "pin_of (Some n) = {#n#}"
  by (simp_all add: pin_of_def)

lemma core_tree_ok: "core t p pins X \<Longrightarrow> tree_ok (rt_block_tokens t) t p pins"
  by (simp add: tree_ok_def coreD)

lemma locks_core:
  assumes c: "core t p pins X" and inv: "tree_inv (map_locks f S t) pins'"
  shows "core (map_locks f S t) p pins' X" "frame P Y t p (map_locks f S t) p" "keeps t (map_locks f S t) n"
    "index (map_locks f S t) = index t" "tree_blocks (map_locks f S t) = tree_blocks t"
proof -
  have s: "same_index t (map_locks f S t)" by (rule same_shape_index [OF map_locks_shape])
  show "core (map_locks f S t) p pins' X" by (rule core_tree [OF c inv s])
  show "frame P Y t p (map_locks f S t) p"
    by (rule frame_tree [OF s]) (simp_all add: map_locks_ok(2) [OF core_tree_ok [OF c] inv])
  show "index (map_locks f S t) = index t" by (rule map_locks_ok(2) [OF core_tree_ok [OF c] inv])
  show "keeps t (map_locks f S t) n" "tree_blocks (map_locks f S t) = tree_blocks t" using s by (simp_all add: same_index_def)
qed

lemma unpin_ok:
  assumes c: "core (cm_tree m) (cm_pool m) (pins + pin_of node) X"
  shows "\<exists>t'. unpin node m = Inr (m\<lparr>cm_tree := t'\<rparr>) \<and> core t' (cm_pool m) pins X
     \<and> frame P Y (cm_tree m) (cm_pool m) t' (cm_pool m) \<and> (\<forall>n. keeps (cm_tree m) t' n) \<and> index t' = index (cm_tree m)
     \<and> tree_blocks t' = tree_blocks (cm_tree m) \<and> rt_collisions t' = rt_collisions (cm_tree m)
     \<and> (\<forall>n \<in> candidates t' []. n \<in> candidates (cm_tree m) [] \<or> (\<exists>k. node = Some k \<and> n \<in> anc (cm_tree m) k))"
proof (cases node)
  case None
  then show ?thesis using c by (intro exI [of _ "cm_tree m"]) (simp add: unpin_def)
next
  case (Some k)
  let ?t = "map_locks (\<lambda>l. l - 1) (anc (cm_tree m) k) (cm_tree m)"
  have k: "k \<in># pins + pin_of node" by (simp add: Some)
  note u = unlock_ok [OF coreD(2) [OF c] k]
  have inv: "tree_inv ?t pins" using u(2) by (simp add: Some)
  have "n \<in> candidates (cm_tree m) []" if "n \<in> candidates ?t []" "n \<notin> anc (cm_tree m) k" for n
    using that by (simp add: candidates_def lru_candidate_def map_locks_def)
  then show ?thesis using u(1) locks_core [OF c inv] by (intro exI [of _ ?t]) (auto simp: unpin_def Some)
qed

lemma covers_keeps:
  assumes "covers t node P bs" and "rt_root t' = rt_root t" and "\<And>n. node = Some n \<Longrightarrow> keeps t t' n"
  shows "covers t' node P bs"
  using assms by (fastforce simp: covers_def keeps_def split: option.splits)

lemma covers_guarded: "covers t node P bs \<Longrightarrow> b \<in> set bs \<Longrightarrow> pin_of node \<subseteq># pins \<Longrightarrow> guarded t pins X b"
  by (auto simp: covers_def guarded_def split: option.splits)


text \<open>What is left of the hit once it is pinned and its demotions cancelled.\<close>

definition matched :: "CacheManager \<Rightarrow> TokenId list \<Rightarrow> Allocation \<Rightarrow> CacheManager \<Rightarrow> bool" where
  "matched m toks a m1 \<longleftrightarrow> hits (index (cm_tree m)) (rt_block_tokens (cm_tree m)) toks (al_blocks a)
     \<and> al_cached_blocks a = length (al_blocks a) \<and> al_cached_tokens a = length (al_blocks a) * rt_block_tokens (cm_tree m)
     \<and> covers (cm_tree m1) (al_pinned a) (take (al_cached_tokens a) toks) (al_blocks a)
     \<and> (\<forall>b \<in> set (al_blocks a). settled (cm_pool m1) b)"

lemma lock_node_ok:
  assumes c: "core t p pins X" and cov: "covers t node P bs" and size: "size pins + 1 < 2 ^ 32"
  shows "\<exists>t'. (case node of None \<Rightarrow> Inr t | Some n \<Rightarrow> lock t n) = Inr t' \<and> core t' p (pins + pin_of node) X
     \<and> frame pins X t p t' p \<and> covers t' node P bs"
proof (cases node)
  case None
  then show ?thesis using c cov by simp
next
  case (Some n)
  then obtain xs where xs: "n \<noteq> rt_root t" "chain (rt_nodes t) (rt_root t) n xs" using cov by (auto simp: covers_def)
  then obtain nd where n: "rt_nodes t n = Some nd" by (auto elim: chain.cases)
  note l = lock_ok [OF coreD(2) [OF c] n xs(1) size] and s = locks_core [OF c lock_ok(2) [OF coreD(2) [OF c] n xs(1) size]]
  show ?thesis using l(1) s(1,2) covers_keeps [OF cov _ s(3)] by (simp add: Some)
qed

lemma acquire_match_ok:
  assumes c: "core (cm_tree m) (cm_pool m) pins X" and size: "size pins + 1 < 2 ^ 32"
  shows "\<exists>a m1. acquire_match m toks = Inr (a, m1) \<and> matched m toks a m1
     \<and> free0 (cm_pool m) \<le> free0 (cm_pool m1) \<and> core (cm_tree m1) (cm_pool m1) (pins + pin_of (al_pinned a)) X
     \<and> frame pins X (cm_tree m) (cm_pool m) (cm_tree m1) (cm_pool m1)
     \<and> cm_cfg m1 = cm_cfg m \<and> cm_options m1 = cm_options m \<and> cm_stats m1 = cm_stats m"
proof -
  obtain p where p: "drain_migrations (cm_pool m) = Inr p" "tends pins X m (m\<lparr>cm_pool := p\<rparr>)" "free0 (cm_pool m) \<le> free0 p" using drain_tends [OF c] by blast
  have c1: "core (cm_tree m) p pins X" and f1: "frame pins X (cm_tree m) (cm_pool m) (cm_tree m) p" using tendsD(1,2) [OF p(2)] by simp_all
  obtain res t where t: "match_prefix (cm_tree m) toks = Inr (res, t)" "tree_inv t pins" "same_index (cm_tree m) t" "index t = index (cm_tree m)"
    "rt_block_tokens t = rt_block_tokens (cm_tree m)" "rt_root t = rt_root (cm_tree m)"
    "hits (index (cm_tree m)) (rt_block_tokens (cm_tree m)) toks (mr_blocks res)"
    "mr_num_tokens res = length (mr_blocks res) * rt_block_tokens (cm_tree m)"
    "covers t (mr_node res) (take (mr_num_tokens res) toks) (mr_blocks res)" using match_prefix_index [OF coreD(2) [OF c], of toks] by blast
  have c2: "core t p pins X" by (rule core_tree [OF c1 t(2,3)])
  have f2: "frame pins X (cm_tree m) p t p" by (rule frame_tree [OF t(3,6,5,4)])
  obtain t' where t': "(case mr_node res of None \<Rightarrow> Inr t | Some n \<Rightarrow> lock t n) = Inr t'" "core t' p (pins + pin_of (mr_node res)) X"
    "frame pins X t p t' p" "covers t' (mr_node res) (take (mr_num_tokens res) toks) (mr_blocks res)"
    using lock_node_ok [OF c2 t(9) size] by blast
  obtain p' where p': "foldE keep_block (mr_blocks res) p = Inr p'" "sys_inv p'" "view p' = view p" "\<forall>b \<in> set (mr_blocks res). settled p' b"
    "\<forall>c. goal_tier p c = 0 \<longrightarrow> goal_tier p' c = 0" "length (bp_tiers p') = length (bp_tiers p)" "running p' = running p" "free0 p' = free0 p"
    using keep_blocks_ok [OF coreD(1) [OF c1], of "mr_blocks res"] by blast
  have "frame (pins + pin_of (mr_node res)) X t' p t' p'" using p'(5) by (intro frame_pool [OF t'(2) p'(3) _ p'(6,7)]) blast
  then have "frame pins X t' p t' p'" by (rule frame_mono) simp_all
  then have "frame pins X (cm_tree m) (cm_pool m) t' p'" using frame_trans f1 f2 t'(3) by blast
  then show ?thesis
    using core_view [OF t'(2) p'(2,3)] t(7,8) t'(4) p'(4,8) p(3)
    by (simp add: acquire_match_def p(1) t(1) t'(1) p'(1) matched_def Allocation_new_def)
qed

subsection \<open>Handing out\<close>

lemma allocate_fresh_frame:
  assumes c: "core t p pins X" and room: "fresh \<le> free0 p"
  shows "\<exists>fs p'. allocate_fresh fresh p bs = Inr (bs @ fs, p') \<and> length fs = fresh \<and> core t p' pins (X + mset fs)
     \<and> frame pins X t p t p' \<and> (\<forall>b. live p b \<longrightarrow> kept p p' b) \<and> (\<forall>b \<in> set fs. goal_tier p' b = 0) \<and> free0 p = free0 p' + fresh"
proof -
  obtain fs p' where p: "allocate_fresh fresh p bs = Inr (bs @ fs, p')" "length fs = fresh"
    "core t p' pins (X + mset fs)" "\<forall>b. live p b \<longrightarrow> view p' b = view p b \<and> steady p p' b"
    "\<forall>b \<in> set fs. goal_tier p' b = 0" "length (bp_tiers p') = length (bp_tiers p)" "running p' = running p" "free0 p = free0 p' + fresh"
    using allocate_fresh_ok [OF c room] by blast
  have kept: "kept p p' b" if "live p b" for b using p(4) that steady_goal [of p p' b] by (simp add: kept_def)
  then have "kept p p' b" if "guarded t pins X b" for b using guarded_live [OF c that] by (simp add: live_rcount)
  moreover have "content p' b = content p b" if "b \<in># tree_blocks t" for b
    using content_view p(4) tree_block_live [OF c that] by blast
  ultimately have "frame pins X t p t p'" unfolding frame_def using p(6,7) by simp
  then show ?thesis using p kept by blast
qed

lemma acquire_take_ok:
  assumes c: "core (cm_tree m) (cm_pool m) pins X" and g: "\<And>b. b \<in> set (al_blocks a) \<Longrightarrow> guarded (cm_tree m) pins X b"
    and s: "\<forall>b \<in> set (al_blocks a). settled (cm_pool m) b" and room: "fresh + away (cm_pool m) (al_blocks a) \<le> free0 (cm_pool m)"
  shows "\<exists>fs m'. acquire_take a fresh n m = Inr (a\<lparr>al_blocks := al_blocks a @ fs, al_ok := True, al_owner := True\<rparr>, m')
     \<and> free0 (cm_pool m) \<le> free0 (cm_pool m') + fresh + away (cm_pool m) (al_blocks a)
     \<and> length fs = fresh \<and> core (cm_tree m') (cm_pool m') pins (X + mset fs)
     \<and> frame pins X (cm_tree m) (cm_pool m) (cm_tree m') (cm_pool m')
     \<and> (\<forall>b \<in> set (al_blocks a @ fs). goal_tier (cm_pool m') b = 0) \<and> cm_cfg m' = cm_cfg m \<and> cm_options m' = cm_options m
     \<and> request_counters (cm_stats m') = (st_requests (cm_stats m), bump (st_served (cm_stats m)),
         u64 (st_total_tokens (cm_stats m) + n), u64 (st_hit_tokens (cm_stats m) + al_cached_tokens a),
         st_alloc_failures (cm_stats m), st_abandoned (cm_stats m))"
proof -
  have live: "\<forall>b \<in> set (al_blocks a). 0 < rcount (cm_pool m) b \<and> settled (cm_pool m) b" using guarded_live [OF c g] s by blast
  have "away (cm_pool m) (al_blocks a) \<le> free0 (cm_pool m)" using room by simp
  then obtain m1 where m1: "foldE promote_block (al_blocks a) m = Inr m1" "tends pins X m m1" "cm_tree m1 = cm_tree m"
    "view (cm_pool m1) = view (cm_pool m)" "\<forall>b \<in> set (al_blocks a). goal_tier (cm_pool m1) b = 0"
    "free0 (cm_pool m) \<le> free0 (cm_pool m1) + away (cm_pool m) (al_blocks a)" using promote_blocks_ok [OF c live] by blast
  note c1 = tendsD(1) [OF m1(2)]
  have "fresh \<le> free0 (cm_pool m1)" using m1(6) room by simp
  then obtain fs p where p: "allocate_fresh fresh (cm_pool m1) (al_blocks a) = Inr (al_blocks a @ fs, p)" "length fs = fresh"
    "core (cm_tree m1) p pins (X + mset fs)" "frame pins X (cm_tree m1) (cm_pool m1) (cm_tree m1) p" "\<forall>b. live (cm_pool m1) b \<longrightarrow> kept (cm_pool m1) p b"
    "\<forall>b \<in> set fs. goal_tier p b = 0" "free0 (cm_pool m1) = free0 p + fresh"
    using allocate_fresh_frame [OF c1] by blast
  have f1: "frame pins X (cm_tree m) (cm_pool m) (cm_tree m1) p" using frame_trans tendsD(2) [OF m1(2)] p(4) by blast
  have g1: "guarded (cm_tree m1) pins (X + mset fs) b" if "b \<in> set (al_blocks a @ fs)" for b
    using that guarded_mono [OF g, of b pins "X + mset fs"] m1(3) by (auto simp: guarded_def)
  have goal1: "goal_tier p b = 0" if b: "b \<in> set (al_blocks a @ fs)" for b
  proof (cases "b \<in> set fs")
    case False
    then have b': "b \<in> set (al_blocks a)" using b by simp
    then have "live (cm_pool m1) b" using guarded_live [OF c g] view_rcount [OF m1(4)] by (simp add: live_rcount)
    then show ?thesis using p(5) m1(5) b' by (simp add: kept_def)
  qed (use p(6) in blast)
  let ?m2 = "m1\<lparr>cm_pool := p, cm_stats := (cm_stats m1)\<lparr>st_served := bump (st_served (cm_stats m1)),
                     st_total_tokens := u64 (st_total_tokens (cm_stats m1) + n),
                     st_hit_tokens := u64 (st_hit_tokens (cm_stats m1) + al_cached_tokens a)\<rparr>\<rparr>"
  obtain m' where m': "maintain ?m2 = Inr m'" "tends pins (X + mset fs) ?m2 m'" "free0 p \<le> free0 (cm_pool m')"
    using maintain_tends [of ?m2] p(3) by auto
  have "free0 (cm_pool m) \<le> free0 (cm_pool m') + fresh + away (cm_pool m) (al_blocks a)" using m1(6) p(7) m'(3) by linarith
  moreover have f2: "frame pins (X + mset fs) (cm_tree m1) p (cm_tree m') (cm_pool m')" using tendsD(2) [OF m'(2)] by simp
  moreover have "frame pins X (cm_tree m) (cm_pool m) (cm_tree m') (cm_pool m')" using frame_trans [OF f1 frame_mono [OF f2]] by simp
  moreover have "goal_tier (cm_pool m') b = 0" if "b \<in> set (al_blocks a @ fs)" for b
    using frameD(7) [OF f2 g1 [OF that]] goal1 [OF that] by (simp add: kept_def)
  moreover have "acquire_take a fresh n m = Inr (a\<lparr>al_blocks := al_blocks a @ fs, al_ok := True, al_owner := True\<rparr>, m')"
    by (simp add: acquire_take_def m1(1) p(1) Let_def m'(1))
  moreover have "request_counters (cm_stats m') = (st_requests (cm_stats m), bump (st_served (cm_stats m)),
         u64 (st_total_tokens (cm_stats m) + n), u64 (st_hit_tokens (cm_stats m) + al_cached_tokens a),
         st_alloc_failures (cm_stats m), st_abandoned (cm_stats m))"
    using tendsD(5) [OF m'(2)] tendsD(5) [OF m1(2)] by (simp add: request_counters_def)
  moreover have "cm_cfg m' = cm_cfg m" "cm_options m' = cm_options m" using tendsD(3,4) [OF m'(2)] tendsD(3,4) [OF m1(2)] by simp_all
  ultimately show ?thesis using p(2) tendsD(1) [OF m'(2)] by blast
qed

end
