(* ===== verification/Cache_Invariant.thy ===== *)
theory Cache_Invariant
  imports Cache_Acquire
begin

section \<open>The cache manager: handles and the invariant\<close>

text \<open>
  The specification keeps, beside the manager, the multiset of handles the callers hold, each
  with the tokens it was acquired for. \<open>owned\<close> are the blocks a handle references,
  \<open>pins_of\<close> the nodes the handles pin. \<open>cache_inv\<close> says that the pool's reference counts are
  exactly the tree's and the handles', that the tree's lock counts are exactly the
  handles' pins, and that every handle is \<open>handle_ok\<close>: its cached part is what its pinned node
  stands for, and all its blocks are in compute memory or on their way there.
\<close>

type_synonym handle = "Allocation \<times> TokenId list"

definition fresh_blocks :: "Allocation \<Rightarrow> BlockId list" where
  "fresh_blocks a = drop (al_cached_blocks a) (al_blocks a)"

definition owned :: "handle multiset \<Rightarrow> BlockId multiset" where
  "owned hs = \<Sum>\<^sub># (image_mset (\<lambda>h. mset (fresh_blocks (fst h))) hs)"

definition pins_of :: "handle multiset \<Rightarrow> nat multiset" where
  "pins_of hs = \<Sum>\<^sub># (image_mset (\<lambda>h. pin_of (al_pinned (fst h))) hs)"

definition handle_ok :: "RadixTree \<Rightarrow> BlockPool \<Rightarrow> handle \<Rightarrow> bool" where
  "handle_ok t p h \<longleftrightarrow> (case h of (a, toks) \<Rightarrow>
     (al_blocks a \<noteq> [] \<or> al_pinned a \<noteq> None \<longrightarrow> al_ok a \<and> al_owner a)
     \<and> al_cached_blocks a \<le> length (al_blocks a) \<and> al_cached_tokens a = al_cached_blocks a * rt_block_tokens t
     \<and> al_cached_tokens a \<le> length toks \<and> length (al_blocks a) * rt_block_tokens t < 2 ^ 64
     \<and> covers t (al_pinned a) (take (al_cached_tokens a) toks) (take (al_cached_blocks a) (al_blocks a))
     \<and> (\<forall>b \<in> set (al_blocks a). goal_tier p b = 0))"

definition cache_inv :: "CacheManager \<Rightarrow> handle multiset \<Rightarrow> bool" where
  "cache_inv m hs \<longleftrightarrow> core (cm_tree m) (cm_pool m) (pins_of hs) (owned hs)
     \<and> rt_block_tokens (cm_tree m) = cfg_block_tokens (cm_cfg m)
     \<and> (\<forall>h \<in># hs. handle_ok (cm_tree m) (cm_pool m) h)"

lemma owned_simps [simp]: "owned {#} = {#}" "owned (add_mset h hs) = mset (fresh_blocks (fst h)) + owned hs"
  by (simp_all add: owned_def)

lemma pins_of_simps [simp]: "pins_of {#} = {#}" "pins_of (add_mset h hs) = pin_of (al_pinned (fst h)) + pins_of hs"
  by (simp_all add: pins_of_def)

lemma cache_invD:
  assumes "cache_inv m hs"
  shows "core (cm_tree m) (cm_pool m) (pins_of hs) (owned hs)" "rt_block_tokens (cm_tree m) = cfg_block_tokens (cm_cfg m)"
    "h \<in># hs \<Longrightarrow> handle_ok (cm_tree m) (cm_pool m) h" "0 < cfg_block_tokens (cm_cfg m)"
  using assms tree_wfD(1) [OF coreD(5)] unfolding cache_inv_def by (blast, blast, blast, metis)

lemma handle_okD:
  assumes "handle_ok t p (a, toks)"
  shows "al_blocks a \<noteq> [] \<or> al_pinned a \<noteq> None \<Longrightarrow> al_ok a \<and> al_owner a" "al_cached_blocks a \<le> length (al_blocks a)"
    "al_cached_tokens a = al_cached_blocks a * rt_block_tokens t" "al_cached_tokens a \<le> length toks"
    "length (al_blocks a) * rt_block_tokens t < 2 ^ 64"
    "covers t (al_pinned a) (take (al_cached_tokens a) toks) (take (al_cached_blocks a) (al_blocks a))"
    "b \<in> set (al_blocks a) \<Longrightarrow> goal_tier p b = 0"
  using assms by (auto simp: handle_ok_def)

lemma handle_part:
  assumes "h \<in># hs"
  shows "pin_of (al_pinned (fst h)) \<subseteq># pins_of hs" "mset (fresh_blocks (fst h)) \<subseteq># owned hs"
  using multi_member_split [OF assms] by auto

lemma blocks_parts: "set (al_blocks a) = set (take (al_cached_blocks a) (al_blocks a)) \<union> set (fresh_blocks a)"
  by (metis append_take_drop_id fresh_blocks_def set_append)

lemma handle_guarded:
  assumes h: "h \<in># hs" "handle_ok t p h" and b: "b \<in> set (al_blocks (fst h))"
  shows "guarded t (pins_of hs) (owned hs) b"
proof (cases "b \<in> set (fresh_blocks (fst h))")
  case True
  then show ?thesis using mset_subset_eqD [OF handle_part(2) [OF h(1)], of b] by (simp add: guarded_def)
next
  case False
  then have "b \<in> set (take (al_cached_blocks (fst h)) (al_blocks (fst h)))" using b blocks_parts by blast
  then show ?thesis using covers_guarded [OF _ _ handle_part(1) [OF h(1)]] handle_okD(6) [of t p "fst h" "snd h"] h(2) by simp
qed

lemma handle_shelter:
  assumes f: "shelter (pins_of hs) (owned hs) t p t' p'" and h: "h \<in># hs" "handle_ok t p h"
  shows "handle_ok t' p' h"
proof -
  obtain a toks where a: "h = (a, toks)" by (cases h)
  note D = handle_okD [OF h(2) [unfolded a]]
  have "keeps t t' n" if "al_pinned a = Some n" for n
    using shelterD(3) [OF f] handle_part(1) [OF h(1)] that by (simp add: a)
  then have "covers t' (al_pinned a) (take (al_cached_tokens a) toks) (take (al_cached_blocks a) (al_blocks a))"
    using covers_keeps [OF D(6) shelterD(1) [OF f]] by blast
  moreover have "goal_tier p' b = 0" if "b \<in> set (al_blocks a)" for b
    using shelterD(4) [OF f handle_guarded [OF h, of b]] D(7) that by (simp add: a kept_def)
  ultimately show ?thesis using D(1-5) by (simp add: a handle_ok_def shelterD(2) [OF f])
qed

lemma cache_inv_frame:
  assumes inv: "cache_inv m hs" and c: "core (cm_tree m') (cm_pool m') (pins_of hs') (owned hs')"
    and f: "shelter (pins_of hs) (owned hs) (cm_tree m) (cm_pool m) (cm_tree m') (cm_pool m')" and cfg: "cm_cfg m' = cm_cfg m"
    and hs: "\<And>h. h \<in># hs' \<Longrightarrow> h \<in># hs \<or> handle_ok (cm_tree m') (cm_pool m') h"
  shows "cache_inv m' hs'"
  using c cache_invD(2) [OF inv] shelterD(2) [OF f] cfg handle_shelter [OF f _ cache_invD(3) [OF inv]] hs
  unfolding cache_inv_def by auto

lemma cache_inv_tends: "cache_inv m hs \<Longrightarrow> tends (pins_of hs) (owned hs) m m' \<Longrightarrow> cache_inv m' hs"
  using cache_inv_frame [of m hs m' hs] tendsD(1-3) frame_shelter by blast

text \<open>A handle that holds nothing.\<close>

lemma inert_handle:
  "al_blocks a = [] \<Longrightarrow> al_pinned a = None \<Longrightarrow> al_cached_blocks a = 0 \<Longrightarrow> al_cached_tokens a = 0 \<Longrightarrow>
     cache_inv m hs \<Longrightarrow> cache_inv m (add_mset (a, toks) hs)"
  by (auto simp: cache_inv_def handle_ok_def covers_def fresh_blocks_def)

lemma inert_new: "cache_inv m hs \<Longrightarrow> cache_inv m (add_mset (Allocation_new, toks) hs)"
  by (simp add: inert_handle Allocation_new_def)

subsection \<open>Acquire\<close>

definition blocks_needed :: "nat \<Rightarrow> nat \<Rightarrow> nat" where
  "blocks_needed bt n = (n + bt - 1) div bt"

text \<open>What a handle must say when a request is served, and when it may be refused.\<close>

definition granted :: "CacheManager \<Rightarrow> TokenId list \<Rightarrow> Allocation \<Rightarrow> bool" where
  "granted m toks a \<longleftrightarrow> (let bt = cfg_block_tokens (cm_cfg m) in
     hits (index (cm_tree m)) bt toks (take (al_cached_blocks a) (al_blocks a))
     \<and> al_cached_blocks a \<le> length (al_blocks a) \<and> al_cached_tokens a = al_cached_blocks a * bt
     \<and> length (al_blocks a) = blocks_needed bt (length toks))"

definition refused :: "CacheManager \<Rightarrow> TokenId list \<Rightarrow> Allocation \<Rightarrow> CacheManager \<Rightarrow> bool" where
  "refused m toks a m' \<longleftrightarrow> a = Allocation_new \<and> free0 (cm_pool m) \<le> free0 (cm_pool m') \<and> free0 (cm_pool m') < blocks_needed (cfg_block_tokens (cm_cfg m)) (length toks)
     \<and> (\<forall>n \<in> candidates (cm_tree m') []. \<exists>xs k. chain (rt_nodes (cm_tree m')) (rt_root (cm_tree m')) n xs
          \<and> path (rt_nodes (cm_tree m')) xs = take k toks)"

definition charged :: "TokenId list \<Rightarrow> Allocation \<Rightarrow> Stats \<Rightarrow> Stats \<Rightarrow> bool" where
  "charged toks a s s' \<longleftrightarrow> request_counters s' = (bump (st_requests s),
     if al_ok a then bump (st_served s) else st_served s,
     if al_ok a \<and> toks \<noteq> [] then u64 (st_total_tokens s + length toks) else st_total_tokens s,
     if al_ok a \<and> toks \<noteq> [] then u64 (st_hit_tokens s + al_cached_tokens a) else st_hit_tokens s,
     if al_ok a then st_alloc_failures s else bump (st_alloc_failures s), st_abandoned s)"

lemma covers_prefix:
  assumes "covers t (Some k) P bs" and "n \<in> anc t k"
  shows "\<exists>xs j. chain (rt_nodes t) (rt_root t) n xs \<and> path (rt_nodes t) xs = take j P"
proof -
  obtain xs where xs: "chain (rt_nodes t) (rt_root t) k xs" "path (rt_nodes t) xs = P" using assms(1) by (auto simp: covers_def)
  have "n \<in> set xs" using assms(2) anc_chain [OF xs(1)] by simp
  then obtain us ys where y: "xs = us @ n # ys" "chain (rt_nodes t) (rt_root t) n (n # ys)" using chain_suffix [OF xs(1)] by blast
  then have "path (rt_nodes t) (n # ys) = take (length (path (rt_nodes t) (n # ys))) P"
    using xs(2) by (auto simp: path_append)
  then show ?thesis using y(2) by blast
qed

lemma needed_arith:
  fixes bt len k :: nat
  assumes "0 < bt" and "len + bt < 2 ^ 64" and "k * bt \<le> len"
  shows "sub64 (u64 (len + bt)) 1 div bt = blocks_needed bt len" "k \<le> blocks_needed bt len"
    "blocks_needed bt len * bt < 2 ^ 64" "sub64 (blocks_needed bt len) k = blocks_needed bt len - k"
proof -
  show "sub64 (u64 (len + bt)) 1 div bt = blocks_needed bt len"
    using assms sub64_u64 [of 1 "len + bt"] u64_small [of "len + bt - 1"] unfolding blocks_needed_def by simp
  have "k * bt div bt \<le> (len + bt - 1) div bt" using assms by (intro div_le_mono) simp
  then show k: "k \<le> blocks_needed bt len" using assms(1) by (simp add: blocks_needed_def)
  have "(len + bt - 1) div bt * bt \<le> len + bt - 1" by (rule div_times_less_eq_dividend)
  then show "blocks_needed bt len * bt < 2 ^ 64" using assms(1,2) unfolding blocks_needed_def by linarith
  have "blocks_needed bt len < 2 ^ 64"
    using div_le_dividend [of "len + bt - 1" bt] assms(2) unfolding blocks_needed_def by linarith
  then show "sub64 (blocks_needed bt len) k = blocks_needed bt len - k"
    using sub64_u64 [OF k] by (simp add: u64_small)
qed


text \<open>The manager once the hit is pinned and room has been made.\<close>

definition planned :: "CacheManager \<Rightarrow> handle multiset \<Rightarrow> TokenId list \<Rightarrow> Allocation \<Rightarrow> CacheManager \<Rightarrow> bool" where
  "planned m hs toks a m2 \<longleftrightarrow> hits (index (cm_tree m)) (rt_block_tokens (cm_tree m)) toks (al_blocks a)
     \<and> al_cached_blocks a = length (al_blocks a) \<and> al_cached_tokens a = length (al_blocks a) * rt_block_tokens (cm_tree m)
     \<and> covers (cm_tree m2) (al_pinned a) (take (al_cached_tokens a) toks) (al_blocks a)
     \<and> (\<forall>b \<in> set (al_blocks a). settled (cm_pool m2) b)
     \<and> core (cm_tree m2) (cm_pool m2) (pins_of hs + pin_of (al_pinned a)) (owned hs)
     \<and> frame (pins_of hs) (owned hs) (cm_tree m) (cm_pool m) (cm_tree m2) (cm_pool m2)
     \<and> free0 (cm_pool m) \<le> free0 (cm_pool m2) \<and> cm_cfg m2 = cm_cfg m \<and> cm_options m2 = cm_options m
     \<and> request_counters (cm_stats m2) = request_counters ((cm_stats m)\<lparr>st_requests := bump (st_requests (cm_stats m))\<rparr>)"

lemma plannedD:
  assumes "planned m hs toks a m2"
  shows "hits (index (cm_tree m)) (rt_block_tokens (cm_tree m)) toks (al_blocks a)" "al_cached_blocks a = length (al_blocks a)"
    "al_cached_tokens a = length (al_blocks a) * rt_block_tokens (cm_tree m)"
    "covers (cm_tree m2) (al_pinned a) (take (al_cached_tokens a) toks) (al_blocks a)"
    "\<forall>b \<in> set (al_blocks a). settled (cm_pool m2) b"
    "core (cm_tree m2) (cm_pool m2) (pins_of hs + pin_of (al_pinned a)) (owned hs)"
    "frame (pins_of hs) (owned hs) (cm_tree m) (cm_pool m) (cm_tree m2) (cm_pool m2)"
    "cm_cfg m2 = cm_cfg m" "cm_options m2 = cm_options m"
    "request_counters (cm_stats m2) = request_counters ((cm_stats m)\<lparr>st_requests := bump (st_requests (cm_stats m))\<rparr>)"
    "free0 (cm_pool m) \<le> free0 (cm_pool m2)"
  using assms unfolding planned_def by blast+

lemma acquire_plan:
  assumes inv: "cache_inv m hs" and toks: "toks \<noteq> []" "length toks + cfg_block_tokens (cm_cfg m) < 2 ^ 64"
    and size: "size (pins_of hs) + 1 < 2 ^ 32"
  defines "need \<equiv> blocks_needed (cfg_block_tokens (cm_cfg m)) (length toks)"
  shows "\<exists>a m2. planned m hs toks a m2 \<and> length (al_blocks a) \<le> need
     \<and> (let fresh = need - length (al_blocks a); demand = fresh + away (cm_pool m2) (al_blocks a) in
          demand \<le> need \<and> (demand \<le> free0 (cm_pool m2) \<or> candidates (cm_tree m2) [] = {})
          \<and> acquire m toks = (if free0 (cm_pool m2) < demand then
               bindE (unpin (al_pinned a) m2) (\<lambda>m3. Inr (Allocation_new, m3\<lparr>cm_stats := (cm_stats m3)
                            \<lparr>st_alloc_failures := bump (st_alloc_failures (cm_stats m3))\<rparr>\<rparr>))
             else acquire_take a fresh (length toks) m2))"
proof -
  let ?bt = "cfg_block_tokens (cm_cfg m)"
  let ?m = "m\<lparr>cm_stats := (cm_stats m)\<lparr>st_requests := bump (st_requests (cm_stats m))\<rparr>\<rparr>"
  note I = cache_invD [OF inv]
  have "core (cm_tree ?m) (cm_pool ?m) (pins_of hs) (owned hs)" using I(1) by simp
  from acquire_match_ok [OF this size, of toks] obtain a m1 where
    a: "acquire_match ?m toks = Inr (a, m1)" "matched m toks a m1"
      "core (cm_tree m1) (cm_pool m1) (pins_of hs + pin_of (al_pinned a)) (owned hs)"
      "frame (pins_of hs) (owned hs) (cm_tree m) (cm_pool m) (cm_tree m1) (cm_pool m1)"
      "cm_cfg m1 = cm_cfg m" "cm_options m1 = cm_options m" "cm_stats m1 = cm_stats ?m" "free0 (cm_pool m) \<le> free0 (cm_pool m1)" by (auto simp: matched_def)
  have b: "hits (index (cm_tree m)) ?bt toks (al_blocks a)" "al_cached_blocks a = length (al_blocks a)"
    "al_cached_tokens a = length (al_blocks a) * ?bt" "covers (cm_tree m1) (al_pinned a) (take (al_cached_tokens a) toks) (al_blocks a)"
    "\<forall>b \<in> set (al_blocks a). settled (cm_pool m1) b" using a(2) unfolding matched_def I(2) by blast+
  have "length (al_blocks a) * ?bt \<le> length toks" using b(1) by (simp add: hits_def)
  note arith = needed_arith [OF I(4) toks(2) this, folded need_def]
  note g = covers_guarded [OF b(4), of _ "pins_of hs + pin_of (al_pinned a)" "owned hs"]
  have cp: "count_promotions (cm_pool m1) (al_blocks a) = Inr (away (cm_pool m1) (al_blocks a))"
    using count_promotions_eq [OF coreD(1) [OF a(3)]] b(5) guarded_live [OF a(3) g] by simp
  define demand where "demand = need - length (al_blocks a) + away (cm_pool m1) (al_blocks a)"
  have "away (cm_pool m1) (al_blocks a) \<le> length (al_blocks a)" by (simp add: away_def)
  then have dn: "demand \<le> need" using arith(2) by (simp add: demand_def)
  have "need < 2 ^ 64" using arith(3) I(4) by (metis less_le_trans mult.right_neutral mult_le_mono2 not_less_eq_eq One_nat_def Suc_leI leD leI)
  then have d64: "u64 (need - length (al_blocks a) + away (cm_pool m1) (al_blocks a)) = demand" using dn by (simp add: u64_small demand_def)
  obtain m2 where m2: "acquire_room demand m1 = Inr m2" "tends (pins_of hs + pin_of (al_pinned a)) (owned hs) m1 m2" "free0 (cm_pool m1) \<le> free0 (cm_pool m2)"
    "\<forall>b. guarded (cm_tree m1) (pins_of hs + pin_of (al_pinned a)) (owned hs) b \<longrightarrow> steady (cm_pool m1) (cm_pool m2) b"
    "demand \<le> free0 (cm_pool m2) \<or> candidates (cm_tree m2) [] = {}" using acquire_room_tends [OF a(3)] by blast
  note T = tendsD [OF m2(2)]
  have st: "steady (cm_pool m1) (cm_pool m2) b" if "b \<in> set (al_blocks a)" for b using m2(4) g [OF that] by simp
  have aw: "away (cm_pool m2) (al_blocks a) = away (cm_pool m1) (al_blocks a)"
    unfolding away_def using steady_goal [OF st] by (metis (mono_tags, lifting) filter_cong)
  have "covers (cm_tree m2) (al_pinned a) (take (al_cached_tokens a) toks) (al_blocks a)"
    using frameD(3) [OF T(2)] by (intro covers_keeps [OF b(4) frameD(1) [OF T(2)]]) auto
  moreover have "\<forall>b \<in> set (al_blocks a). settled (cm_pool m2) b"
    using steady_settled [OF st coreD(1) [OF a(3)] coreD(1) [OF T(1)]] b(5) by blast
  moreover have "frame (pins_of hs) (owned hs) (cm_tree m) (cm_pool m) (cm_tree m2) (cm_pool m2)"
    using frame_trans [OF a(4) frame_mono [OF T(2)]] by simp
  ultimately have "planned m hs toks a m2"
    using b(1-3) T(1,3,4,5) a(5-7) order_trans [OF a(8) m2(3)] by (simp add: planned_def I(2))
  moreover have "acquire m toks = (if free0 (cm_pool m2) < demand then
               bindE (unpin (al_pinned a) m2) (\<lambda>m3. Inr (Allocation_new, m3\<lparr>cm_stats := (cm_stats m3)
                            \<lparr>st_alloc_failures := bump (st_alloc_failures (cm_stats m3))\<rparr>\<rparr>))
             else acquire_take a (need - length (al_blocks a)) (length toks) m2)"
    using toks(1) num_free_eq [OF coreD(1) [OF T(1)]]
    by (simp add: acquire_def Let_def a(1) cp arith(1) [unfolded One_nat_def] arith(4) d64 m2(1) b(2))
  ultimately show ?thesis using m2(5) dn arith(2) aw by (intro exI [of _ a] exI [of _ m2]) (simp add: Let_def demand_def)
qed


text \<open>What every request leaves true, whether it is served or not.\<close>

definition acquired :: "CacheManager \<Rightarrow> handle multiset \<Rightarrow> TokenId list \<Rightarrow> Allocation \<Rightarrow> CacheManager \<Rightarrow> bool" where
  "acquired m hs toks a m' \<longleftrightarrow> cache_inv m' (add_mset (a, toks) hs)
     \<and> frame (pins_of hs) (owned hs) (cm_tree m) (cm_pool m) (cm_tree m') (cm_pool m')
     \<and> cm_cfg m' = cm_cfg m \<and> cm_options m' = cm_options m \<and> free0 (cm_pool m) \<le> free0 (cm_pool m') + length (al_blocks a)
     \<and> (if al_ok a then granted m toks a else refused m toks a m') \<and> charged toks a (cm_stats m) (cm_stats m')"

lemma acquire_empty:
  assumes inv: "cache_inv m hs"
  shows "\<exists>a m'. acquire m [] = Inr (a, m') \<and> acquired m hs [] a m'"
proof -
  let ?m = "m\<lparr>cm_stats := (cm_stats m)\<lparr>st_requests := bump (st_requests (cm_stats m)), st_served := bump (st_served (cm_stats m))\<rparr>\<rparr>"
  have bt: "0 < cfg_block_tokens (cm_cfg m)" by (rule cache_invD(4) [OF inv])
  have i: "cache_inv ?m hs" using inv by (simp add: cache_inv_def)
  have "cache_inv ?m (add_mset (Allocation_new\<lparr>al_ok := True\<rparr>, []) hs)"
    by (rule inert_handle [OF _ _ _ _ i]) (simp_all add: Allocation_new_def)
  then show ?thesis
    using bt by (simp add: acquire_def acquired_def granted_def charged_def request_counters_def hits_def blocks_needed_def Allocation_new_def Let_def)
qed

lemma acquire_refused:
  assumes inv: "cache_inv m hs" and pl: "planned m hs toks a m2" and none: "candidates (cm_tree m2) [] = {}"
    and short: "free0 (cm_pool m2) < blocks_needed (cfg_block_tokens (cm_cfg m)) (length toks)"
  shows "\<exists>m3. unpin (al_pinned a) m2 = Inr m3 \<and> acquired m hs toks Allocation_new
     (m3\<lparr>cm_stats := (cm_stats m3)\<lparr>st_alloc_failures := bump (st_alloc_failures (cm_stats m3))\<rparr>\<rparr>)"
proof -
  note P = plannedD [OF pl]
  obtain t where t: "unpin (al_pinned a) m2 = Inr (m2\<lparr>cm_tree := t\<rparr>)" "core t (cm_pool m2) (pins_of hs) (owned hs)"
    "frame (pins_of hs) (owned hs) (cm_tree m2) (cm_pool m2) t (cm_pool m2)" "\<forall>n. keeps (cm_tree m2) t n"
    "\<forall>n \<in> candidates t []. n \<in> candidates (cm_tree m2) [] \<or> (\<exists>k. al_pinned a = Some k \<and> n \<in> anc (cm_tree m2) k)"
    using unpin_ok [OF P(6)] by blast
  let ?m = "m2\<lparr>cm_tree := t, cm_stats := (cm_stats m2)\<lparr>st_alloc_failures := bump (st_alloc_failures (cm_stats m2))\<rparr>\<rparr>"
  have f: "frame (pins_of hs) (owned hs) (cm_tree m) (cm_pool m) t (cm_pool m2)" using frame_trans [OF P(7) t(3)] .
  have "cache_inv ?m hs" by (rule cache_inv_frame [OF inv]) (use t(2) f P(8) frame_shelter in simp_all)
  then have i: "cache_inv ?m (add_mset (Allocation_new, toks) hs)" by (rule inert_new)
  have "\<exists>xs k. chain (rt_nodes t) (rt_root t) n xs \<and> path (rt_nodes t) xs = take k toks" if n: "n \<in> candidates t []" for n
  proof -
    obtain k where k: "al_pinned a = Some k" "n \<in> anc (cm_tree m2) k" using t(5) n none by blast
    obtain xs j where "chain (rt_nodes (cm_tree m2)) (rt_root (cm_tree m2)) n xs"
      "path (rt_nodes (cm_tree m2)) xs = take j (take (al_cached_tokens a) toks)"
      using covers_prefix [OF P(4) [unfolded k(1)] k(2)] by blast
    then show ?thesis using t(4) unfolding keeps_def by (metis take_take)
  qed
  then have "refused m toks Allocation_new ?m" using short P(11) by (simp add: refused_def)
  then show ?thesis
    using t(1) i f P(8-11) by (simp add: acquired_def charged_def request_counters_def Allocation_new_def)
qed

lemma acquire_granted:
  assumes inv: "cache_inv m hs" and pl: "planned m hs toks a m2" and toks: "toks \<noteq> []"
      "length toks + cfg_block_tokens (cm_cfg m) < 2 ^ 64"
    and need: "length (al_blocks a) \<le> need" "need = blocks_needed (cfg_block_tokens (cm_cfg m)) (length toks)"
    and room: "need - length (al_blocks a) + away (cm_pool m2) (al_blocks a) \<le> free0 (cm_pool m2)"
  shows "\<exists>a' m'. acquire_take a (need - length (al_blocks a)) (length toks) m2 = Inr (a', m') \<and> acquired m hs toks a' m'"
proof -
  note P = plannedD [OF pl] and I = cache_invD [OF inv]
  note g = covers_guarded [OF P(4), of _ "pins_of hs + pin_of (al_pinned a)" "owned hs"]
  let ?a = "\<lambda>fs. a\<lparr>al_blocks := al_blocks a @ fs, al_ok := True, al_owner := True\<rparr>"
  obtain fs m' where t: "acquire_take a (need - length (al_blocks a)) (length toks) m2 = Inr (?a fs, m')"
    "length fs = need - length (al_blocks a)" "core (cm_tree m') (cm_pool m') (pins_of hs + pin_of (al_pinned a)) (owned hs + mset fs)"
    "frame (pins_of hs + pin_of (al_pinned a)) (owned hs) (cm_tree m2) (cm_pool m2) (cm_tree m') (cm_pool m')"
    "\<forall>b \<in> set (al_blocks a @ fs). goal_tier (cm_pool m') b = 0" "cm_cfg m' = cm_cfg m2" "cm_options m' = cm_options m2"
    "request_counters (cm_stats m') = (st_requests (cm_stats m2), bump (st_served (cm_stats m2)),
         u64 (st_total_tokens (cm_stats m2) + length toks), u64 (st_hit_tokens (cm_stats m2) + al_cached_tokens a),
         st_alloc_failures (cm_stats m2), st_abandoned (cm_stats m2))"
    "free0 (cm_pool m2) \<le> free0 (cm_pool m') + (need - length (al_blocks a)) + away (cm_pool m2) (al_blocks a)"
    using acquire_take_ok [OF P(6) _ P(5) room, of "length toks"] g by auto
  have f: "frame (pins_of hs) (owned hs) (cm_tree m) (cm_pool m) (cm_tree m') (cm_pool m')"
    using frame_trans [OF P(7) frame_mono [OF t(4)]] by simp
  have bt: "rt_block_tokens (cm_tree m') = rt_block_tokens (cm_tree m)" by (rule frameD(2) [OF f])
  have le: "length (al_blocks a) * rt_block_tokens (cm_tree m) \<le> length toks" using P(1) by (simp add: hits_def)
  have cov: "covers (cm_tree m') (al_pinned a) (take (al_cached_tokens a) toks) (al_blocks a)"
    using frameD(3) [OF t(4)] by (intro covers_keeps [OF P(4) frameD(1) [OF t(4)]]) auto
  have n64: "need * cfg_block_tokens (cm_cfg m) < 2 ^ 64" using needed_arith(3) [OF I(4) toks(2), of 0] need(2) by simp
  have "handle_ok (cm_tree m') (cm_pool m') (?a fs, toks)"
    unfolding handle_ok_def using P(2,3) bt le cov t(2,5) need(1) n64 I(2) by simp
  then have i: "cache_inv m' (add_mset (?a fs, toks) hs)"
    using t(3,6) P(2,8) by (intro cache_inv_frame [OF inv _ frame_shelter [OF f]]) (auto simp: fresh_blocks_def add.commute)
  have "granted m toks (?a fs)" unfolding granted_def using P(1,2,3) t(2) need I(2) by simp
  moreover have "charged toks (?a fs) (cm_stats m) (cm_stats m')"
    using t(8) P(10) toks(1) by (simp add: charged_def request_counters_def)
  moreover have "away (cm_pool m2) (al_blocks a) \<le> length (al_blocks a)" by (simp add: away_def)
  then have "free0 (cm_pool m) \<le> free0 (cm_pool m') + length (al_blocks (?a fs))" using P(11) t(2,9) need(1) by simp
  ultimately have "acquired m hs toks (?a fs) m'" unfolding acquired_def using i f t(6,7) P(8,9) by simp
  then show ?thesis using t(1) by blast
qed

lemma acquire_ok:
  assumes inv: "cache_inv m hs" and toks: "length toks + cfg_block_tokens (cm_cfg m) < 2 ^ 64"
    and size: "size (pins_of hs) + 1 < 2 ^ 32"
  shows "\<exists>a m'. acquire m toks = Inr (a, m') \<and> acquired m hs toks a m'"
proof (cases "toks = []")
  case True
  then show ?thesis using acquire_empty [OF inv] by simp
next
  case False
  let ?need = "blocks_needed (cfg_block_tokens (cm_cfg m)) (length toks)"
  obtain a m2 where a: "planned m hs toks a m2" "length (al_blocks a) \<le> ?need"
    and d: "let fresh = ?need - length (al_blocks a); demand = fresh + away (cm_pool m2) (al_blocks a) in
          demand \<le> ?need \<and> (demand \<le> free0 (cm_pool m2) \<or> candidates (cm_tree m2) [] = {})
          \<and> acquire m toks = (if free0 (cm_pool m2) < demand then
               bindE (unpin (al_pinned a) m2) (\<lambda>m3. Inr (Allocation_new, m3\<lparr>cm_stats := (cm_stats m3)
                            \<lparr>st_alloc_failures := bump (st_alloc_failures (cm_stats m3))\<rparr>\<rparr>))
             else acquire_take a fresh (length toks) m2)"
    using acquire_plan [OF inv False toks size] by blast
  show ?thesis
  proof (cases "free0 (cm_pool m2) < ?need - length (al_blocks a) + away (cm_pool m2) (al_blocks a)")
    case True
    then show ?thesis using acquire_refused [OF inv a(1)] d by (force simp: Let_def)
  next
    case room: False
    then show ?thesis using acquire_granted [OF inv a(1) False toks a(2) refl] d by (simp add: Let_def)
  qed
qed

end
