(* ===== verification/Cache_Release.thy ===== *)
theory Cache_Release
  imports Cache_Invariant
begin

section \<open>The cache manager: giving handles back\<close>

text \<open>
  \<^verbatim>\<open>abandon()\<close> (the destructor of a handle) and \<^verbatim>\<open>release()\<close> give back what \<^verbatim>\<open>acquire()\<close> handed
  out: each reference once, each pin once. \<^verbatim>\<open>release()\<close> publishes the blocks first; that no
  block ends with two references rests on the caller passing the tokens it acquired as far as
  they were cached (\<open>agrees\<close>).
\<close>

subsection \<open>Dropping references\<close>

lemma index_block:
  assumes wf: "tree_wf t" and i: "index t P = Some b" shows "b \<in># tree_blocks t"
proof -
  obtain n xs j where c: "chain (rt_nodes t) (rt_root t) n xs" "j < length (path_blocks (rt_nodes t) xs)" "b = path_blocks (rt_nodes t) xs ! j"
    using i index_iff [OF wf] by (auto simp: cached_def)
  then have "b \<in> set (path_blocks (rt_nodes t) xs)" by simp
  then obtain m md where "rt_nodes t m = Some md" "b \<in> set (nd_blocks md)" using path_blocks_node [OF c(1)] by blast
  then show ?thesis using mset_subset_eqD [OF node_blocks [OF wf]] by simp
qed

text \<open>References dropped and taken, none of them a handle's that stays.\<close>

lemma pool_rel_shelter:
  assumes c: "core t p pins X" and c': "core t' p' pins' X'" and r: "pool_rel p p'"
    and t: "rt_root t' = rt_root t" "rt_block_tokens t' = rt_block_tokens t" "\<And>n. keeps t t' n"
    and sub: "P \<subseteq># pins'" "Y \<subseteq># X'"
  shows "shelter P Y t p t' p'"
proof -
  have "kept p p' b" if g: "guarded t P Y b" for b
  proof -
    have "guarded t' pins' X' b" using guarded_mono [OF guarded_keeps [OF g t(3)] sub] .
    then have l': "live p' b" using guarded_live [OF c'] by (simp add: live_rcount)
    note R = pool_rel_live [OF r l']
    have "rcount p b = 1" "rcount p' b = 1"
      using R(1) l' coreD(4) [OF c, of b] coreD(4) [OF c', of b] by (simp_all add: live_rcount)
    then have "view p' b = view p b" using R(1,2) l' by (simp add: view_def rcount_def live_def)
    then show ?thesis using steady_goal [OF R(3)] by (simp add: kept_def)
  qed
  moreover have "length (bp_tiers p') = length (bp_tiers p)" "running p' = running p"
    using r by (simp_all add: pool_rel_def running_def)
  ultimately show ?thesis unfolding shelter_def using t by simp
qed

lemma pool_rel_frame:
  assumes c: "core t p pins X" and c': "core t p' pins' X'" and r: "pool_rel p p'" and sub: "P \<subseteq># pins'" "Y \<subseteq># X'"
  shows "frame P Y t p t p'"
proof -
  have "shelter P Y t p t p'" by (rule pool_rel_shelter [OF c c' r _ _ _ sub]) simp_all
  moreover have "content p' b = content p b" if "b \<in># tree_blocks t" for b
    using pool_rel_live(2) [OF r tree_block_live [OF c' that]] .
  ultimately show ?thesis unfolding frame_def shelter_def by simp
qed

lemma drop_fresh_ok:
  assumes c: "core (cm_tree m) (cm_pool m) pins (mset (fresh_blocks a) + X)"
  shows "\<exists>p. drop_fresh a m = Inr (m\<lparr>cm_pool := p\<rparr>) \<and> core (cm_tree m) p pins X \<and> pool_rel (cm_pool m) p
     \<and> rcount p = (\<lambda>b. rcount (cm_pool m) b - count (mset (fresh_blocks a)) b)"
proof -
  have le: "count (mset (fresh_blocks a)) b \<le> rcount (cm_pool m) b" for b using coreD(3) [OF c, of b] by simp
  obtain p where p: "release_blocks (fresh_blocks a) (cm_pool m) = Inr p" "sys_inv p" "pool_rel (cm_pool m) p"
    "rcount p = (\<lambda>b. rcount (cm_pool m) b - count (mset (fresh_blocks a)) b)"
    using release_blocks_ok [OF coreD(1) [OF c] le] by blast
  have "rcount p b = count (tree_blocks (cm_tree m)) b + count X b" "rcount p b \<le> 1" for b
    using coreD(3,4) [OF c, of b] by (simp_all add: p(4))
  then have "core (cm_tree m) p pins X" unfolding core_def using p(2) coreD(2) [OF c] by blast
  moreover have "drop_fresh a m = Inr (m\<lparr>cm_pool := p\<rparr>)" using p(1) by (simp add: drop_fresh_def fresh_blocks_def)
  ultimately show ?thesis using p(3,4) by blast
qed

subsection \<open>Abandoning a handle\<close>

lemma frame_shelters: "frame pins' X' t p t' p' \<Longrightarrow> pins \<subseteq># pins' \<Longrightarrow> X \<subseteq># X' \<Longrightarrow> shelter pins X t p t' p'"
  by (rule frame_shelter [OF frame_mono])

lemma cache_inv_give:
  assumes inv: "cache_inv m (add_mset h hs)" and c: "core (cm_tree m') (cm_pool m') (pins_of hs) (owned hs)"
    and f: "shelter (pins_of hs) (owned hs) (cm_tree m) (cm_pool m) (cm_tree m') (cm_pool m')" and cfg: "cm_cfg m' = cm_cfg m"
  shows "cache_inv m' hs"
proof -
  have "handle_ok (cm_tree m') (cm_pool m') k" if "k \<in># hs" for k
    using handle_shelter [OF f that cache_invD(3) [OF inv]] that by simp
  then show ?thesis unfolding cache_inv_def using c cache_invD(2) [OF inv] shelterD(2) [OF f] cfg by simp
qed

text \<open>Dropping a handle's references and its pin.\<close>

lemma give_back_ok:
  assumes c: "core (cm_tree m) (cm_pool m) (pins + pin_of (al_pinned a)) (mset (fresh_blocks a) + X)"
  shows "\<exists>m1 t' p'. drop_fresh a m = Inr m1 \<and> unpin (al_pinned a) m1 = Inr (m\<lparr>cm_pool := p', cm_tree := t'\<rparr>)
     \<and> core t' p' pins X \<and> frame pins X (cm_tree m) (cm_pool m) t' p' \<and> index t' = index (cm_tree m)
     \<and> rcount p' = (\<lambda>b. rcount (cm_pool m) b - count (mset (fresh_blocks a)) b)"
proof -
  obtain p where p: "drop_fresh a m = Inr (m\<lparr>cm_pool := p\<rparr>)" "core (cm_tree m) p (pins + pin_of (al_pinned a)) X"
    "pool_rel (cm_pool m) p" "rcount p = (\<lambda>b. rcount (cm_pool m) b - count (mset (fresh_blocks a)) b)"
    using drop_fresh_ok [OF c] by blast
  have f1: "frame pins X (cm_tree m) (cm_pool m) (cm_tree m) p" by (rule pool_rel_frame [OF c p(2,3)]) simp_all
  have "core (cm_tree (m\<lparr>cm_pool := p\<rparr>)) (cm_pool (m\<lparr>cm_pool := p\<rparr>)) (pins + pin_of (al_pinned a)) X" using p(2) by simp
  from unpin_ok [OF this, of pins X] obtain t where t: "unpin (al_pinned a) (m\<lparr>cm_pool := p\<rparr>) = Inr (m\<lparr>cm_pool := p, cm_tree := t\<rparr>)"
    "core t p pins X" "frame pins X (cm_tree m) p t p" "index t = index (cm_tree m)" by auto
  show ?thesis using p(1,4) t frame_trans [OF f1 t(3)] by blast
qed


definition given_back :: "CacheManager \<Rightarrow> handle multiset \<Rightarrow> CacheManager \<Rightarrow> bool" where
  "given_back m hs m' \<longleftrightarrow> cache_inv m' hs
     \<and> shelter (pins_of hs) (owned hs) (cm_tree m) (cm_pool m) (cm_tree m') (cm_pool m')
     \<and> cm_cfg m' = cm_cfg m \<and> cm_options m' = cm_options m"

lemma abandon_ok:
  assumes inv: "cache_inv m (add_mset (a, toks) hs)"
  shows "\<exists>m'. abandon m a = Inr (disarm a, m') \<and> given_back m hs m'
     \<and> frame (pins_of hs) (owned hs) (cm_tree m) (cm_pool m) (cm_tree m') (cm_pool m')
     \<and> index (cm_tree m') = index (cm_tree m)
     \<and> rcount (cm_pool m') = (\<lambda>b. rcount (cm_pool m) b - count (mset (fresh_blocks a)) b)
     \<and> cm_stats m' = (cm_stats m)\<lparr>st_abandoned := bump (st_abandoned (cm_stats m))\<rparr>"
proof -
  have "core (cm_tree m) (cm_pool m) (pins_of hs + pin_of (al_pinned a)) (mset (fresh_blocks a) + owned hs)"
    using cache_invD(1) [OF inv] by (simp add: add.commute)
  then obtain m1 t p where g: "drop_fresh a m = Inr m1" "unpin (al_pinned a) m1 = Inr (m\<lparr>cm_pool := p, cm_tree := t\<rparr>)"
    "core t p (pins_of hs) (owned hs)" "frame (pins_of hs) (owned hs) (cm_tree m) (cm_pool m) t p" "index t = index (cm_tree m)"
    "rcount p = (\<lambda>b. rcount (cm_pool m) b - count (mset (fresh_blocks a)) b)" using give_back_ok by blast
  let ?m = "m\<lparr>cm_pool := p, cm_tree := t, cm_stats := (cm_stats m)\<lparr>st_abandoned := bump (st_abandoned (cm_stats m))\<rparr>\<rparr>"
  have "cache_inv ?m hs" by (rule cache_inv_give [OF inv]) (use g(3,4) frame_shelter in simp_all)
  then have "given_back m hs ?m" using frame_shelter [OF g(4)] by (simp add: given_back_def)
  then show ?thesis using g by (intro exI [of _ ?m]) (simp add: abandon_def)
qed

text \<open>A handle that is not armed holds nothing.\<close>

lemma unarmed:
  assumes inv: "cache_inv m (add_mset (a, toks) hs)" and u: "\<not> (al_ok a \<and> al_owner a)"
  shows "cache_inv m hs" "fresh_blocks a = []" "al_pinned a = None" "al_blocks a = []"
proof -
  have ok: "handle_ok (cm_tree m) (cm_pool m) (a, toks)" using cache_invD(3) [OF inv] by simp
  show "al_blocks a = []" "al_pinned a = None" using handle_okD(1) [OF ok] u by blast+
  then show "fresh_blocks a = []" by (simp add: fresh_blocks_def)
  then show "cache_inv m hs" using inv \<open>al_pinned a = None\<close> by (simp add: cache_inv_def)
qed

lemma destroy_ok:
  assumes inv: "cache_inv m (add_mset (a, toks) hs)"
  shows "\<exists>m'. Allocation_destroy m a = Inr m' \<and> given_back m hs m'
     \<and> frame (pins_of hs) (owned hs) (cm_tree m) (cm_pool m) (cm_tree m') (cm_pool m')
     \<and> index (cm_tree m') = index (cm_tree m)
     \<and> rcount (cm_pool m') = (\<lambda>b. rcount (cm_pool m) b - count (mset (fresh_blocks a)) b)
     \<and> cm_stats m' = (if al_ok a \<and> al_owner a then (cm_stats m)\<lparr>st_abandoned := bump (st_abandoned (cm_stats m))\<rparr> else cm_stats m)"
proof (cases "al_ok a \<and> al_owner a")
  case True
  then show ?thesis using abandon_ok [OF inv] by (auto simp: Allocation_destroy_def)
next
  case False
  note u = unarmed [OF inv False]
  have "given_back m hs m" using u(1) frame_shelter [OF frame_refl] by (simp add: given_back_def)
  then show ?thesis using False u(2) by (auto simp: Allocation_destroy_def)
qed

subsection \<open>Publishing\<close>

text \<open>The tokens a handle is released with repeat those it was acquired for, as far as they were cached.\<close>

definition agrees :: "nat \<Rightarrow> TokenId list \<Rightarrow> TokenId list \<Rightarrow> bool" where
  "agrees c toks' toks \<longleftrightarrow> take c toks' = take (length toks') (take c toks)"

lemma covers_index:
  assumes wf: "tree_wf t" and cov: "covers t node P bs" and i: "i < length bs"
  shows "index t (take ((i + 1) * rt_block_tokens t) P) = Some (bs ! i)"
proof -
  obtain n xs where "chain (rt_nodes t) (rt_root t) n xs" "path (rt_nodes t) xs = P" "path_blocks (rt_nodes t) xs = bs"
    using cov i by (auto simp: covers_def split: option.splits)
  then have "cached t (take ((i + 1) * rt_block_tokens t) P) (bs ! i)" using i unfolding cached_def by blast
  then show ?thesis using index_iff [OF wf] by simp
qed

text \<open>What was cached at the time of the request is found again, so only fresh blocks are inserted.\<close>

lemma inserted_fresh:
  fixes toks toks' :: "TokenId list"
  assumes wf: "tree_wf t" and ok: "handle_ok t p (a, toks)" and ag: "agrees (al_cached_tokens a) toks' toks"
    and lb: "lb * rt_block_tokens t \<le> length toks'"
    and h: "hits (index t) (rt_block_tokens t) (take (lb * rt_block_tokens t) toks') cs"
    and k: "k = 0 \<or> k = lb - length cs"
  shows "mset (take k (drop (length cs) (al_blocks a))) \<subseteq># mset (fresh_blocks a)"
    "0 < k \<Longrightarrow> al_cached_blocks a \<le> length cs"
proof -
  let ?bt = "rt_block_tokens t" and ?c = "al_cached_blocks a"
  note D = handle_okD [OF ok]
  have found: "i < length cs" if i: "i < ?c" "i < lb" for i
  proof -
    have b1: "(i + 1) * ?bt \<le> al_cached_tokens a" "(i + 1) * ?bt \<le> lb * ?bt"
      using i mult_le_mono1 [of "i + 1" ?c ?bt] mult_le_mono1 [of "i + 1" lb ?bt] D(3) by simp_all
    have "take ((i + 1) * ?bt) toks' = take ((i + 1) * ?bt) (take (al_cached_tokens a) toks')" using b1(1) by (simp add: min_absorb1)
    also have "\<dots> = take ((i + 1) * ?bt) (take (al_cached_tokens a) toks)"
      using ag b1 lb unfolding agrees_def by (simp add: min_absorb1 min_absorb2)
    finally have "index t (take ((i + 1) * ?bt) toks') = Some (take ?c (al_blocks a) ! i)"
      using covers_index [OF wf D(6), of i] i(1) D(2) by simp
    moreover have "take ((i + 1) * ?bt) (take (lb * ?bt) toks') = take ((i + 1) * ?bt) toks'" using b1(2) by (simp add: min_absorb1)
    moreover have "(i + 1) * ?bt \<le> length (take (lb * ?bt) toks')" using b1(2) lb by simp
    ultimately show ?thesis using h unfolding hits_def by metis
  qed
  have min: "min ?c lb \<le> length cs"
  proof (rule ccontr)
    assume "\<not> min ?c lb \<le> length cs"
    then show False using found [of "length cs"] by (simp add: not_le)
  qed
  then show c: "0 < k \<Longrightarrow> ?c \<le> length cs" using k by auto
  show "mset (take k (drop (length cs) (al_blocks a))) \<subseteq># mset (fresh_blocks a)"
  proof (cases "k = 0")
    case False
    then have "drop (length cs) (al_blocks a) = drop (length cs - ?c) (fresh_blocks a)" using c by (simp add: fresh_blocks_def)
    then show ?thesis
      by (metis mset_take_drop mset_subset_eq_add_left mset_subset_eq_add_right subset_mset.order_trans)
  qed simp
qed


lemma path_blocks_sub:
  assumes wf: "tree_wf t" and c: "chain (rt_nodes t) (rt_root t) n xs"
  shows "mset (path_blocks (rt_nodes t) xs) \<subseteq># tree_blocks t"
proof -
  have "mset (path_blocks (rt_nodes t) xs) = sum_list (map (\<lambda>n. mset (nd_blocks (the (rt_nodes t n)))) xs)"
    by (induction xs) (simp_all add: add.commute)
  also have "\<dots> = (\<Sum>n \<in> set xs. mset (nd_blocks (the (rt_nodes t n))))"
    using chain_distinct [OF c] by (simp add: sum_list_distinct_conv_sum_set)
  finally have e: "mset (path_blocks (rt_nodes t) xs) = (\<Sum>n \<in> set xs. mset (nd_blocks (the (rt_nodes t n))))" .
  have "set xs \<subseteq> dom (rt_nodes t)" using chain_mem [OF c] by auto
  then show ?thesis unfolding e tree_blocks_def by (metis mset_subset_eq_add_right sum.subset_diff wf_finite [OF wf])
qed

lemma release_ready:
  assumes c: "core t p (pins_of hs) (owned hs)" and h: "(a, toks) \<in># hs" "handle_ok t p (a, toks)"
  shows "insert_ready t p (al_blocks a)"
proof -
  note D = handle_okD [OF h(2)]
  have two: "count (mset (al_blocks a)) b \<le> 2" for b
  proof -
    have "mset (take (al_cached_blocks a) (al_blocks a)) \<subseteq># tree_blocks t"
      using D(6) path_blocks_sub [OF coreD(5) [OF c]] unfolding covers_def by (fastforce split: option.splits)
    moreover have "mset (fresh_blocks a) \<subseteq># owned hs" using handle_part(2) [OF h(1)] by simp
    ultimately have "count (mset (take (al_cached_blocks a) (al_blocks a))) b + count (mset (fresh_blocks a)) b \<le> rcount p b"
      using coreD(3) [OF c, of b] by (simp add: mset_subset_eq_count add_mono)
    then show ?thesis using coreD(4) [OF c, of b] mset_take_drop [of "al_cached_blocks a" "al_blocks a"]
      by (metis count_union fresh_blocks_def le_trans one_le_numeral)
  qed
  have "rcount p b + count (mset (al_blocks a)) b < 2 ^ 32" for b
    using le_less_trans [OF add_mono [OF coreD(4) [OF c, of b] two [of b]]] by simp
  moreover have "0 < rcount p b" if "b \<in> set (al_blocks a)" for b
    using guarded_live [OF c handle_guarded [OF h]] that by simp
  ultimately show ?thesis using D(5) by (simp add: insert_ready_def)
qed


definition published :: "CacheManager \<Rightarrow> TokenId list \<Rightarrow> Allocation \<Rightarrow> BlockId list \<Rightarrow> nat \<Rightarrow> RadixTree \<Rightarrow> BlockPool \<Rightarrow> bool" where
  "published m toks a cs k t' p' \<longleftrightarrow> (let t = cm_tree m; bt = rt_block_tokens t; lb = insert_blocks t toks (al_blocks a) in
     hits (index t) bt (take (lb * bt) toks) cs \<and> (k = 0 \<or> k = lb - length cs)
     \<and> (0 < k \<longrightarrow> al_cached_blocks a \<le> length cs)
     \<and> index t' = insert_index (index t) bt toks (al_blocks a) (length cs) k
     \<and> rt_collisions t' = (if k = 0 \<and> length cs < lb then u64 (rt_collisions t + 1) else rt_collisions t)
     \<and> tree_blocks t' = tree_blocks t + mset (take k (drop (length cs) (al_blocks a)))
     \<and> (\<forall>b \<in># tree_blocks t'. content p' b = content (cm_pool m) b))"

lemma release_insert:
  fixes toks toks' :: "TokenId list"
  assumes c: "core (cm_tree m) (cm_pool m) (pins_of (add_mset (a, toks) hs)) (owned (add_mset (a, toks) hs))"
    and ok: "handle_ok (cm_tree m) (cm_pool m) (a, toks)" and ag: "agrees (al_cached_tokens a) toks' toks"
  shows "\<exists>k0 t p0 p k cs. tree_insert (cm_tree m) (cm_pool m) toks' (al_blocks a) = Inr (k0, t, p0)
     \<and> release_blocks (fresh_blocks a) p0 = Inr p \<and> core t p (pins_of hs + pin_of (al_pinned a)) (owned hs)
     \<and> published m toks' a cs k t p \<and> pool_rel (cm_pool m) p \<and> rt_root t = rt_root (cm_tree m)
     \<and> rt_block_tokens t = rt_block_tokens (cm_tree m) \<and> (\<forall>n. keeps (cm_tree m) t n)"
proof -
  note D = coreD [OF c]
  let ?lb = "insert_blocks (cm_tree m) toks' (al_blocks a)" and ?bt = "rt_block_tokens (cm_tree m)"
  have ready: "insert_ready (cm_tree m) (cm_pool m) (al_blocks a)" by (rule release_ready [OF c _ ok]) simp
  obtain k t p0 cs where i: "tree_insert (cm_tree m) (cm_pool m) toks' (al_blocks a) = Inr (k, t, p0)"
    "tree_inv t (pins_of (add_mset (a, toks) hs))" "sys_inv p0" "pool_rel (cm_pool m) p0" "\<forall>n. keeps (cm_tree m) t n"
    "rt_block_tokens t = ?bt" "rt_root t = rt_root (cm_tree m)" "hits (index (cm_tree m)) ?bt (take (?lb * ?bt) toks') cs"
    "k = 0 \<or> k = ?lb - length cs" "index t = insert_index (index (cm_tree m)) ?bt toks' (al_blocks a) (length cs) k"
    "rcount p0 = (\<lambda>b. rcount (cm_pool m) b + count (mset (take k (drop (length cs) (al_blocks a)))) b)"
    "tree_blocks t = tree_blocks (cm_tree m) + mset (take k (drop (length cs) (al_blocks a)))"
    "rt_collisions t = (if k = 0 \<and> length cs < ?lb then u64 (rt_collisions (cm_tree m) + 1) else rt_collisions (cm_tree m))"
    using tree_insert_result [OF D(2,1) ready, of toks'] by blast
  let ?ins = "mset (take k (drop (length cs) (al_blocks a)))"
  have ins: "?ins \<subseteq># mset (fresh_blocks a)" "0 < k \<Longrightarrow> al_cached_blocks a \<le> length cs"
    using inserted_fresh [OF D(5) ok ag insert_blocks_fit i(8,9)] by blast+
  have le: "count (mset (fresh_blocks a)) b \<le> rcount p0 b" for b using D(3) [of b] by (simp add: i(11))
  obtain p where p: "release_blocks (fresh_blocks a) p0 = Inr p" "sys_inv p" "pool_rel p0 p"
    "rcount p = (\<lambda>b. rcount p0 b - count (mset (fresh_blocks a)) b)" using release_blocks_ok [OF i(3) le] by blast
  have "rcount p b = count (tree_blocks t) b + count (owned hs) b" "rcount p b \<le> 1" for b
    using D(3,4) [of b] mset_subset_eq_count [OF ins(1), of b] by (simp_all add: i(11,12) p(4))
  then have c': "core t p (pins_of hs + pin_of (al_pinned a)) (owned hs)"
    unfolding core_def using p(2) i(2) by (simp add: add.commute)
  note r = pool_rel_trans [OF i(4) p(3)]
  have "\<forall>b \<in># tree_blocks t. content p b = content (cm_pool m) b" using pool_rel_live(2) [OF r tree_block_live [OF c']] by blast
  then have "published m toks' a cs k t p" unfolding published_def using i(8-10,12,13) ins(2) by (simp add: Let_def)
  then show ?thesis using i(1,5-7) p(1) c' r by blast
qed

lemma release_ok:
  fixes toks toks' :: "TokenId list"
  assumes inv: "cache_inv m (add_mset (a, toks) hs)" and ag: "agrees (al_cached_tokens a) toks' toks" and ok: "al_ok a"
  shows "\<exists>m' cs k. release m toks' a = Inr (disarm a, m') \<and> given_back m hs m'
     \<and> published m toks' a cs k (cm_tree m') (cm_pool m')
     \<and> request_counters (cm_stats m') = request_counters (cm_stats m) \<and> free0 (cm_pool m) \<le> free0 (cm_pool m')"
proof -
  have h: "handle_ok (cm_tree m) (cm_pool m) (a, toks)" using cache_invD(3) [OF inv] by simp
  obtain k0 t p0 p k cs where i: "tree_insert (cm_tree m) (cm_pool m) toks' (al_blocks a) = Inr (k0, t, p0)"
    "release_blocks (fresh_blocks a) p0 = Inr p" "core t p (pins_of hs + pin_of (al_pinned a)) (owned hs)" "published m toks' a cs k t p"
    "pool_rel (cm_pool m) p" "rt_root t = rt_root (cm_tree m)" "rt_block_tokens t = rt_block_tokens (cm_tree m)" "\<forall>n. keeps (cm_tree m) t n"
    using release_insert [OF cache_invD(1) [OF inv] h ag] by blast
  have s1: "shelter (pins_of hs) (owned hs) (cm_tree m) (cm_pool m) t p"
    using i(8) by (intro pool_rel_shelter [OF cache_invD(1) [OF inv] i(3,5,6,7)]) simp_all
  let ?m1 = "m\<lparr>cm_tree := t, cm_pool := p\<rparr>"
  have "core (cm_tree ?m1) (cm_pool ?m1) (pins_of hs + pin_of (al_pinned a)) (owned hs)" using i(3) by simp
  from unpin_ok [OF this, of "pins_of hs" "owned hs"] obtain t2 where t2: "unpin (al_pinned a) ?m1 = Inr (?m1\<lparr>cm_tree := t2\<rparr>)"
    "core t2 p (pins_of hs) (owned hs)" "frame (pins_of hs) (owned hs) t p t2 p" "index t2 = index t"
    "tree_blocks t2 = tree_blocks t" "rt_collisions t2 = rt_collisions t" by auto
  let ?m2 = "?m1\<lparr>cm_tree := t2\<rparr>"
  obtain p3 where p3: "drain_migrations (cm_pool ?m2) = Inr p3" "tends (pins_of hs) (owned hs) ?m2 (?m2\<lparr>cm_pool := p3\<rparr>)" "free0 p \<le> free0 p3"
    using drain_tends [of ?m2] t2(2) by auto
  obtain m' where m': "maintain (?m2\<lparr>cm_pool := p3\<rparr>) = Inr m'" "tends (pins_of hs) (owned hs) (?m2\<lparr>cm_pool := p3\<rparr>) m'"
    "cm_tree m' = cm_tree (?m2\<lparr>cm_pool := p3\<rparr>)" "free0 p3 \<le> free0 (cm_pool m')" using maintain_tends [OF tendsD(1) [OF p3(2)]] by auto
  note T = tendsD [OF tends_trans [OF p3(2) m'(2)]]
  have f: "frame (pins_of hs) (owned hs) t p (cm_tree m') (cm_pool m')" using frame_trans [OF t2(3)] T(2) by simp
  have s: "shelter (pins_of hs) (owned hs) (cm_tree m) (cm_pool m) (cm_tree m') (cm_pool m')"
    using shelter_trans [OF s1 frame_shelter [OF f]] .
  have "cache_inv m' hs" using cache_inv_give [OF inv T(1) s] T(3) by simp
  then have "given_back m hs m'" using s T(3,4) by (simp add: given_back_def)
  moreover have "release m toks' a = Inr (disarm a, m')"
    using ok i(1,2) t2(1) p3(1) m'(1) by (simp add: release_def drop_fresh_def fresh_blocks_def)
  moreover have "published m toks' a cs k (cm_tree m') (cm_pool m')"
    using i(4) m'(3) t2(4-6) frameD(6) [OF f] unfolding published_def by (simp add: Let_def)
  moreover have "free0 (cm_pool m) \<le> free0 p"
    using pool_rel_free [OF i(5), of 0] pool_invD(2) [OF sys_invD(1) [OF coreD(1) [OF cache_invD(1) [OF inv]]]] by (simp add: free0_def)
  then have "free0 (cm_pool m) \<le> free0 (cm_pool m')" using p3(3) m'(4) by linarith
  ultimately show ?thesis using T(5) by (auto simp: request_counters_def)
qed

end
