(* ===== verification/Cache_System.thy ===== *)
theory Cache_System
  imports Cache_Release
begin

section \<open>The cache manager: handles in use\<close>

text \<open>
  What the rest of the system does with a manager: moving handles, asking whether a block
  table is ready and waiting for it, writing the KV of fresh blocks, and the worker threads.
  \<open>kv\<close> is what the cache holds: the bytes of the block stored for each prefix.
\<close>

subsection \<open>Moves\<close>

lemma disarm_inert: "cache_inv m hs \<Longrightarrow> cache_inv m (add_mset (disarm a, toks) hs)"
  by (simp add: inert_handle disarm_def)

lemma move_eq: "Allocation_move a = (a, disarm a)"
  by (simp add: Allocation_move_def disarm_def)

lemma move_assign_ok:
  assumes inv: "cache_inv m (add_mset (this, toks) (add_mset (other, toks') hs))"
  shows "\<exists>m'. move_assign m this other = Inr (other, disarm other, m') \<and> given_back m (add_mset (other, toks') hs) m'
     \<and> Allocation_destroy m this = Inr m'"
proof -
  obtain m' where m': "Allocation_destroy m this = Inr m'" "given_back m (add_mset (other, toks') hs) m'" using destroy_ok [OF inv] by blast
  have "move_assign m this other = Inr (other, disarm other, m')"
  proof (cases "al_ok this \<and> al_owner this")
    case True
    then have "abandon m this = Inr (disarm this, m')" using m'(1) abandon_ok [OF inv] by (auto simp: Allocation_destroy_def)
    then show ?thesis using True by (simp add: move_assign_def disarm_def)
  next
    case False
    then show ?thesis using m'(1) by (auto simp: Allocation_destroy_def move_assign_def disarm_def)
  qed
  then show ?thesis using m' by blast
qed

subsection \<open>Readiness\<close>

lemma all_compute_ok:
  assumes sys: "sys_inv p"
  shows "\<forall>b \<in> set bs. 0 < rcount p b \<Longrightarrow> all_compute p bs = Inr (\<forall>b \<in> set bs. loc_tier (bp_location p ! b) = 0)"
  by (induction bs) (auto simp: block_tier_rcount [OF sys])

text \<open>All blocks of a handle are in compute memory and none is moving.\<close>

definition in_compute :: "BlockPool \<Rightarrow> Allocation \<Rightarrow> bool" where
  "in_compute p a \<longleftrightarrow> (\<forall>b \<in> set (al_blocks a). loc_tier (bp_location p ! b) = 0 \<and> \<not> migrating p b)"

lemma compute_settled:
  assumes sys: "sys_inv p" and b: "goal_tier p b = 0" "loc_tier (bp_location p ! b) = 0"
  shows "\<not> migrating p b"
proof
  assume mb: "migrating p b"
  then obtain j where j: "j \<in> set (bp_jobs p)" "job_id j = b" "\<not> job_cancelled j" using migrating_iff [OF sys_invD(5) [OF sys]] by blast
  then obtain k where k: "find (\<lambda>j. job_id j = b \<and> \<not> job_cancelled j) (bp_jobs p) = Some k" by (metis (mono_tags, lifting) find_None_iff option.exhaust)
  then have k': "k \<in> set (bp_jobs p)" "job_id k = b" "\<not> job_cancelled k" by (auto simp: find_Some_iff)
  have "goal_tier p b = job_dst_tier k" using k by (simp add: goal_tier_def bound_for_def)
  then show False using k' b sys_invD(1) [OF sys] by (auto simp: pool_inv_def flight_inv_def)
qed

lemma ready_ok:
  assumes inv: "cache_inv m hs" and h: "(a, toks) \<in># hs"
  shows "\<exists>r m'. ready m a = Inr (r, m') \<and> tends (pins_of hs) (owned hs) m m' \<and> cm_tree m' = cm_tree m
     \<and> view (cm_pool m') = view (cm_pool m) \<and> cm_stats m' = cm_stats m \<and> (r \<longleftrightarrow> in_compute (cm_pool m') a)
     \<and> (\<forall>b. migrating (cm_pool m') b \<longrightarrow> migrating (cm_pool m) b)"
proof (cases "al_ok a \<and> al_owner a")
  case True
  note c = cache_invD(1) [OF inv]
  obtain p where p: "drain_migrations (cm_pool m) = Inr p" "tends (pins_of hs) (owned hs) m (m\<lparr>cm_pool := p\<rparr>)" using drain_tends [OF c] by blast
  have v: "view p = view (cm_pool m)" using drain_status [OF coreD(1) [OF c]] p(1) by auto
  have sys: "sys_inv p" using coreD(1) [OF tendsD(1) [OF p(2)]] by simp
  have i': "cache_inv (m\<lparr>cm_pool := p\<rparr>) hs" by (rule cache_inv_tends [OF inv p(2)])
  have ok: "handle_ok (cm_tree m) p (a, toks)" using cache_invD(3) [OF i' h] by simp
  have live: "\<forall>b \<in> set (al_blocks a). 0 < rcount p b"
    using guarded_live [OF cache_invD(1) [OF i']] handle_guarded [OF h ok] by simp
  have r: "(\<forall>b \<in> set (al_blocks a). loc_tier (bp_location p ! b) = 0) \<longleftrightarrow> in_compute p a"
    using compute_settled [OF sys handle_okD(7) [OF ok]] unfolding in_compute_def by blast
  have "bp_jobs p = dropWhile job_done (bp_jobs (cm_pool m))" using drain_status [OF coreD(1) [OF c]] p(1) by auto
  then have "\<forall>b. migrating p b \<longrightarrow> migrating (cm_pool m) b"
    using migrating_iff [OF sys_invD(5) [OF sys]] migrating_iff [OF sys_invD(5) [OF coreD(1) [OF c]]] set_dropWhileD by metis
  then show ?thesis using True p v r by (simp add: ready_def all_compute_ok [OF sys live])
next
  case False
  have "handle_ok (cm_tree m) (cm_pool m) (a, toks)" using cache_invD(3) [OF inv h] .
  then have "al_blocks a = []" using handle_okD(1) False by blast
  then have "in_compute (cm_pool m) a" by (simp add: in_compute_def)
  then show ?thesis using False tends_refl [OF cache_invD(1) [OF inv]] by (auto simp: ready_def)
qed

lemma worker_steps_running:
  assumes "worker_steps p q" and "sys_inv p" and "running p"
  shows "running q"
  using assms
proof (induction rule: worker_steps.induct)
  case (ws_step p q i r)
  have "sys_inv q" using worker_steps_store [OF ws_step.hyps(1)] ws_step.prems by blast
  moreover have "i < length (bp_workers q)" using ws_step.hyps(2) by (auto simp: worker_step_def result_simps)
  ultimately show ?case using worker_step_work(1) ws_step by blast
qed

lemma wait_tends:
  assumes inv: "cache_inv m hs" and run: "running (cm_pool m)" and w: "wait_for_migrations (cm_pool m) p"
  shows "tends (pins_of hs) (owned hs) m (m\<lparr>cm_pool := p\<rparr>)" "running p" "view p = view (cm_pool m)"
    "(a, toks) \<in># hs \<Longrightarrow> in_compute p a"
proof -
  note c = cache_invD(1) [OF inv]
  note s = wait_status [OF coreD(1) [OF c] w]
  obtain q where q: "worker_steps (cm_pool m) q" "drain_migrations q = Inr p" using w by (auto elim: wait_for_migrations.cases)
  have qs: "sys_inv q" "worker_frame (cm_pool m) q" using worker_steps_store [OF q(1) coreD(1) [OF c]] by blast+
  show r: "running p" and v: "view p = view (cm_pool m)"
    using drain_status [OF qs(1)] q(2) worker_steps_running [OF q(1) coreD(1) [OF c] run] s(2) by auto
  have l: "length (bp_tiers p) = length (bp_tiers (cm_pool m))"
    using drain_status [OF qs(1)] q(2) qs(2) by (auto simp: worker_frame_def)
  show t: "tends (pins_of hs) (owned hs) m (m\<lparr>cm_pool := p\<rparr>)"
    by (rule tends_pool [OF c s(1,2) _ l]) (simp_all add: s(3) r run)
  assume h: "(a, toks) \<in># hs"
  have "handle_ok (cm_tree m) p (a, toks)" using cache_invD(3) [OF cache_inv_tends [OF inv t] h] by simp
  then show "in_compute p a"
    unfolding in_compute_def using handle_okD(7) s(4) goal_settled [OF sys_invD(5) [OF s(1)]] by metis
qed

text \<open>\<^verbatim>\<open>wait_ready()\<close> returns, and only when the whole table is in compute memory.\<close>

lemma wait_ready_ok:
  assumes "wait_ready m a m'" and "cache_inv m hs" and "(a, toks) \<in># hs" and "running (cm_pool m)"
  shows "tends (pins_of hs) (owned hs) m m' \<and> in_compute (cm_pool m') a \<and> cm_tree m' = cm_tree m
     \<and> view (cm_pool m') = view (cm_pool m) \<and> cm_stats m' = cm_stats m"
  using assms
proof (induction rule: wait_ready.induct)
  case (wr_ready m a m')
  then show ?case using ready_ok [OF wr_ready.prems(1,2)] by auto
next
  case (wr_wait m a m1 p m')
  have r: "tends (pins_of hs) (owned hs) m m1" "cm_tree m1 = cm_tree m" "view (cm_pool m1) = view (cm_pool m)" "cm_stats m1 = cm_stats m"
    using ready_ok [OF wr_wait.prems(1,2)] wr_wait.hyps(1) by auto
  have i1: "cache_inv m1 hs" "running (cm_pool m1)"
    using cache_inv_tends [OF wr_wait.prems(1) r(1)] wr_wait.prems(3) frameD(9) [OF tendsD(2) [OF r(1)]] by simp_all
  note w = wait_tends [OF i1 wr_wait.hyps(2)]
  have "cache_inv (m1\<lparr>cm_pool := p\<rparr>) hs" by (rule cache_inv_tends [OF i1(1) w(1)])
  then show ?case using wr_wait.IH wr_wait.prems(2) w(2,3) r tends_trans [OF r(1) tends_trans [OF w(1)]] by auto
qed

lemma wait_ready_returns:
  assumes inv: "cache_inv m hs" and h: "(a, toks) \<in># hs" and run: "running (cm_pool m)"
  shows "\<exists>m'. wait_ready m a m'"
proof -
  obtain r m1 where r: "ready m a = Inr (r, m1)" "tends (pins_of hs) (owned hs) m m1" using ready_ok [OF inv h] by blast
  show ?thesis
  proof (cases r)
    case True
    then have "ready m a = Inr (True, m1)" using r(1) by simp
    then show ?thesis using wr_ready by blast
  next
    case False
    have i1: "cache_inv m1 hs" "running (cm_pool m1)"
      using cache_inv_tends [OF inv r(2)] run frameD(9) [OF tendsD(2) [OF r(2)]] by simp_all
    obtain p where p: "wait_for_migrations (cm_pool m1) p"
      using wait_for_migrations_returns [OF coreD(1) [OF cache_invD(1) [OF i1(1)]] i1(2)] by blast
    note w = wait_tends [OF i1 p]
    let ?m = "m1\<lparr>cm_pool := p\<rparr>"
    have i2: "cache_inv ?m hs" by (rule cache_inv_tends [OF i1(1) w(1)])
    obtain r' m' where r': "ready ?m a = Inr (r', m')" "r' \<longleftrightarrow> in_compute (cm_pool m') a"
      "tends (pins_of hs) (owned hs) ?m m'" "\<forall>b. migrating (cm_pool m') b \<longrightarrow> migrating (cm_pool ?m) b" using ready_ok [OF i2 h] by blast
    have ok: "handle_ok (cm_tree m') (cm_pool m') (a, toks)" using cache_invD(3) [OF cache_inv_tends [OF i2 r'(3)] h] .
    have nm: "\<not> migrating (cm_pool m') b" for b
      using r'(4) wait_status(4) [OF coreD(1) [OF cache_invD(1) [OF i1(1)]] p] by simp
    have "in_compute (cm_pool m') a"
      unfolding in_compute_def using handle_okD(7) [OF ok] nm goal_settled [OF sys_invD(5) [OF coreD(1) [OF tendsD(1) [OF r'(3)]]] nm] by metis
    then have "ready ?m a = Inr (True, m')" using r'(1,2) by simp
    then have "wait_ready ?m a m'" by (rule wr_ready)
    moreover have "ready m a = Inr (False, m1)" using r(1) False by simp
    ultimately show ?thesis using wr_wait [OF _ p] by blast
  qed
qed


subsection \<open>The engine and the workers\<close>

lemma write_steady: "write_block p b bs = Inr p' \<Longrightarrow> steady p p' c \<and> length (bp_tiers p') = length (bp_tiers p) \<and> running p' = running p"
  by (auto simp: write_block_def result_simps steady_def bound_for_def running_def split: option.splits)

text \<open>The engine fills a block it was given fresh.\<close>

lemma write_ok:
  assumes inv: "cache_inv m hs" and h: "(a, toks) \<in># hs" and b: "b \<in> set (fresh_blocks a)" "\<not> migrating (cm_pool m) b"
    and len: "length bytes = block_bytes (bp_cfg (cm_pool m))"
  shows "\<exists>p'. write_block (cm_pool m) b bytes = Inr p' \<and> cache_inv (m\<lparr>cm_pool := p'\<rparr>) hs
     \<and> view p' = (view (cm_pool m))(b \<mapsto> (1, bytes)) \<and> running p' = running (cm_pool m)
     \<and> (\<forall>c \<in># tree_blocks (cm_tree m). content p' c = content (cm_pool m) c)"
proof -
  note c = cache_invD(1) [OF inv]
  have "b \<in># owned hs" using mset_subset_eqD [OF handle_part(2) [OF h]] b(1) by simp
  then have rc: "rcount (cm_pool m) b = 1" "count (tree_blocks (cm_tree m)) b = 0"
    using coreD(3,4) [OF c, of b] by (simp_all add: Suc_leI count_greater_zero_iff [symmetric] del: count_greater_zero_iff)
  then have l: "live (cm_pool m) b" by (simp add: live_rcount)
  obtain p where p: "write_block (cm_pool m) b bytes = Inr p" "sys_inv p" "view p = (view (cm_pool m))(b \<mapsto> (bp_refcount (cm_pool m) ! b, bytes))"
    using write_block_store [OF coreD(1) [OF c] l b(2) len] by blast
  have one: "bp_refcount (cm_pool m) ! b = 1" using rc(1) l by (simp add: rcount_def live_def)
  note st = write_steady [OF p(1)]
  have goal: "goal_tier p = goal_tier (cm_pool m)" using st steady_goal by blast
  have "rcount p = rcount (cm_pool m)" using p(3) rc(1) by (auto simp: rcount_view fun_eq_iff one)
  then have c': "core (cm_tree m) p (pins_of hs) (owned hs)" using c p(2) by (metis core_def)
  have "handle_ok (cm_tree m) p h" if "h \<in># hs" for h
    using cache_invD(3) [OF inv that] goal by (simp add: handle_ok_def)
  then have "cache_inv (m\<lparr>cm_pool := p\<rparr>) hs" using c' cache_invD(2) [OF inv] by (simp add: cache_inv_def)
  moreover have "content p d = content (cm_pool m) d" if d: "d \<in># tree_blocks (cm_tree m)" for d
  proof -
    have "d \<noteq> b" using d rc(2) by (metis not_in_iff)
    then show ?thesis using content_view [of p d "cm_pool m"] p(3) tree_block_live [OF c d] by simp
  qed
  ultimately show ?thesis using p(1,3) st one by auto
qed

lemma worker_ok:
  assumes inv: "cache_inv m hs" and run: "running (cm_pool m)" and i: "i < length (bp_workers (cm_pool m))"
  shows "\<exists>p'. worker_step i (cm_pool m) = Inr p' \<and> tends (pins_of hs) (owned hs) m (m\<lparr>cm_pool := p'\<rparr>)
     \<and> view p' = view (cm_pool m) \<and> running p'"
proof -
  note c = cache_invD(1) [OF inv]
  obtain p where p: "worker_step i (cm_pool m) = Inr p" "sys_inv p" "worker_frame (cm_pool m) p"
    using worker_step_ok [OF coreD(1) [OF c] i] by auto
  have r: "running p" by (rule worker_step_work(1) [OF coreD(1) [OF c] run i p(1)])
  have g: "goal_tier p b = goal_tier (cm_pool m) b" for b
    using worker_step_bound [OF p(1), of b] p(3) steady_goal [of "cm_pool m" p b] by (simp add: steady_def worker_frame_def)
  have "tends (pins_of hs) (owned hs) m (m\<lparr>cm_pool := p\<rparr>)"
    by (rule tends_pool [OF c p(2) worker_view [OF p(3)]]) (use p(3) g r run in \<open>simp_all add: worker_frame_def\<close>)
  then show ?thesis using p(1) worker_view [OF p(3)] r by blast
qed

subsection \<open>What the cache holds\<close>

definition kv :: "CacheManager \<Rightarrow> TokenId list \<rightharpoonup> byte list" where
  "kv m P = map_option (content (cm_pool m)) (index (cm_tree m) P)"

lemma kv_same:
  assumes wf: "tree_wf (cm_tree m)" and i: "index (cm_tree m') = index (cm_tree m)"
    and c: "\<And>b. b \<in># tree_blocks (cm_tree m) \<Longrightarrow> content (cm_pool m') b = content (cm_pool m) b"
  shows "kv m' = kv m"
proof
  fix P show "kv m' P = kv m P"
    using index_block [OF wf, of P] c by (cases "index (cm_tree m) P") (auto simp: kv_def i)
qed

lemma kv_view:
  assumes inv: "cache_inv m hs" and t: "cm_tree m' = cm_tree m" and v: "view (cm_pool m') = view (cm_pool m)"
  shows "kv m' = kv m"
proof (rule kv_same [OF coreD(5) [OF cache_invD(1) [OF inv]]])
  fix b assume "b \<in># tree_blocks (cm_tree m)"
  then show "content (cm_pool m') b = content (cm_pool m) b"
    using content_view [of "cm_pool m'" b "cm_pool m"] v tree_block_live [OF cache_invD(1) [OF inv]] by simp
qed (simp add: t)

lemma kv_frame:
  assumes c: "core (cm_tree m') (cm_pool m') pins X" and f: "frame pins' X' (cm_tree m) (cm_pool m) (cm_tree m') (cm_pool m')"
  shows "kv m' \<subseteq>\<^sub>m kv m"
  unfolding map_le_def
proof
  fix P assume "P \<in> dom (kv m')"
  then obtain b where b: "index (cm_tree m') P = Some b" by (auto simp: kv_def)
  then have "index (cm_tree m) P = Some b" using frameD(4) [OF f] by (metis domI map_le_def)
  then show "kv m' P = kv m P" using b frameD(6) [OF f index_block [OF coreD(5) [OF c] b]] by (simp add: kv_def)
qed

lemma insert_index_cases:
  fixes toks :: "TokenId list"
  assumes bt: "0 < bt" and fit: "(pre + k) * bt \<le> length toks" and ins: "insert_index idx bt toks bs pre k P = Some b"
  shows "idx P = Some b \<or> (\<exists>i. pre \<le> i \<and> i < pre + k \<and> (i + 1) * bt \<le> length toks \<and> P = take ((i + 1) * bt) toks \<and> b = bs ! i)"
proof (cases "\<exists>i. pre \<le> i \<and> i < pre + k \<and> P = take ((i + 1) * bt) toks")
  case True
  then obtain i where i: "pre \<le> i" "i < pre + k" "P = take ((i + 1) * bt) toks" by blast
  have le: "(i + 1) * bt \<le> length toks" using mult_le_mono1 [of "i + 1" "pre + k" bt] i(2) fit by simp
  then have "length P div bt - 1 = i" using i(3) bt by (simp only: length_take min_absorb2) simp
  moreover have "b = bs ! (length P div bt - 1)" using ins True by (simp add: insert_index_def)
  ultimately show ?thesis using i le by blast
next
  case False
  then have "idx P = Some b" using ins unfolding insert_index_def by (simp only: if_False)
  then show ?thesis ..
qed

text \<open>A release forgets nothing, and what it adds are the bytes of the handle's own fresh blocks.\<close>

definition kv_release :: "nat \<Rightarrow> TokenId list \<Rightarrow> (nat \<Rightarrow> byte list) \<Rightarrow> nat \<Rightarrow> nat \<Rightarrow> (TokenId list \<rightharpoonup> byte list) \<Rightarrow> (TokenId list \<rightharpoonup> byte list) \<Rightarrow> bool" where
  "kv_release bt toks bytes i0 i1 old new \<longleftrightarrow> old \<subseteq>\<^sub>m new
     \<and> (\<forall>P v. new P = Some v \<longrightarrow> old P = Some v
          \<or> (\<exists>i. i0 \<le> i \<and> i < i1 \<and> (i + 1) * bt \<le> length toks \<and> P = take ((i + 1) * bt) toks \<and> v = bytes i))"

lemma published_parts:
  assumes "published m toks a cs k t' p'"
  shows "hits (index (cm_tree m)) (rt_block_tokens (cm_tree m))
       (take (insert_blocks (cm_tree m) toks (al_blocks a) * rt_block_tokens (cm_tree m)) toks) cs"
    "k = 0 \<or> k = insert_blocks (cm_tree m) toks (al_blocks a) - length cs" "0 < k \<Longrightarrow> al_cached_blocks a \<le> length cs"
    "index t' = insert_index (index (cm_tree m)) (rt_block_tokens (cm_tree m)) toks (al_blocks a) (length cs) k"
    "b \<in># tree_blocks t' \<Longrightarrow> content p' b = content (cm_pool m) b"
  using assms unfolding published_def by (simp_all add: Let_def)

lemma kv_published:
  assumes inv: "cache_inv m hs" and wf: "tree_wf (cm_tree m')"
    and pub: "published m toks a cs k (cm_tree m') (cm_pool m')"
  shows "kv_release (cfg_block_tokens (cm_cfg m)) toks (\<lambda>i. content (cm_pool m) (al_blocks a ! i))
     (al_cached_blocks a) (length (al_blocks a)) (kv m) (kv m')"
proof -
  note bt = cache_invD(2,4) [OF inv] and P = published_parts [OF pub]
  let ?bt = "cfg_block_tokens (cm_cfg m)" and ?lb = "insert_blocks (cm_tree m) toks (al_blocks a)"
  have lb: "?lb * ?bt \<le> length toks" "?lb \<le> length (al_blocks a)"
    using insert_blocks_fit [of "cm_tree m" toks "al_blocks a"] bt(1) by (simp_all add: insert_blocks_def)
  have h: "hits (index (cm_tree m)) ?bt (take (?lb * ?bt) toks) cs" using P(1) bt(1) by simp
  have cs: "length cs \<le> ?lb" using h bt(2) by (auto simp: hits_def)
  then have k: "length cs + k \<le> ?lb" using P(2) by auto
  have fit: "(length cs + k) * ?bt \<le> length toks" using mult_le_mono1 [OF k, of ?bt] lb(1) by linarith
  have new: "index (cm_tree m) (take ((i + 1) * ?bt) toks) = None" if i: "length cs \<le> i" "i < length cs + k" for i
  proof (rule ccontr)
    have le: "(i + 1) * ?bt \<le> ?lb * ?bt" using i(2) k by (intro mult_le_mono1) simp
    then have "take ((i + 1) * ?bt) (take (?lb * ?bt) toks) = take ((i + 1) * ?bt) toks" by (simp add: min_absorb1)
    moreover have "(i + 1) * ?bt \<le> length (take (?lb * ?bt) toks)" using le lb(1) by simp
    moreover assume "index (cm_tree m) (take ((i + 1) * ?bt) toks) \<noteq> None"
    ultimately have "i < length cs" using h unfolding hits_def by (metis option.exhaust)
    then show False using i(1) by simp
  qed
  have ix: "index (cm_tree m') = insert_index (index (cm_tree m)) ?bt toks (al_blocks a) (length cs) k" using P(4) bt(1) by simp
  have old: "index (cm_tree m') P = Some b" if "index (cm_tree m) P = Some b" for P b
    using new that unfolding ix insert_index_def by (auto split: if_splits)
  have val: "content (cm_pool m') b = content (cm_pool m) b" if "index (cm_tree m') P = Some b" for P b
    using P(5) [OF index_block [OF wf that]] .
  have "kv m \<subseteq>\<^sub>m kv m'"
    unfolding map_le_def kv_def using old val by (auto split: option.splits) (metis option.simps(9))
  moreover have "kv m P = Some v \<or> (\<exists>i. al_cached_blocks a \<le> i \<and> i < length (al_blocks a) \<and> (i + 1) * ?bt \<le> length toks
      \<and> P = take ((i + 1) * ?bt) toks \<and> v = content (cm_pool m) (al_blocks a ! i))" if kv': "kv m' P = Some v" for P v
  proof -
    obtain b where b: "index (cm_tree m') P = Some b" "v = content (cm_pool m') b" using kv' by (auto simp: kv_def)
    from insert_index_cases [OF bt(2) fit b(1) [unfolded ix]] show ?thesis
    proof
      assume "index (cm_tree m) P = Some b"
      then show ?thesis using b(2) val [OF b(1)] by (simp add: kv_def)
    next
      assume "\<exists>i. length cs \<le> i \<and> i < length cs + k \<and> (i + 1) * ?bt \<le> length toks \<and> P = take ((i + 1) * ?bt) toks \<and> b = al_blocks a ! i"
      then obtain i where i: "length cs \<le> i" "i < length cs + k" "(i + 1) * ?bt \<le> length toks" "P = take ((i + 1) * ?bt) toks" "b = al_blocks a ! i"
        by blast
      have "al_cached_blocks a \<le> i" using P(3) i(1,2) by simp
      moreover have "i < length (al_blocks a)" using i(2) k lb(2) by simp
      ultimately show ?thesis using i(3-5) b(2) val [OF b(1)] by blast
    qed
  qed
  ultimately show ?thesis unfolding kv_release_def by blast
qed

end
