(* ===== verification/Cache_History.thy ===== *)
theory Cache_History
  imports Cache_System
begin

section \<open>The cache manager: histories\<close>

text \<open>
  \<open>cache_step\<close> is one event in the life of a manager: a call on it or on a handle, the
  engine filling a block, a step of a worker thread. \<open>cache_allowed\<close> is what the callers are
  held to, \<open>reachable_cache\<close> the states any sequence of allowed events can lead to, and
  \<open>kv_step\<close> the abstract cache that each event implements: a map from prefixes to bytes.
\<close>

subsection \<open>Events\<close>

datatype cache_op = Acquire "TokenId list" | Release handle "TokenId list" | Drop handle
  | Ready handle | WaitReady handle | Fill handle BlockId "byte list" | Work nat

inductive cache_step :: "cache_op \<Rightarrow> CacheManager \<Rightarrow> handle multiset \<Rightarrow> CacheManager \<Rightarrow> handle multiset \<Rightarrow> bool" where
  cs_acquire: "acquire m toks = Inr (a, m') \<Longrightarrow> cache_step (Acquire toks) m hs m' (add_mset (a, toks) hs)"
| cs_release: "release m toks' a = Inr (a', m') \<Longrightarrow> cache_step (Release (a, toks) toks') m (add_mset (a, toks) hs) m' hs"
| cs_drop: "Allocation_destroy m a = Inr m' \<Longrightarrow> cache_step (Drop (a, toks)) m (add_mset (a, toks) hs) m' hs"
| cs_ready: "(a, toks) \<in># hs \<Longrightarrow> ready m a = Inr (r, m') \<Longrightarrow> cache_step (Ready (a, toks)) m hs m' hs"
| cs_wait: "(a, toks) \<in># hs \<Longrightarrow> wait_ready m a m' \<Longrightarrow> cache_step (WaitReady (a, toks)) m hs m' hs"
| cs_fill: "write_block (cm_pool m) b bytes = Inr p \<Longrightarrow> cache_step (Fill (a, toks) b bytes) m hs (m\<lparr>cm_pool := p\<rparr>) hs"
| cs_work: "worker_step i (cm_pool m) = Inr p \<Longrightarrow> cache_step (Work i) m hs (m\<lparr>cm_pool := p\<rparr>) hs"

inductive_cases cache_step_cases:
  "cache_step (Acquire toks) m hs m' hs'" "cache_step (Release h toks') m hs m' hs'" "cache_step (Drop h) m hs m' hs'"
  "cache_step (Ready h) m hs m' hs'" "cache_step (WaitReady h) m hs m' hs'" "cache_step (Fill h b bytes) m hs m' hs'"
  "cache_step (Work i) m hs m' hs'"

text \<open>What the callers are held to.\<close>

fun cache_allowed :: "CacheManager \<Rightarrow> handle multiset \<Rightarrow> cache_op \<Rightarrow> bool" where
  "cache_allowed m hs (Acquire toks) \<longleftrightarrow> length toks + cfg_block_tokens (cm_cfg m) < 2 ^ 64 \<and> size hs + 1 < 2 ^ 32"
| "cache_allowed m hs (Release h toks') \<longleftrightarrow> h \<in># hs \<and> agrees (al_cached_tokens (fst h)) toks' (snd h)"
| "cache_allowed m hs (Drop h) \<longleftrightarrow> h \<in># hs"
| "cache_allowed m hs (Ready h) \<longleftrightarrow> h \<in># hs"
| "cache_allowed m hs (WaitReady h) \<longleftrightarrow> h \<in># hs"
| "cache_allowed m hs (Fill h b bytes) \<longleftrightarrow> h \<in># hs \<and> b \<in> set (fresh_blocks (fst h)) \<and> \<not> migrating (cm_pool m) b
     \<and> length bytes = block_bytes (bp_cfg (cm_pool m))"
| "cache_allowed m hs (Work i) \<longleftrightarrow> i < length (bp_workers (cm_pool m))"

text \<open>
  The abstract cache: a map from prefixes to bytes that may forget entries when a request
  makes room, gains the released handle's own blocks, and is otherwise unchanged.
\<close>

fun kv_step :: "cache_op \<Rightarrow> CacheManager \<Rightarrow> (TokenId list \<rightharpoonup> byte list) \<Rightarrow> (TokenId list \<rightharpoonup> byte list) \<Rightarrow> bool" where
  "kv_step (Acquire toks) m old new \<longleftrightarrow> new \<subseteq>\<^sub>m old"
| "kv_step (Release h toks') m old new \<longleftrightarrow> kv_release (cfg_block_tokens (cm_cfg m)) toks'
     (\<lambda>i. content (cm_pool m) (al_blocks (fst h) ! i)) (al_cached_blocks (fst h)) (length (al_blocks (fst h))) old new"
| "kv_step _ m old new \<longleftrightarrow> new = old"

inductive reachable_cache :: "nat \<Rightarrow> memory \<Rightarrow> TierSpec list \<Rightarrow> CacheConfig \<Rightarrow> Options \<Rightarrow> CacheManager \<Rightarrow> handle multiset \<Rightarrow> bool"
  for hw mem specs c opts where
  rc_init: "CacheManager_tiered hw mem specs c opts = Inr m \<Longrightarrow> reachable_cache hw mem specs c opts m {#}"
| rc_step: "reachable_cache hw mem specs c opts m hs \<Longrightarrow> cache_allowed m hs oper \<Longrightarrow> cache_step oper m hs m' hs' \<Longrightarrow>
     reachable_cache hw mem specs c opts m' hs'"

definition cache_ok :: "CacheManager \<Rightarrow> handle multiset \<Rightarrow> bool" where
  "cache_ok m hs \<longleftrightarrow> cache_inv m hs \<and> running (cm_pool m)"

lemma size_pins: "size (pins_of hs) \<le> size hs"
  by (induction hs) (auto simp: pin_of_def split: option.split)

lemma tends_ok: "cache_ok m hs \<Longrightarrow> tends (pins_of hs) (owned hs) m m' \<Longrightarrow> cache_ok m' hs"
  using cache_inv_tends frameD(9) [OF tendsD(2)] unfolding cache_ok_def by blast

lemma given_ok: "cache_ok m hs' \<Longrightarrow> given_back m hs m' \<Longrightarrow> cache_ok m' hs"
  using shelterD(6) unfolding cache_ok_def given_back_def by blast

text \<open>The events of one handle or of none, one at a time.\<close>

definition step_ok :: "cache_op \<Rightarrow> CacheManager \<Rightarrow> handle multiset \<Rightarrow> CacheManager \<Rightarrow> handle multiset \<Rightarrow> bool" where
  "step_ok oper m hs m' hs' \<longleftrightarrow> cache_ok m' hs' \<and> kv_step oper m (kv m) (kv m')
     \<and> cm_cfg m' = cm_cfg m \<and> cm_options m' = cm_options m"

lemma step_acquire:
  assumes ok: "cache_ok m hs" and al: "cache_allowed m hs (Acquire toks)"
  shows "\<exists>a m'. acquire m toks = Inr (a, m') \<and> acquired m hs toks a m' \<and> step_ok (Acquire toks) m hs m' (add_mset (a, toks) hs)"
proof -
  have inv: "cache_inv m hs" using ok by (simp add: cache_ok_def)
  obtain a m' where a: "acquire m toks = Inr (a, m')" "acquired m hs toks a m'"
    using acquire_ok [OF inv, of toks] al size_pins [of hs] by auto
  have i: "cache_inv m' (add_mset (a, toks) hs)" and f: "frame (pins_of hs) (owned hs) (cm_tree m) (cm_pool m) (cm_tree m') (cm_pool m')"
    and s: "cm_cfg m' = cm_cfg m" "cm_options m' = cm_options m" using a(2) by (simp_all add: acquired_def)
  have "cache_ok m' (add_mset (a, toks) hs)" using i frameD(9) [OF f] ok by (simp add: cache_ok_def)
  then have "step_ok (Acquire toks) m hs m' (add_mset (a, toks) hs)"
    using kv_frame [OF cache_invD(1) [OF i] f] s by (simp add: step_ok_def)
  then show ?thesis using a by blast
qed

lemma step_release:
  assumes ok: "cache_ok m (add_mset (a, toks) hs)" and ag: "agrees (al_cached_tokens a) toks' toks"
  shows "\<exists>a' m'. release m toks' a = Inr (a', m') \<and> given_back m hs m'
     \<and> step_ok (Release (a, toks) toks') m (add_mset (a, toks) hs) m' hs"
proof -
  have inv: "cache_inv m (add_mset (a, toks) hs)" using ok by (simp add: cache_ok_def)
  show ?thesis
  proof (cases "al_ok a")
    case False
    have i: "cache_inv m hs" using unarmed(1) [OF inv] False by blast
    then have "given_back m hs m" using frame_shelter [OF frame_refl] by (simp add: given_back_def)
    moreover have "step_ok (Release (a, toks) toks') m (add_mset (a, toks) hs) m hs"
      using i ok by (simp add: step_ok_def cache_ok_def kv_release_def)
    ultimately show ?thesis using False by (auto simp: release_def)
  next
    case True
    obtain m' cs k where r: "release m toks' a = Inr (disarm a, m')" "given_back m hs m'" "published m toks' a cs k (cm_tree m') (cm_pool m')"
      using release_ok [OF inv ag True] by blast
    have ok': "cache_ok m' hs" by (rule given_ok [OF ok r(2)])
    have "tree_wf (cm_tree m')" using ok' coreD(5) cache_invD(1) unfolding cache_ok_def by blast
    then have "step_ok (Release (a, toks) toks') m (add_mset (a, toks) hs) m' hs"
      using kv_published [OF inv _ r(3)] ok' r(2) by (simp add: step_ok_def given_back_def)
    then show ?thesis using r(1,2) by blast
  qed
qed

lemma step_drop:
  assumes ok: "cache_ok m (add_mset (a, toks) hs)"
  shows "\<exists>m'. Allocation_destroy m a = Inr m' \<and> given_back m hs m' \<and> step_ok (Drop (a, toks)) m (add_mset (a, toks) hs) m' hs"
proof -
  have inv: "cache_inv m (add_mset (a, toks) hs)" using ok by (simp add: cache_ok_def)
  obtain m' where d: "Allocation_destroy m a = Inr m'" "given_back m hs m'"
    "frame (pins_of hs) (owned hs) (cm_tree m) (cm_pool m) (cm_tree m') (cm_pool m')" "index (cm_tree m') = index (cm_tree m)"
    using destroy_ok [OF inv] by blast
  have ok': "cache_ok m' hs" by (rule given_ok [OF ok d(2)])
  have wf: "tree_wf (cm_tree m)" "tree_wf (cm_tree m')" using ok ok' coreD(5) cache_invD(1) unfolding cache_ok_def by blast+
  have "kv m' = kv m"
  proof
    fix P show "kv m' P = kv m P"
      using frameD(6) [OF d(3) index_block [OF wf(2), of P]] by (cases "index (cm_tree m') P") (simp_all add: kv_def d(4) [symmetric])
  qed
  then show ?thesis using d(1,2) ok' by (simp add: step_ok_def given_back_def)
qed

lemma step_ready:
  assumes ok: "cache_ok m hs" and h: "(a, toks) \<in># hs"
  shows "\<exists>r m'. ready m a = Inr (r, m') \<and> step_ok (Ready (a, toks)) m hs m' hs"
    "wait_ready m a m' \<Longrightarrow> step_ok (WaitReady (a, toks)) m hs m' hs" "\<exists>m'. wait_ready m a m'"
proof -
  have inv: "cache_inv m hs" "running (cm_pool m)" using ok by (simp_all add: cache_ok_def)
  have step: "step_ok oper m hs m' hs" if "tends (pins_of hs) (owned hs) m m'" "cm_tree m' = cm_tree m" "view (cm_pool m') = view (cm_pool m)"
    "kv_step oper m (kv m) (kv m)" for m' oper
    using tends_ok [OF ok that(1)] kv_view [OF inv(1) that(2,3)] that(4) tendsD(3,4) [OF that(1)] by (simp add: step_ok_def)
  show "\<exists>r m'. ready m a = Inr (r, m') \<and> step_ok (Ready (a, toks)) m hs m' hs" using ready_ok [OF inv(1) h] step by fastforce
  show "wait_ready m a m' \<Longrightarrow> step_ok (WaitReady (a, toks)) m hs m' hs" using wait_ready_ok [OF _ inv(1) h inv(2)] step by simp
  show "\<exists>m'. wait_ready m a m'" by (rule wait_ready_returns [OF inv(1) h inv(2)])
qed

lemma step_fill:
  assumes ok: "cache_ok m hs" and al: "cache_allowed m hs (Fill (a, toks) b bytes)"
  shows "\<exists>p. write_block (cm_pool m) b bytes = Inr p \<and> step_ok (Fill (a, toks) b bytes) m hs (m\<lparr>cm_pool := p\<rparr>) hs"
proof -
  have inv: "cache_inv m hs" using ok by (simp add: cache_ok_def)
  obtain p where p: "write_block (cm_pool m) b bytes = Inr p" "cache_inv (m\<lparr>cm_pool := p\<rparr>) hs" "running p = running (cm_pool m)"
    "\<forall>c \<in># tree_blocks (cm_tree m). content p c = content (cm_pool m) c"
    using write_ok [OF inv, of a toks b bytes] al by auto
  have "kv (m\<lparr>cm_pool := p\<rparr>) = kv m" by (rule kv_same [OF coreD(5) [OF cache_invD(1) [OF inv]]]) (use p(4) in simp_all)
  then show ?thesis using p(1-3) ok by (simp add: step_ok_def cache_ok_def)
qed

lemma step_work:
  assumes ok: "cache_ok m hs" and i: "i < length (bp_workers (cm_pool m))"
  shows "\<exists>p. worker_step i (cm_pool m) = Inr p \<and> step_ok (Work i) m hs (m\<lparr>cm_pool := p\<rparr>) hs"
proof -
  have inv: "cache_inv m hs" "running (cm_pool m)" using ok by (simp_all add: cache_ok_def)
  obtain p where p: "worker_step i (cm_pool m) = Inr p" "tends (pins_of hs) (owned hs) m (m\<lparr>cm_pool := p\<rparr>)" "view p = view (cm_pool m)"
    using worker_ok [OF inv i] by blast
  have "kv (m\<lparr>cm_pool := p\<rparr>) = kv m" by (rule kv_view [OF inv(1)]) (simp_all add: p(3))
  then show ?thesis using p(1) tends_ok [OF ok p(2)] by (simp add: step_ok_def)
qed


lemma cache_progress:
  assumes ok: "cache_ok m hs" and al: "cache_allowed m hs oper"
  shows "\<exists>m' hs'. cache_step oper m hs m' hs'"
proof (cases oper)
  case (Acquire toks)
  obtain a m' where "acquire m toks = Inr (a, m')" using step_acquire [OF ok, of toks] al unfolding Acquire by blast
  then show ?thesis using cs_acquire unfolding Acquire by blast
next
  case (Release h toks')
  obtain a toks where h: "h = (a, toks)" by (cases h)
  have "hs = add_mset (a, toks) (hs - {#(a, toks)#})" using al by (simp add: Release h)
  then obtain hs0 where hs: "hs = add_mset (a, toks) hs0" by blast
  obtain a' m' where "release m toks' a = Inr (a', m')" using step_release [OF ok [unfolded hs], of toks'] al unfolding Release h by auto
  then show ?thesis using cs_release unfolding hs Release h by blast
next
  case (Drop h)
  obtain a toks where h: "h = (a, toks)" by (cases h)
  have "hs = add_mset (a, toks) (hs - {#(a, toks)#})" using al by (simp add: Drop h)
  then obtain hs0 where hs: "hs = add_mset (a, toks) hs0" by blast
  obtain m' where "Allocation_destroy m a = Inr m'" using step_drop [OF ok [unfolded hs]] by blast
  then show ?thesis using cs_drop unfolding hs Drop h by blast
next
  case (Ready h)
  obtain a toks where h: "h = (a, toks)" by (cases h)
  have in_hs: "(a, toks) \<in># hs" using al by (simp add: Ready h)
  obtain r m' where "ready m a = Inr (r, m')" using step_ready(1) [OF ok in_hs] by blast
  then show ?thesis using cs_ready [OF in_hs] unfolding Ready h by blast
next
  case (WaitReady h)
  obtain a toks where h: "h = (a, toks)" by (cases h)
  have in_hs: "(a, toks) \<in># hs" using al by (simp add: WaitReady h)
  then show ?thesis using step_ready(3) [OF ok in_hs] cs_wait [OF in_hs] unfolding WaitReady h by blast
next
  case (Fill h b bytes)
  obtain a toks where h: "h = (a, toks)" by (cases h)
  obtain p where "write_block (cm_pool m) b bytes = Inr p" using step_fill [OF ok, of a toks b bytes] al unfolding Fill h by blast
  then show ?thesis using cs_fill unfolding Fill h by blast
next
  case (Work i)
  obtain p where "worker_step i (cm_pool m) = Inr p" using step_work [OF ok, of i] al unfolding Work by auto
  then show ?thesis using cs_work unfolding Work by blast
qed

lemma cache_step_ok:
  assumes ok: "cache_ok m hs" and al: "cache_allowed m hs oper" and step: "cache_step oper m hs m' hs'"
  shows "step_ok oper m hs m' hs'"
  using step
proof cases
  case (cs_acquire toks a)
  then show ?thesis using step_acquire [OF ok, of toks] al by auto
next
  case (cs_release toks' a a' toks)
  then show ?thesis using step_release [of m a toks hs' toks'] ok al by auto
next
  case (cs_drop a toks)
  then show ?thesis using step_drop [of m a toks hs'] ok by auto
next
  case (cs_ready a toks r)
  then show ?thesis using step_ready(1) [OF ok, of a toks] by auto
next
  case (cs_wait a toks)
  then show ?thesis using step_ready(2) [OF ok, of a toks] by auto
next
  case (cs_fill b bytes p a toks)
  then show ?thesis using step_fill [OF ok, of a toks b bytes] al by auto
next
  case (cs_work i p)
  then show ?thesis using step_work [OF ok, of i] al by auto
qed

lemma cache_init:
  assumes specs: "specs_ok mem c specs" and new: "CacheManager_tiered hw mem specs c opts = Inr m"
  shows "cache_ok m {#}" "kv m = Map.empty" "tree_blocks (cm_tree m) = {#}" "cm_cfg m = c" "cm_options m = opts" "cm_stats m = Stats_new"
proof -
  obtain p t where pt: "BlockPool_tiered hw mem specs c = Inr p" "RadixTree_new (cfg_block_tokens c) = Inr t"
    "m = \<lparr>cm_cfg = c, cm_pool = p, cm_tree = t, cm_stats = Stats_new, cm_options = opts, cm_victims = []\<rparr>"
    using new by (auto simp: CacheManager_tiered_def CacheManager_on_def result_simps)
  have p: "sys_inv p" "view p = Map.empty" using sys_inv_init [OF specs pt(1)] .
  have t: "tree_inv t {#}" "tree_blocks t = {#}" using tree_inv_new [OF pt(2)] by auto
  have "rcount p b = 0" for b by (simp add: rcount_view p(2))
  then have c: "core t p {#} {#}" using p(1) t by (simp add: core_def)
  obtain q where "pool_init hw mem c specs = Inr q" "bp_workers q = []" "\<not> bp_stopping q" using pool_init_ok [OF specs, of hw] by metis
  then have "running p" using pt(1) by (simp add: BlockPool_tiered_def running_def)
  moreover have "rt_block_tokens t = cfg_block_tokens c" using pt(2) by (auto simp: RadixTree_new_def result_simps)
  ultimately show "cache_ok m {#}" using c by (simp add: cache_ok_def cache_inv_def pt(3))
  have "index t P = None" for P using index_block [OF tree_invD(1) [OF t(1)], of P] t(2) by (cases "index t P") auto
  then show "kv m = Map.empty" by (simp add: kv_def pt(3) fun_eq_iff)
  show "tree_blocks (cm_tree m) = {#}" "cm_cfg m = c" "cm_options m = opts" "cm_stats m = Stats_new" by (simp_all add: pt(3) t(2))
qed

lemma reachable_cache_ok:
  assumes "reachable_cache hw mem specs c opts m hs" and "specs_ok mem c specs"
  shows "cache_ok m hs \<and> cm_cfg m = c \<and> cm_options m = opts"
  using assms
proof (induction rule: reachable_cache.induct)
  case (rc_init m)
  then show ?case using cache_init [OF rc_init(2,1)] by simp
next
  case (rc_step m hs oper m' hs')
  then show ?case using cache_step_ok [of m hs oper m' hs'] by (simp add: step_ok_def)
qed

lemma reachable_cacheD:
  assumes "reachable_cache hw mem specs c opts m hs" and "specs_ok mem c specs"
  shows "cache_ok m hs" "cache_inv m hs" "running (cm_pool m)" "core (cm_tree m) (cm_pool m) (pins_of hs) (owned hs)"
    "cm_cfg m = c" "cm_options m = opts"
  using reachable_cache_ok [OF assms] cache_invD(1) by (auto simp: cache_ok_def)

end
