(* ===== verification/Pool_Shutdown.thy ===== *)
theory Pool_Shutdown
  imports Pool_Store
begin

section \<open>Shutdown\<close>

text \<open>
  The destructor of a pool. Told to stop, a worker finishes the job it has claimed, claims no
  other and leaves its loop; \<open>exit_work\<close> bounds the steps that takes, so that every schedule ends
  with all workers joined.
\<close>

subsection \<open>What is left to do\<close>

fun exit_steps :: "nat \<Rightarrow> worker \<Rightarrow> nat" where
  "exit_steps n Exited = 0"
| "exit_steps n Waiting = 1"
| "exit_steps n (Finishing q) = 2"
| "exit_steps n (Copying q k) = n - k + 3"
| "exit_steps n (Claimed q) = n + 4"

definition exit_work :: "BlockPool \<Rightarrow> nat" where
  "exit_work p = sum_list (map (exit_steps (block_bytes (bp_cfg p))) (bp_workers p))"

lemma exit_work_update:
  assumes i: "i < length (bp_workers p)" and ws: "bp_workers p' = (bp_workers p)[i := w]" "bp_cfg p' = bp_cfg p"
    and less: "exit_steps (block_bytes (bp_cfg p)) w < exit_steps (block_bytes (bp_cfg p)) (bp_workers p ! i)"
  shows "exit_work p' < exit_work p"
  using sum_list_update_nat [OF i, of "exit_steps (block_bytes (bp_cfg p))" w] less by (simp add: exit_work_def ws)

lemma exit_step:
  assumes sys: "sys_inv p" and stop: "bp_stopping p" and i: "i < length (bp_workers p)" and step: "worker_step i p = Inr p'"
  shows "bp_next_unclaimed p' = bp_next_unclaimed p"
    and "if bp_workers p ! i = Exited then p' = p else exit_work p' < exit_work p"
proof -
  have "bp_next_unclaimed p' = bp_next_unclaimed p \<and> (if bp_workers p ! i = Exited then p' = p else exit_work p' < exit_work p)"
  proof (cases "bp_workers p ! i")
    case Waiting
    then have "p' = set_worker i Exited p" using step step_waiting [OF sys i] stop by simp
    then show ?thesis using Waiting exit_work_update [OF i, of "set_worker i Exited p" Exited] by simp
  next
    case (Claimed q)
    obtain j where "j \<in> set (bp_jobs p)" "job_ptr j = q"
      and s: "worker_step i p = Inr (set_worker i (if job_cancelled j then Finishing q else Copying q 0) p)"
      by (rule step_claimed [OF sys i Claimed])
    let ?w = "if job_cancelled j then Finishing q else Copying q 0"
    show ?thesis using s step exit_work_update [OF i, of "set_worker i ?w p" ?w] by (auto simp: Claimed)
  next
    case (Copying q k)
    obtain j x where "j \<in> set (bp_jobs p)" "job_ptr j = q" and s: "worker_step i p = Inr (if k < block_bytes (bp_cfg p)
        then set_worker i (Copying q (Suc k)) (p\<lparr>bp_mem := stored (bp_mem p) (addr_plus (job_dst j) k) [x]\<rparr>)
        else set_worker i (Finishing q) p)" by (rule step_copying [OF sys i Copying])
    let ?q = "set_worker i (Copying q (Suc k)) (p\<lparr>bp_mem := stored (bp_mem p) (addr_plus (job_dst j) k) [x]\<rparr>)"
    show ?thesis
      using s step exit_work_update [OF i, of ?q "Copying q (Suc k)"] exit_work_update [OF i, of "set_worker i (Finishing q) p" "Finishing q"]
      by (auto simp: Copying split: if_splits)
  next
    case (Finishing q)
    then show ?thesis using step step_finishing [OF sys i] exit_work_update [OF i, of "finished i q p" Waiting] by auto
  next
    case Exited
    then show ?thesis using step step_exited [OF i] by simp
  qed
  then show "bp_next_unclaimed p' = bp_next_unclaimed p"
    and "if bp_workers p ! i = Exited then p' = p else exit_work p' < exit_work p" by blast+
qed

subsection \<open>Joining\<close>

lemma shutdown_simps [simp]:
  "bp_stopping (begin_shutdown p)" "bp_workers (begin_shutdown p) = bp_workers p" "bp_jobs (begin_shutdown p) = bp_jobs p"
  "bp_next_unclaimed (begin_shutdown p) = bp_next_unclaimed p" "bp_mem (begin_shutdown p) = bp_mem p" "bp_cfg (begin_shutdown p) = bp_cfg p"
  "bp_tiers (begin_shutdown p) = bp_tiers p" "bp_location (begin_shutdown p) = bp_location p" "bp_refcount (begin_shutdown p) = bp_refcount p"
  "live (begin_shutdown p) b = live p b"
  by (simp_all add: begin_shutdown_def live_def)

lemma view_shutdown [simp]: "view (begin_shutdown p) = view p"
  by (rule ext) (simp add: view_def content_def slot_addr_def)

lemma sys_inv_shutdown:
  assumes sys: "sys_inv p"
  shows "sys_inv (begin_shutdown p)"
proof (rule sys_invI)
  note D = sys_invD [OF sys]
  show "pool_inv (begin_shutdown p)" using D(1) by (simp add: pool_inv_defs tier_slots_def begin_shutdown_def live_def)
  show "mem_inv (begin_shutdown p)" by (rule mem_inv_frame [OF D(2)]) simp_all
  show "workers_inv (begin_shutdown p)" by (rule workers_inv_same [OF D(3)]) simp_all
  show "copy_inv (begin_shutdown p)" by (rule copy_inv_frame [OF D(4,1)]) simp_all
qed

lemma shutdown_steps:
  assumes "worker_steps p q" and "sys_inv p" and "bp_stopping p"
  shows "sys_inv q \<and> worker_frame p q \<and> bp_stopping q \<and> bp_next_unclaimed q = bp_next_unclaimed p"
  using assms
proof (induction rule: worker_steps.induct)
  case (ws_step p q i r)
  note IH = ws_step.IH [OF ws_step.prems]
  have "i < length (bp_workers q)" using ws_step.hyps(2) by (auto simp: worker_step_def result_simps)
  then show ?case
    using IH exit_step(1) [of q i r] ws_step.hyps worker_steps_store [OF worker_steps.ws_step [OF ws_step.hyps] ws_step.prems(1)]
    by (auto simp: worker_frame_def)
qed simp

lemma workers_join:
  assumes "sys_inv p" and "bp_stopping p"
  shows "\<exists>q. worker_steps p q \<and> (\<forall>w \<in> set (bp_workers q). w = Exited)"
  using assms
proof (induction "exit_work p" arbitrary: p rule: less_induct)
  case less
  show ?case
  proof (cases "\<forall>w \<in> set (bp_workers p). w = Exited")
    case True
    then show ?thesis using ws_refl by blast
  next
    case False
    then obtain i where i: "i < length (bp_workers p)" "bp_workers p ! i \<noteq> Exited" by (metis in_set_conv_nth)
    obtain p' where p': "worker_step i p = Inr p'" "sys_inv p'" "worker_frame p p'" using worker_step_ok [OF less.prems(1) i(1)] by blast
    obtain q where "worker_steps p' q" "\<forall>w \<in> set (bp_workers q). w = Exited"
      using less.hyps [of p'] exit_step(2) [OF less.prems i(1) p'(1)] i(2) p'(2,3) less.prems(2) by (auto simp: worker_frame_def)
    then show ?thesis using worker_steps_first [OF p'(1)] by blast
  qed
qed

text \<open>When every worker has left, no claimed job is unfinished: no copy was torn.\<close>

lemma exited_done:
  assumes sys: "sys_inv p" and ex: "\<forall>w \<in> set (bp_workers p). w = Exited" and n: "n < bp_next_unclaimed p" "n < length (bp_jobs p)"
  shows "job_done (bp_jobs p ! n)"
proof (rule ccontr)
  assume "\<not> job_done (bp_jobs p ! n)"
  then obtain i where "i < length (bp_workers p)" "held (bp_workers p ! i) = Some (job_ptr (bp_jobs p ! n))"
    using sys_invD(3) [OF sys] n unfolding workers_inv_def by blast
  then show False using ex by (metis held.simps(5) nth_mem option.distinct(1))
qed

theorem BlockPool_destroy_ok:
  assumes sys: "sys_inv p"
  shows "\<exists>p'. BlockPool_destroy owned p p'"
    and "BlockPool_destroy owned p p' \<Longrightarrow> \<exists>q. p' = q\<lparr>bp_mem := drop_owned owned (bp_mem q)\<rparr> \<and> sys_inv q \<and> worker_frame (begin_shutdown p) q
       \<and> (\<forall>w \<in> set (bp_workers q). w = Exited) \<and> (\<forall>n < bp_next_unclaimed p. n < length (bp_jobs p) \<longrightarrow> job_done (bp_jobs q ! n))"
proof -
  note S = sys_inv_shutdown [OF sys]
  show "\<exists>p'. BlockPool_destroy owned p p'" using workers_join [OF S] bd_joined by fastforce
  assume "BlockPool_destroy owned p p'"
  then show "\<exists>q. p' = q\<lparr>bp_mem := drop_owned owned (bp_mem q)\<rparr> \<and> sys_inv q \<and> worker_frame (begin_shutdown p) q
       \<and> (\<forall>w \<in> set (bp_workers q). w = Exited) \<and> (\<forall>n < bp_next_unclaimed p. n < length (bp_jobs p) \<longrightarrow> job_done (bp_jobs q ! n))"
  proof cases
    case (bd_joined q)
    note Q = shutdown_steps [OF bd_joined(2) S]
    then have "map job_ptr (bp_jobs q) = map job_ptr (bp_jobs p)" by (simp add: worker_frame_def)
    from arg_cong [OF this, of length] have "length (bp_jobs q) = length (bp_jobs p)" by simp
    then have "\<forall>n < bp_next_unclaimed p. n < length (bp_jobs p) \<longrightarrow> job_done (bp_jobs q ! n)"
      using exited_done [OF _ bd_joined(3)] Q by simp
    then show ?thesis using bd_joined Q by auto
  qed
qed

end
