(* ===== verification/Pool_Theorems.thy ===== *)
theory Pool_Theorems
  imports Pool_Shutdown Pool_Status
begin

section \<open>What the pool guarantees\<close>

text \<open>
  The theorems about tiers, keys and the pool, each for every state a pool can reach, and
  small concrete instances that show their hypotheses can be met. The instance is a pool of
  two 4096-byte tiers with two blocks of four bytes each.
\<close>

subsection \<open>A small pool\<close>

definition demo_cfg :: CacheConfig where
  "demo_cfg = \<lparr>cfg_num_blocks = 2, cfg_block_tokens = 2, cfg_num_layers = 1, cfg_num_kv_heads = 1,
               cfg_head_dim = 1, cfg_dtype_bytes = 1\<rparr>"

definition demo_mem :: memory where
  "demo_mem = replicate 2 \<lparr>ht_arena = Some (replicate 4096 0), ht_capacity = 4096\<rparr>"

definition demo_specs :: "TierSpec list" where
  "demo_specs = [\<lparr>spec_tier = Some 0, spec_num_blocks = 2\<rparr>, \<lparr>spec_tier = Some 1, spec_num_blocks = 2\<rparr>]"

lemma demo_block_bytes: "block_bytes demo_cfg = 4"
  by (simp add: block_bytes_def bytes_per_token_def demo_cfg_def u64_def)

lemma demo_specs_ok: "specs_ok demo_mem demo_cfg demo_specs"
  by (simp add: specs_ok_def demo_specs_def demo_mem_def demo_block_bytes tier_ok_def nth_Cons')

lemma demo_pool:
  obtains p where "BlockPool_tiered 1 demo_mem demo_specs demo_cfg = Inr p"
    and "reachable_pool 1 demo_mem demo_cfg demo_specs p" and "sys_inv p" and "view p = Map.empty"
    and "ts_free (bp_tiers p ! 0) = [1, 0]" and "length (bp_tiers p) = 2" and "running p"
proof -
  obtain p where p: "pool_init 1 demo_mem demo_cfg demo_specs = Inr p" "bp_tiers p = map tier_of_spec demo_specs"
    "bp_workers p = []" "\<not> bp_stopping p"
    using pool_init_ok [OF demo_specs_ok, of 1] by metis
  then have init: "BlockPool_tiered 1 demo_mem demo_specs demo_cfg = Inr p" by (simp add: BlockPool_tiered_def)
  show thesis
    by (rule that [OF init rp_init [OF init] sys_inv_init [OF demo_specs_ok init]])
      (simp_all add: p demo_specs_def tier_of_spec_def numeral_2_eq_2 u32_def running_def)
qed

text \<open>The same pool with one block allocated.\<close>

lemma demo_pool_one:
  obtains p b where "reachable_pool 1 demo_mem demo_cfg demo_specs p" and "sys_inv p"
    and "live p b" and "loc_tier (bp_location p ! b) = 0" and "length (bp_tiers p) = 2"
    and "bp_refcount p ! b = 1" and "running p"
proof -
  obtain p where p: "reachable_pool 1 demo_mem demo_cfg demo_specs p" "sys_inv p" "view p = Map.empty"
    "ts_free (bp_tiers p ! 0) = [1, 0]" "length (bp_tiers p) = 2" "running p"
    using demo_pool by metis
  obtain b p' where a: "allocate p = Inr (b, p')" "sys_inv p'" "view p' = (view p)(b \<mapsto> (1, content p' b))"
    "loc_tier (bp_location p' ! b) = 0" "bp_tiers p' = pop_free (bp_tiers p) 0"
    using allocate_store [OF p(2)] p(4) by auto
  have "bp_workers p' = bp_workers p" "bp_stopping p' = bp_stopping p"
    using a(1) by (auto simp: allocate_def result_simps Let_def split: if_splits)
  then have run: "running p'" using p(6) by (simp add: running_def)
  have "view p' b = Some (1, content p' b)" using a(3) by simp
  then have live: "live p' b" "bp_refcount p' ! b = 1" by (auto simp: view_def split: if_splits)
  have "reachable_pool 1 demo_mem demo_cfg demo_specs p'"
    by (rule rp_step [OF p(1), of Alloc]) (simp_all add: a(1))
  then show thesis using that [OF _ a(2) live(1) a(4) _ live(2) run] a(5) p(5) by simp
qed

subsection \<open>The pool implements a reference-counted store\<close>

text \<open>C2. In every state a pool can reach, every operation a caller may perform, and every
  step of a worker thread, succeeds and acts on the allocated blocks (their reference
  counts and their bytes) exactly as the abstract store does; in particular migrations in
  either form, draining, cancelling and worker steps change no block.\<close>

theorem pool_refines_store:
  assumes "specs_ok m c specs" and "reachable_pool hw m c specs p" and "op_allowed p oper"
  shows "\<exists>p'. pool_exec oper p = Inr p' \<and> store_step oper (view p) (view p')"
  using pool_exec_refines [OF reachable_sys_inv [OF assms(2,1)] assms(3)] by blast

theorem pool_refines_store_witness:
  "\<exists>p p'. reachable_pool 1 demo_mem demo_cfg demo_specs p \<and> pool_exec Alloc p = Inr p'
     \<and> store_step Alloc (view p) (view p')"
proof -
  obtain p where p: "reachable_pool 1 demo_mem demo_cfg demo_specs p" using demo_pool by metis
  show ?thesis using pool_refines_store [OF demo_specs_ok p, of Alloc] p by auto
qed

text \<open>C22. Two different allocated blocks never share a byte: the pointers the pool hands
  out for them delimit disjoint ranges inside their tiers.\<close>

theorem blocks_never_alias:
  assumes "specs_ok m c specs" and "reachable_pool hw m c specs p"
    and "live p b" and "live p b'" and "b \<noteq> b'"
  shows "\<exists>a a'. block_data p b = Inr (Some a) \<and> block_data p b' = Inr (Some a')
     \<and> valid_range (bp_mem p) a (block_bytes (bp_cfg p)) \<and> valid_range (bp_mem p) a' (block_bytes (bp_cfg p))
     \<and> \<not> overlap a (block_bytes (bp_cfg p)) a' (block_bytes (bp_cfg p))"
proof -
  note D = sys_invD [OF reachable_sys_inv [OF assms(2,1)]]
  have "(loc_tier (bp_location p ! b), loc_slot (bp_location p ! b)) \<noteq> (loc_tier (bp_location p ! b'), loc_slot (bp_location p ! b'))"
    using live_locations_distinct [OF D(1) assms(3-5)] by auto
  from slot_addr_disjoint [OF D(2) pool_invD(3) [OF D(1) assms(3)] pool_invD(3) [OF D(1) assms(4)] this]
  show ?thesis
    using block_data_ok [OF D(1,2)] live_addr_valid(1) [OF D(1,2)] assms(3,4) by (simp add: loc_addr_def)
qed

theorem blocks_never_alias_witness:
  "\<exists>p b b' a a'. live p b \<and> live p b' \<and> b \<noteq> b' \<and> block_data p b = Inr (Some a) \<and> block_data p b' = Inr (Some a')
     \<and> \<not> overlap a (block_bytes (bp_cfg p)) a' (block_bytes (bp_cfg p))"
proof -
  obtain p where p: "reachable_pool 1 demo_mem demo_cfg demo_specs p" "sys_inv p" "view p = Map.empty"
    "ts_free (bp_tiers p ! 0) = [1, 0]" "length (bp_tiers p) = 2" using demo_pool by metis
  obtain b p1 where a: "allocate p = Inr (b, p1)" "sys_inv p1" "view p1 = (view p)(b \<mapsto> (1, content p1 b))"
    "bp_tiers p1 = pop_free (bp_tiers p) 0" using allocate_store [OF p(2)] p(4) by auto
  have "ts_free (bp_tiers p1 ! 0) \<noteq> []" using a(4) p(4,5) ts_free_pop_free [of 0 "bp_tiers p" 0] by simp
  then obtain b' p2 where a': "allocate p1 = Inr (b', p2)" "view p1 b' = None" "view p2 = (view p1)(b' \<mapsto> (1, content p2 b'))"
    using allocate_store [OF a(2)] by auto
  have r1: "reachable_pool 1 demo_mem demo_cfg demo_specs p1" by (rule rp_step [OF p(1), of Alloc]) (simp_all add: a(1))
  have r2: "reachable_pool 1 demo_mem demo_cfg demo_specs p2" by (rule rp_step [OF r1, of Alloc]) (simp_all add: a'(1))
  have ne: "b \<noteq> b'" using a(3) a'(2) by auto
  have "view p2 b' \<noteq> None" "view p2 b \<noteq> None" using a'(3) a(3) ne by auto
  then have "live p2 b" "live p2 b'" by (auto simp: view_def split: if_splits)
  with blocks_never_alias [OF demo_specs_ok r2 _ _ ne] ne show ?thesis by blast
qed


text \<open>C23. Slots are conserved: in every reachable state the free slots of a tier, the slots
  of the blocks that live in it and the slots reserved by queued copies are together
  exactly the tier's slots, each once. No slot is lost, freed twice or given to two
  owners.\<close>

theorem slots_conserved:
  assumes "specs_ok m c specs" and "reachable_pool hw m c specs p" and "t < num_tiers p"
  shows "mset (ts_free (bp_tiers p ! t)) + live_slots (bp_refcount p) (bp_location p) t
           + job_slots (bp_jobs p) t = mset [0..<ts_num_blocks (bp_tiers p ! t)]"
  using pool_invD(4) [OF sys_invD(1) [OF reachable_sys_inv [OF assms(2,1)]], of t] assms(3)
  by (simp add: tier_slots_def num_tiers_def)

theorem slots_conserved_witness:
  "\<exists>p. reachable_pool 1 demo_mem demo_cfg demo_specs p \<and> num_tiers p = 2 \<and>
     mset (ts_free (bp_tiers p ! 0)) + live_slots (bp_refcount p) (bp_location p) 0
       + job_slots (bp_jobs p) 0 = mset [0..<ts_num_blocks (bp_tiers p ! 0)]"
proof -
  obtain p b where p: "reachable_pool 1 demo_mem demo_cfg demo_specs p" "length (bp_tiers p) = 2"
    using demo_pool_one by metis
  show ?thesis using slots_conserved [OF demo_specs_ok p(1), of 0] p by (auto simp: num_tiers_def)
qed

text \<open>A worker's step never fails, never leaves an arena and never changes the bytes,
  the location or the reference count of an allocated block, wherever in its copy the worker
  is and whatever the scheduler has cancelled or freed meanwhile.\<close>

theorem worker_never_disturbs:
  assumes "specs_ok m c specs" and "reachable_pool hw m c specs p" and "i < length (bp_workers p)"
  shows "\<exists>p'. worker_step i p = Inr p' \<and> view p' = view p \<and> bp_location p' = bp_location p"
proof -
  obtain p' where "worker_step i p = Inr p'" "worker_frame p p'"
    using worker_step_ok [OF reachable_sys_inv [OF assms(2,1)] assms(3)] by blast
  then show ?thesis using worker_view by (auto simp: worker_frame_def)
qed

lemma pool_init_fields:
  "pool_init hw m c specs = Inr p \<Longrightarrow> bp_hw p = hw \<and> bp_migrating p = [] \<and> bp_workers p = [] \<and> bp_jobs p = []"
  by (auto simp: pool_init_def result_simps split: if_splits)

lemma demo_pool_movable:
  obtains p b where "reachable_pool 1 demo_mem demo_cfg demo_specs p" and "live p b" and "loc_tier (bp_location p ! b) = 0"
    and "\<not> migrating p b" and "ts_free (bp_tiers p ! 1) \<noteq> []" and "length (bp_tiers p) = 2" and "sys_inv p" and "running p"
    and "bp_workers p = []" and "bp_jobs p = []" and "bp_hw p = 1"
proof -
  obtain p where p: "reachable_pool 1 demo_mem demo_cfg demo_specs p" "sys_inv p" "view p = Map.empty"
    "ts_free (bp_tiers p ! 0) = [1, 0]" "length (bp_tiers p) = 2" "running p"
    "BlockPool_tiered 1 demo_mem demo_specs demo_cfg = Inr p"
    using demo_pool by metis
  have pi: "pool_init 1 demo_mem demo_cfg demo_specs = Inr p" using p(7) by (simp add: BlockPool_tiered_def)
  obtain p0 where "pool_init 1 demo_mem demo_cfg demo_specs = Inr p0" "bp_tiers p0 = map tier_of_spec demo_specs"
    using pool_init_ok [OF demo_specs_ok, of 1] by metis
  then have init: "bp_tiers p = map tier_of_spec demo_specs" "bp_jobs p = []" "bp_workers p = []" "bp_hw p = 1" "bp_migrating p = []"
    using pi pool_init_fields [OF pi] by simp_all
  obtain b p1 where a: "allocate p = Inr (b, p1)" "sys_inv p1" "view p1 = (view p)(b \<mapsto> (1, content p1 b))"
    "loc_tier (bp_location p1 ! b) = 0" "bp_jobs p1 = bp_jobs p" "bp_tiers p1 = pop_free (bp_tiers p) 0"
    using allocate_store [OF p(2)] p(4) by auto
  have frame: "bp_workers p1 = bp_workers p" "bp_stopping p1 = bp_stopping p" "bp_hw p1 = bp_hw p" "bp_migrating p1 = bp_migrating p"
    using a(1) by (auto simp: allocate_def result_simps Let_def split: if_splits)
  have "view p1 b \<noteq> None" using a(3) by simp
  then have live: "live p1 b" by (simp add: view_def split: if_splits)
  have "ts_free (bp_tiers p1 ! 1) \<noteq> []"
    using a(6) init(1) p(5) ts_free_pop_free [of 0 "bp_tiers p" 1] by (simp add: demo_specs_def tier_of_spec_def numeral_2_eq_2)
  moreover have "reachable_pool 1 demo_mem demo_cfg demo_specs p1" by (rule rp_step [OF p(1), of Alloc]) (simp_all add: a(1))
  ultimately show thesis
    using live a(2,4,5,6) p(5,6) frame init by (intro that [of p1 b]) (simp_all add: migrating_def running_def)
qed

lemma demo_pool_queued:
  obtains p b where "reachable_pool 1 demo_mem demo_cfg demo_specs p" and "sys_inv p" and "live p b"
    and "length (bp_workers p) = 1" and "bp_jobs p \<noteq> []" and "running p" and "migrating p b"
    and "length (bp_tiers p) = 2"
proof -
  obtain p b where p: "reachable_pool 1 demo_mem demo_cfg demo_specs p" "live p b" "loc_tier (bp_location p ! b) = 0"
    "\<not> migrating p b" "ts_free (bp_tiers p ! 1) \<noteq> []" "length (bp_tiers p) = 2" "sys_inv p" "running p"
    "bp_workers p = []" "bp_jobs p = []" "bp_hw p = 1" by (rule demo_pool_movable)
  obtain p2 where q: "migrate_async p b 1 = Inr (True, p2)" "sys_inv p2" "migrating p2 b" "running p2" "length (bp_tiers p2) = 2"
    using migrate_async_status [OF p(7,2), of 1] p(3-6,8) by auto
  have p2: "p2 = queued_pool p b 1" using migrate_async_True(4) [OF sys_invD(1) [OF p(7)] q(1)] .
  have "reachable_pool 1 demo_mem demo_cfg demo_specs p2"
    by (rule rp_step [OF p(1), of "MigrateAsync b 1"]) (simp_all add: q(1) [simplified] p(2,6) num_tiers_def)
  then show thesis by (rule that [OF _ q(2)]) (use p2 p q in \<open>simp_all\<close>)
qed

theorem worker_never_disturbs_witness:
  "\<exists>p p'. reachable_pool 1 demo_mem demo_cfg demo_specs p \<and> bp_jobs p \<noteq> [] \<and> worker_step 0 p = Inr p'
     \<and> view p' = view p"
proof -
  obtain p where p: "reachable_pool 1 demo_mem demo_cfg demo_specs p" "length (bp_workers p) = 1" "bp_jobs p \<noteq> []"
    using demo_pool_queued by metis
  show ?thesis using worker_never_disturbs [OF demo_specs_ok p(1), of 0] p by auto
qed

text \<open>C25. \<^verbatim>\<open>wait_for_migrations()\<close> can return from every reachable state whose workers have not
  been told to stop, and whenever it returns no copy is left in flight, nothing is marked as
  migrating and no block has changed.\<close>

theorem wait_for_migrations_correct:
  assumes "specs_ok m c specs" and "reachable_pool hw m c specs p" and "running p"
  shows "(\<exists>r. wait_for_migrations p r)
     \<and> (\<forall>r. wait_for_migrations p r \<longrightarrow> bp_jobs r = [] \<and> view r = view p \<and> (\<forall>b. \<not> migrating r b))"
  using wait_for_migrations_store [OF reachable_sys_inv [OF assms(2,1)]]
    wait_for_migrations_returns [OF reachable_sys_inv [OF assms(2,1)] assms(3)] by blast

theorem wait_for_migrations_correct_witness:
  "\<exists>p r. reachable_pool 1 demo_mem demo_cfg demo_specs p \<and> bp_jobs p \<noteq> [] \<and> wait_for_migrations p r \<and> bp_jobs r = []"
proof -
  obtain p where p: "reachable_pool 1 demo_mem demo_cfg demo_specs p" "running p" "bp_jobs p \<noteq> []"
    using demo_pool_queued by metis
  show ?thesis using wait_for_migrations_correct [OF demo_specs_ok p(1,2)] p by blast
qed

text \<open>C26. The workers terminate: while they run, a worker's step either finds nothing to do and
  changes nothing or strictly decreases \<open>work\<close>, and as long as some queued job is
  unfinished some worker has a step that decreases it.\<close>

theorem workers_terminate:
  assumes "specs_ok m c specs" and "reachable_pool hw m c specs p" and "running p"
  shows "(\<forall>i p'. i < length (bp_workers p) \<longrightarrow> worker_step i p = Inr p' \<longrightarrow> p' = p \<or> work p' < work p)
     \<and> ((\<exists>j \<in> set (bp_jobs p). \<not> job_done j) \<longrightarrow>
          (\<exists>i p'. i < length (bp_workers p) \<and> worker_step i p = Inr p' \<and> work p' < work p))"
proof (intro conjI allI impI)
  have sys: "sys_inv p" by (rule reachable_sys_inv [OF assms(2,1)])
  show "p' = p \<or> work p' < work p" if "i < length (bp_workers p)" "worker_step i p = Inr p'" for i p'
    using worker_step_work(3) [OF sys assms(3) that] .
  assume "\<exists>j \<in> set (bp_jobs p). \<not> job_done j"
  then obtain i where i: "i < length (bp_workers p)" "held (bp_workers p ! i) \<noteq> None \<or> bp_next_unclaimed p < length (bp_jobs p)"
    using worker_enabled [OF sys] by blast
  obtain p' where p': "worker_step i p = Inr p'" using worker_step_ok [OF sys i(1)] by blast
  with i worker_step_work(2) [OF sys assms(3) i(1) p' i(2)]
  show "\<exists>i p'. i < length (bp_workers p) \<and> worker_step i p = Inr p' \<and> work p' < work p" by blast
qed

theorem workers_terminate_witness:
  "\<exists>p. reachable_pool 1 demo_mem demo_cfg demo_specs p \<and> running p \<and> bp_jobs p \<noteq> []
     \<and> ((\<exists>j \<in> set (bp_jobs p). \<not> job_done j) \<longrightarrow>
          (\<exists>i p'. i < length (bp_workers p) \<and> worker_step i p = Inr p' \<and> work p' < work p))"
proof -
  obtain p where p: "reachable_pool 1 demo_mem demo_cfg demo_specs p" "running p" "bp_jobs p \<noteq> []"
    using demo_pool_queued by metis
  show ?thesis using workers_terminate [OF demo_specs_ok p(1,2)] p by blast
qed

text \<open>C24. The destructor of a pool always returns. Once it has told the workers to stop, in any
  interleaving of their steps every step leaves every allocated block as it was and, unless it is
  that of a worker which has already left, strictly decreases \<open>exit_work\<close>. When the destructor returns every
  worker has left its loop, every job a worker had claimed is finished, and a pool that does not own its tier
  leaves the bytes of every allocated block in the tiers that outlive it.\<close>

theorem destructor_joins:
  assumes "specs_ok m c specs" and "reachable_pool hw m c specs p"
  shows "(\<exists>p'. BlockPool_destroy own p p')
     \<and> (\<forall>q i r. worker_steps (begin_shutdown p) q \<longrightarrow> worker_step i q = Inr r \<longrightarrow>
          view r = view p \<and> (if bp_workers q ! i = Exited then r = q else exit_work r < exit_work q))
     \<and> (\<forall>p'. BlockPool_destroy own p p' \<longrightarrow> (\<forall>w \<in> set (bp_workers p'). w = Exited)
          \<and> (\<forall>n < bp_next_unclaimed p. n < length (bp_jobs p) \<longrightarrow> job_done (bp_jobs p' ! n))
          \<and> (own = None \<longrightarrow> view p' = view p))"
proof (intro conjI allI impI)
  have sys: "sys_inv p" by (rule reachable_sys_inv [OF assms(2,1)])
  note S = sys_inv_shutdown [OF sys]
  show "\<exists>p'. BlockPool_destroy own p p'" by (rule BlockPool_destroy_ok(1) [OF sys])
  show "view r = view p" and "if bp_workers q ! i = Exited then r = q else exit_work r < exit_work q"
    if q: "worker_steps (begin_shutdown p) q" and r: "worker_step i q = Inr r" for q i r
  proof -
    have i: "i < length (bp_workers q)" using r by (auto simp: worker_step_def result_simps)
    show "view r = view p" using worker_steps_store [OF ws_step [OF q r] S] worker_view by auto
    show "if bp_workers q ! i = Exited then r = q else exit_work r < exit_work q"
      using exit_step(2) [OF _ _ i r] shutdown_steps [OF q S] by simp
  qed
  fix p' assume "BlockPool_destroy own p p'"
  then obtain q where q: "p' = q\<lparr>bp_mem := drop_owned own (bp_mem q)\<rparr>" "worker_frame (begin_shutdown p) q"
    "\<forall>w \<in> set (bp_workers q). w = Exited" "\<forall>n < bp_next_unclaimed p. n < length (bp_jobs p) \<longrightarrow> job_done (bp_jobs q ! n)"
    using BlockPool_destroy_ok(2) [OF sys] by blast
  show "\<forall>w \<in> set (bp_workers p'). w = Exited" using q by simp
  show "job_done (bp_jobs p' ! n)" if "n < bp_next_unclaimed p" "n < length (bp_jobs p)" for n using q that by simp
  show "view p' = view p" if "own = None" using q worker_view [OF q(2)] that by (simp add: drop_owned_def)
qed

theorem destructor_joins_witness:
  "\<exists>p p'. reachable_pool 1 demo_mem demo_cfg demo_specs p \<and> bp_jobs p \<noteq> [] \<and> length (bp_workers p) = 1
     \<and> BlockPool_destroy None p p' \<and> (\<forall>w \<in> set (bp_workers p'). w = Exited) \<and> view p' = view p"
proof -
  obtain p where p: "reachable_pool 1 demo_mem demo_cfg demo_specs p" "length (bp_workers p) = 1" "bp_jobs p \<noteq> []"
    using demo_pool_queued by metis
  show ?thesis using destructor_joins [OF demo_specs_ok p(1), of None] p by blast
qed

subsection \<open>Moving blocks\<close>

text \<open>C27. A synchronous migration of an allocated block to an existing tier always returns;
  it reports success exactly when the block is already there or the tier has a free slot,
  success puts the block in that tier, and in every case every block keeps its reference
  count and its bytes and no copy of the migrated block is left in flight.\<close>

theorem migrate_correct:
  assumes "specs_ok m c specs" and "reachable_pool hw m c specs p" and "live p b" and "dst < num_tiers p"
  shows "\<exists>r p'. migrate p b dst = Inr (r, p') \<and> view p' = view p \<and> \<not> migrating p' b
     \<and> (r \<longleftrightarrow> loc_tier (bp_location p ! b) = dst \<or> ts_free (bp_tiers p ! dst) \<noteq> [])
     \<and> (r \<longrightarrow> block_tier p' b = Inr dst)"
proof -
  have sys: "sys_inv p" by (rule reachable_sys_inv [OF assms(2,1)])
  obtain r p' where r: "migrate p b dst = Inr (r, p')" "sys_inv p'" "view p' = view p"
    "r \<longleftrightarrow> loc_tier (bp_location p ! b) = dst \<or> ts_free (bp_tiers p ! dst) \<noteq> []"
    using migrate_store [OF sys assms(3) assms(4) [unfolded num_tiers_def]] by blast
  note M = pool_inv_migrate [OF sys_invD(1) [OF sys] r(1)]
  have "r \<Longrightarrow> block_tier p' b = Inr dst" using block_tier_live [OF M(1)] M(3) M(4) assms(3) by simp
  with r M(6) show ?thesis by auto
qed

theorem migrate_correct_witness:
  "\<exists>p b p'. reachable_pool 1 demo_mem demo_cfg demo_specs p \<and> live p b \<and> loc_tier (bp_location p ! b) = 0
     \<and> migrate p b 1 = Inr (True, p') \<and> block_tier p' b = Inr 1 \<and> view p' = view p"
proof -
  obtain p b where p: "reachable_pool 1 demo_mem demo_cfg demo_specs p" "live p b" "loc_tier (bp_location p ! b) = 0"
    "\<not> migrating p b" "ts_free (bp_tiers p ! 1) \<noteq> []" "length (bp_tiers p) = 2" by (rule demo_pool_movable)
  have "1 < num_tiers p" using p(6) by (simp add: num_tiers_def)
  from migrate_correct [OF demo_specs_ok p(1,2) this] p show ?thesis by auto
qed



subsection \<open>Allocation, release and errors\<close>

text \<open>C29. \<^verbatim>\<open>allocate()\<close> hands out a block exactly when the compute tier has a free slot: a block
  that was not allocated, with one reference, resident in the compute tier; otherwise it returns
  \<^verbatim>\<open>kInvalidBlock\<close> and changes nothing. The identifiers never run out first.\<close>

theorem allocate_correct:
  assumes "specs_ok m c specs" and "reachable_pool hw m c specs p"
  shows "if ts_free (bp_tiers p ! 0) = [] then allocate p = Inr (kInvalidBlock, p)
     else \<exists>b p'. allocate p = Inr (b, p') \<and> b \<noteq> kInvalidBlock \<and> \<not> live p b \<and> refcount p' b = Inr 1
            \<and> block_tier p' b = Inr 0 \<and> (\<forall>b'. b' \<noteq> b \<longrightarrow> view p' b' = view p b')"
proof (cases "ts_free (bp_tiers p ! 0) = []")
  case True
  then show ?thesis using allocate_full [OF sys_invD(1) [OF reachable_sys_inv [OF assms(2,1)]]] by simp
next
  case False
  obtain b p' where a: "allocate p = Inr (b, p')" "sys_inv p'" "view p b = None" "b \<noteq> kInvalidBlock"
    "view p' = (view p)(b \<mapsto> (1, content p' b))" "loc_tier (bp_location p' ! b) = 0"
    using allocate_store [OF reachable_sys_inv [OF assms(2,1)] False] by blast
  note inv = sys_invD(1) [OF a(2)]
  have "view p' b = Some (1, content p' b)" using a(5) by simp
  then have l: "live p' b" "bp_refcount p' ! b = 1" by (auto simp: view_def split: if_splits)
  then have "refcount p' b = Inr 1" using refcount_live [OF inv, of b] by (simp add: live_def)
  moreover have "block_tier p' b = Inr 0" using block_tier_live [OF inv l(1)] a(6) by simp
  moreover have "\<not> live p b" using a(3) by (simp add: view_def split: if_splits)
  ultimately show ?thesis using a False by auto
qed

theorem allocate_correct_witness:
  "\<exists>p b p'. reachable_pool 1 demo_mem demo_cfg demo_specs p \<and> allocate p = Inr (b, p') \<and> b \<noteq> kInvalidBlock
     \<and> refcount p' b = Inr 1"
proof -
  obtain p where p: "reachable_pool 1 demo_mem demo_cfg demo_specs p" "ts_free (bp_tiers p ! 0) = [1, 0]"
    using demo_pool by metis
  show ?thesis using allocate_correct [OF demo_specs_ok p(1)] p by auto
qed

lemma live_block_calls:
  assumes sys: "sys_inv p" and b: "live p b"
  shows "\<exists>p'. incref p b = Inr p'" "\<exists>d p'. decref p b = Inr (d, p')" "\<exists>a. block_data p b = Inr (Some a)"
    "\<exists>n. block_offset p b = Inr n" "\<exists>t. block_tier p b = Inr t" "\<exists>r. refcount p b = Inr r \<and> 0 < r"
    "num_tiers p \<le> t \<Longrightarrow> migrate p b t = Inl (Fatal ''migrate to an out-of-range tier'' b)"
    "num_tiers p \<le> t \<Longrightarrow> migrate_async p b t = Inl (Fatal ''async migrate to an out-of-range tier'' b)"
    "t < num_tiers p \<Longrightarrow> \<exists>r p'. migrate p b t = Inr (r, p')" "t < num_tiers p \<Longrightarrow> \<exists>r p'. migrate_async p b t = Inr (r, p')"
    "\<exists>p'. cancel_migration p b = Inr p'" "migrating p b \<Longrightarrow> \<exists>u. migration_target p b = Inr u"
    "\<not> migrating p b \<Longrightarrow> migration_target p b = Inl (Fatal ''migration_target of a block not migrating'' b)"
proof -
  note D = sys_invD [OF sys]
  have l: "locate p b = Inr (bp_location p ! b)" by (rule locate_live [OF D(1) b])
  have len: "b < length (bp_location p)" "b < length (bp_refcount p)" "0 < bp_refcount p ! b"
    using b pool_invD(1) [OF D(1)] by (simp_all add: live_def)
  obtain q where q: "cancel_migration p b = Inr q" "sys_inv q" "view q = view p" using cancel_migration_ok [OF sys, of b] by blast
  have "view q b \<noteq> None" using q(3) b by (simp add: view_def)
  then have "live q b" by (simp add: view_def split: if_splits)
  then have lq: "locate q b = Inr (bp_location q ! b)" by (rule locate_live [OF sys_invD(1) [OF q(2)]])
  have "length (bp_tiers q) = length (bp_tiers p)" using q(1) cancel_migration_eq [OF D(5), of b] by auto
  then show "num_tiers p \<le> t \<Longrightarrow> migrate p b t = Inl (Fatal ''migrate to an out-of-range tier'' b)"
    using q(1) lq by (simp add: migrate_def num_tiers_def)
  show "num_tiers p \<le> t \<Longrightarrow> migrate_async p b t = Inl (Fatal ''async migrate to an out-of-range tier'' b)"
    using l by (simp add: migrate_async_def num_tiers_def)
  show "\<exists>r p'. migrate p b t = Inr (r, p')" if "t < num_tiers p"
    using migrate_store [OF sys b that [unfolded num_tiers_def]] by blast
  show "\<exists>r p'. migrate_async p b t = Inr (r, p')" if "t < num_tiers p"
    using migrate_async_store [OF sys b that [unfolded num_tiers_def]] by blast
  show "\<exists>p'. incref p b = Inr p'" using len by (simp add: incref_def)
  show "\<exists>p'. cancel_migration p b = Inr p'" using q(1) by blast
  show "\<exists>u. migration_target p b = Inr u" if "migrating p b" using migration_target_eq [OF D(5) that] by blast
  show "\<not> migrating p b \<Longrightarrow> migration_target p b = Inl (Fatal ''migration_target of a block not migrating'' b)"
    by (simp add: migration_target_def migrating_def)
  show "\<exists>d p'. decref p b = Inr (d, p')" using decref_ok [OF D(1) b] by metis
  show "\<exists>a. block_data p b = Inr (Some a)" using block_data_ok [OF D(1,2) b] by blast
  show "\<exists>n. block_offset p b = Inr n" "\<exists>t. block_tier p b = Inr t" using l by (simp_all add: block_offset_def block_tier_def)
  show "\<exists>r. refcount p b = Inr r \<and> 0 < r" using len by (simp add: refcount_def)
qed

lemma dead_block_calls:
  assumes sys: "sys_inv p" and b: "\<not> live p b"
  shows "decref p b = Inl (Fatal (if num_blocks p \<le> b then ''decref of an out-of-range block'' else ''decref of a block that is already free'') b)"
    "incref p b = Inl (Fatal (if num_blocks p \<le> b then ''incref of an out-of-range block'' else ''incref of a block that is already free'') b)"
    "refcount p b = (if num_blocks p \<le> b then Inl (Fatal ''refcount of an out-of-range block'' b) else Inr 0)"
    "\<not> migrating p b" "cancel_migration p b = Inr p"
    "migration_target p b = Inl (Fatal ''migration_target of a block not migrating'' b)"
    "locate p b = Inl (Fatal (if num_blocks p \<le> b then ''access to an out-of-range block'' else ''access to a block that is not allocated'') b)"
proof -
  note D = sys_invD [OF sys]
  show mg: "\<not> migrating p b"
  proof
    assume "migrating p b"
    then obtain j where "j \<in> set (bp_jobs p)" "job_id j = b" "\<not> job_cancelled j" using migrating_iff [OF D(5)] by blast
    then show False using copy_inv_live [OF D(1)] b by blast
  qed
  then show "cancel_migration p b = Inr p" "migration_target p b = Inl (Fatal ''migration_target of a block not migrating'' b)"
    by (simp_all add: migrating_def cancel_migration_def migration_target_def)
qed (use b pool_invD(1) [OF sys_invD(1) [OF sys]] decref_dead [OF sys_invD(1) [OF sys] b] locate_not_live [OF sys_invD(1) [OF sys] b]
     in \<open>auto simp: incref_def refcount_def live_def num_blocks_def\<close>)

text \<open>C30. Misuse of a block is caught, and nothing else is. If the block is out of range or not
  allocated, \<^verbatim>\<open>incref()\<close>, \<^verbatim>\<open>decref()\<close>, \<^verbatim>\<open>block_tier()\<close>, \<^verbatim>\<open>block_offset()\<close>, \<^verbatim>\<open>block_data()\<close>, \<^verbatim>\<open>migrate()\<close>,
  \<^verbatim>\<open>migrate_async()\<close> and \<^verbatim>\<open>migration_target()\<close> abort with the message the code gives; \<^verbatim>\<open>refcount()\<close> aborts out of range and is 0 otherwise,
  \<^verbatim>\<open>migrating()\<close> is false and \<^verbatim>\<open>cancel_migration()\<close> does nothing. If the block is allocated none of the
  operations aborts, except a migration to a tier that does not exist and \<^verbatim>\<open>migration_target()\<close> when the block is not migrating. After the \<^verbatim>\<open>decref()\<close> that freed
  a block, a second one aborts.\<close>

theorem dead_block_aborts:
  assumes "specs_ok m c specs" and "reachable_pool hw m c specs p"
  shows "(\<not> live p b \<longrightarrow>
       decref p b = Inl (Fatal (if num_blocks p \<le> b then ''decref of an out-of-range block'' else ''decref of a block that is already free'') b)
     \<and> incref p b = Inl (Fatal (if num_blocks p \<le> b then ''incref of an out-of-range block'' else ''incref of a block that is already free'') b)
     \<and> (\<exists>e. block_data p b = Inl e \<and> block_offset p b = Inl e \<and> block_tier p b = Inl e \<and> migrate p b t = Inl e \<and> migrate_async p b t = Inl e
           \<and> e = Fatal (if num_blocks p \<le> b then ''access to an out-of-range block'' else ''access to a block that is not allocated'') b)
     \<and> migration_target p b = Inl (Fatal ''migration_target of a block not migrating'' b)
     \<and> refcount p b = (if num_blocks p \<le> b then Inl (Fatal ''refcount of an out-of-range block'' b) else Inr 0)
     \<and> \<not> migrating p b \<and> cancel_migration p b = Inr p)
   \<and> (live p b \<longrightarrow> (\<exists>p'. incref p b = Inr p') \<and> (\<exists>d p'. decref p b = Inr (d, p')) \<and> (\<exists>a. block_data p b = Inr (Some a))
     \<and> (\<exists>n. block_offset p b = Inr n) \<and> (\<exists>u. block_tier p b = Inr u) \<and> (\<exists>r. refcount p b = Inr r \<and> 0 < r)
     \<and> (\<exists>p'. cancel_migration p b = Inr p')
     \<and> (if migrating p b then \<exists>u. migration_target p b = Inr u
        else migration_target p b = Inl (Fatal ''migration_target of a block not migrating'' b))
     \<and> (if t < num_tiers p then (\<exists>r p'. migrate p b t = Inr (r, p')) \<and> (\<exists>r p'. migrate_async p b t = Inr (r, p'))
        else migrate p b t = Inl (Fatal ''migrate to an out-of-range tier'' b)
          \<and> migrate_async p b t = Inl (Fatal ''async migrate to an out-of-range tier'' b)))
   \<and> (\<forall>p'. decref p b = Inr (True, p') \<longrightarrow> decref p' b = Inl (Fatal ''decref of a block that is already free'' b))"
proof -
  have sys: "sys_inv p" by (rule reachable_sys_inv [OF assms(2,1)])
  have acc: "\<exists>e. block_data p b = Inl e \<and> block_offset p b = Inl e \<and> block_tier p b = Inl e \<and> migrate p b t = Inl e \<and> migrate_async p b t = Inl e
      \<and> e = Fatal (if num_blocks p \<le> b then ''access to an out-of-range block'' else ''access to a block that is not allocated'') b" if "\<not> live p b"
    using dead_block_calls(5,7) [OF sys that] by (simp add: block_data_def block_offset_def block_tier_def migrate_def migrate_async_def)
  have again: "decref p' b = Inl (Fatal ''decref of a block that is already free'' b)" if d: "decref p b = Inr (True, p')" for p'
  proof -
    have b: "live p b" using d dead_block_calls(1) [OF sys, of b] by (cases "live p b") simp_all
    obtain p1 where "decref p b = Inr (True, p1)" "pool_inv p1" "\<not> live p1 b" "bp_location p1 = bp_location p"
      using decref_ok [OF sys_invD(1) [OF sys] b] d by (metis Inr_inject prod.inject)
    then show ?thesis using d decref_dead [of p' b] b by (simp add: live_def)
  qed
  show ?thesis
  proof (cases "live p b")
    case True
    note L = live_block_calls [OF sys True]
    show ?thesis using True L(1-6,11) again L(7-10) [of t] L(12,13) by (simp add: not_less)
  next
    case False
    note R = dead_block_calls [OF sys False]
    show ?thesis using False R(1-6) acc again by simp
  qed
qed

theorem dead_block_aborts_witness:
  "\<exists>p b p'. reachable_pool 1 demo_mem demo_cfg demo_specs p \<and> live p b \<and> decref p b = Inr (True, p')
     \<and> decref p' b = Inl (Fatal ''decref of a block that is already free'' b)"
proof -
  obtain p b where p: "reachable_pool 1 demo_mem demo_cfg demo_specs p" "sys_inv p" "live p b" "bp_refcount p ! b = 1"
    using demo_pool_one by metis
  obtain p' where "decref p b = Inr (True, p')" using decref_ok [OF sys_invD(1) [OF p(2)] p(3)] p(4) by metis
  then show ?thesis using dead_block_aborts [OF demo_specs_ok p(1), of b 0] p(1,3) by blast
qed


subsection \<open>Construction\<close>

text \<open>A tier that exists and reports room for the blocks asked of it.\<close>

definition tier_fits :: "memory \<Rightarrow> CacheConfig \<Rightarrow> TierSpec \<Rightarrow> bool" where
  "tier_fits m c spec \<longleftrightarrow> (case spec_tier spec of None \<Rightarrow> False
     | Some ptr \<Rightarrow> ptr < length m \<and> spec_num_blocks spec * block_bytes c \<le> ht_capacity (m ! ptr))"

lemma init_tiers_upto:
  assumes "\<forall>spec \<in> set good. tier_fits m c spec"
  shows "\<exists>acc'. foldE (init_tier c m) (good @ rest) acc = foldE (init_tier c m) rest acc'"
  using assms
proof (induction good arbitrary: acc)
  case (Cons spec good)
  obtain ptr where "spec_tier spec = Some ptr" "ptr < length m" "spec_num_blocks spec * block_bytes c \<le> ht_capacity (m ! ptr)"
    using Cons.prems by (auto simp: tier_fits_def split: option.splits)
  then show ?case using Cons.IH Cons.prems by (simp add: init_tier_eq)
qed auto

text \<open>C31. A pool built over distinct, existing tiers that are each large enough starts with no block
  allocated, every slot of every tier free and as many identifiers as slots. An empty list
  of tiers is refused with an exception; so is a list with a null tier, or with a tier that reports less than
  \<^verbatim>\<open>num_blocks * block_bytes()\<close> (when that product fits in 64 bits), wherever it stands: the first such tier decides the exception.\<close>

theorem pool_construction:
  "(specs_ok m c specs \<longrightarrow> (\<exists>p. BlockPool_tiered hw m specs c = Inr p \<and> view p = Map.empty
       \<and> num_blocks p = sum_list (map spec_num_blocks specs)
       \<and> (\<forall>t < length specs. tier_free p t = Inr (spec_num_blocks (specs ! t)))))
   \<and> BlockPool_tiered hw m [] c = Inl (InvalidArgument ''kvslab: a pool needs at least one tier'')
   \<and> (\<forall>good bad rest. (\<forall>spec \<in> set good. tier_fits m c spec) \<longrightarrow>
        (spec_tier bad = None \<longrightarrow> BlockPool_tiered hw m (good @ bad # rest) c = Inl (InvalidArgument ''kvslab: null tier in pool spec''))
      \<and> (\<forall>ptr. spec_tier bad = Some ptr \<and> ptr < length m \<and> \<not> tier_fits m c bad \<and> spec_num_blocks bad * block_bytes c < 2 ^ 64 \<longrightarrow>
           BlockPool_tiered hw m (good @ bad # rest) c = Inl (InvalidArgument ''kvslab: tier is too small for the requested pool'')))"
proof (intro conjI impI allI)
  assume ok: "specs_ok m c specs"
  obtain p where p: "pool_init hw m c specs = Inr p" "bp_tiers p = map tier_of_spec specs"
    "length (bp_location p) = sum_list (map spec_num_blocks specs)"
    using pool_init_ok [OF ok, of hw] by metis
  have init: "BlockPool_tiered hw m specs c = Inr p" using p(1) by (simp add: BlockPool_tiered_def)
  have "\<forall>t < length specs. tier_free p t = Inr (spec_num_blocks (specs ! t))"
    by (simp add: tier_free_def p(2) tier_of_spec_def)
  then show "\<exists>p. BlockPool_tiered hw m specs c = Inr p \<and> view p = Map.empty
       \<and> num_blocks p = sum_list (map spec_num_blocks specs)
       \<and> (\<forall>t < length specs. tier_free p t = Inr (spec_num_blocks (specs ! t)))"
    using init sys_inv_init(2) [OF ok init] p(3) by (simp add: num_blocks_def)
next
  show "BlockPool_tiered hw m [] c = Inl (InvalidArgument ''kvslab: a pool needs at least one tier'')"
    by (simp add: BlockPool_tiered_def pool_init_def)
next
  fix good bad rest assume "\<forall>spec \<in> set good. tier_fits m c spec"
  from init_tiers_upto [OF this, of "bad # rest" "([], 0)"]
  obtain acc where acc: "foldE (init_tier c m) (good @ bad # rest) ([], 0) = foldE (init_tier c m) (bad # rest) acc" by blast
  show "BlockPool_tiered hw m (good @ bad # rest) c = Inl (InvalidArgument ''kvslab: null tier in pool spec'')" if "spec_tier bad = None"
    using acc that by (simp add: BlockPool_tiered_def pool_init_def init_tier_def)
  show "BlockPool_tiered hw m (good @ bad # rest) c = Inl (InvalidArgument ''kvslab: tier is too small for the requested pool'')"
    if "spec_tier bad = Some ptr \<and> ptr < length m \<and> \<not> tier_fits m c bad \<and> spec_num_blocks bad * block_bytes c < 2 ^ 64" for ptr
  proof -
    have "ht_capacity (m ! ptr) < spec_num_blocks bad * block_bytes c" using that by (auto simp: tier_fits_def)
    then show ?thesis using acc that by (simp add: BlockPool_tiered_def pool_init_def init_tier_def capacity_bytes_def u64_small)
  qed
qed

theorem pool_construction_witness:
  "(\<exists>p. BlockPool_tiered 1 demo_mem demo_specs demo_cfg = Inr p \<and> view p = Map.empty
     \<and> tier_free p 1 = Inr (spec_num_blocks (demo_specs ! 1)))
   \<and> BlockPool_tiered 1 demo_mem (demo_specs @ [\<lparr>spec_tier = Some 1, spec_num_blocks = 1025\<rparr>]) demo_cfg
       = Inl (InvalidArgument ''kvslab: tier is too small for the requested pool'')"
proof -
  have len: "1 < length demo_specs" by (simp add: demo_specs_def)
  have fits: "\<forall>spec \<in> set demo_specs. tier_fits demo_mem demo_cfg spec"
    by (simp add: tier_fits_def demo_specs_def demo_mem_def demo_block_bytes nth_Cons')
  let ?bad = "\<lparr>spec_tier = Some 1, spec_num_blocks = 1025\<rparr>"
  have bad: "spec_tier ?bad = Some 1 \<and> 1 < length demo_mem \<and> \<not> tier_fits demo_mem demo_cfg ?bad \<and> spec_num_blocks ?bad * block_bytes demo_cfg < 2 ^ 64"
    by (simp add: tier_fits_def demo_mem_def demo_block_bytes nth_Cons')
  note C = pool_construction [of demo_mem demo_cfg demo_specs 1]
  from C fits bad have "BlockPool_tiered 1 demo_mem (demo_specs @ [?bad]) demo_cfg
       = Inl (InvalidArgument ''kvslab: tier is too small for the requested pool'')" by blast
  with C demo_specs_ok len show ?thesis by blast
qed

text \<open>The size check of the constructor multiplies in 64 bits: a tier of one byte is accepted
  for \<^verbatim>\<open>2^62\<close> blocks of four bytes, because the product wraps to zero.\<close>

theorem size_check_wraps:
  "\<exists>acc. init_tier demo_cfg [\<lparr>ht_arena = Some [0], ht_capacity = 1\<rparr>]
     \<lparr>spec_tier = Some 0, spec_num_blocks = 2 ^ 62\<rparr> ([], 0) = Inr acc"
  by (simp add: init_tier_def demo_block_bytes capacity_bytes_def u64_def)

subsection \<open>Tiers\<close>

text \<open>C39. A bulk write into a tier followed by a bulk read of the same range returns the bytes
  written, and a read of a range that does not overlap it returns what it returned before; both
  succeed on every range inside the tier.\<close>

theorem tier_roundtrip:
  assumes "tier_ok t" and "off + length bs \<le> capacity_bytes t"
  shows "\<exists>t'. tier_write t off bs = Inr t' \<and> tier_ok t' \<and> capacity_bytes t' = capacity_bytes t
     \<and> tier_read t' off (length bs) = Inr bs
     \<and> (\<forall>off' n. off' + n \<le> off \<or> off + length bs \<le> off' \<longrightarrow> tier_read t' off' n = tier_read t off' n)"
proof -
  have fit: "off + length bs \<le> ht_capacity t" using assms(2) by (simp add: capacity_bytes_def)
  obtain t' where t': "tier_write t off bs = Inr t'" "tier_ok t'" "ht_capacity t' = ht_capacity t"
    using host.wr_total [OF assms(1) fit] by blast
  then show ?thesis
    using host.rd_written [OF assms(1) fit t'(1)] host.rd_other [OF assms(1) fit t'(1)]
    by (simp add: capacity_bytes_def)
qed

theorem tier_roundtrip_witness:
  "\<exists>t'. tier_write \<lparr>ht_arena = Some [1, 2, 3], ht_capacity = 3\<rparr> 1 [7] = Inr t' \<and> tier_read t' 1 1 = Inr [7]"
  using tier_roundtrip [of "\<lparr>ht_arena = Some [1, 2, 3], ht_capacity = 3\<rparr>" 1 "[7]"]
  by (auto simp: tier_ok_def capacity_bytes_def)

text \<open>The bounds assertion of a bulk transfer adds in 64 bits, so it does not stop every
  transfer outside the tier: writing one byte at offset \<^verbatim>\<open>2^64 - 1\<close> passes the assertion
  and runs past the arena.\<close>

theorem tier_bounds_check_wraps:
  "tier_write \<lparr>ht_arena = Some [0], ht_capacity = 1\<rparr> (2 ^ 64 - 1) [x]
     = Inl (UndefinedBehaviour ''memcpy past the arena'')"
  by (simp add: tier_write_def arena_store_def u64_def)

text \<open>A tier's capacity is the requested one rounded up to the next multiple of 4096, for
  every request the rounding does not overflow.\<close>

theorem round_up_correct:
  assumes "val + kArenaAlignment < 2 ^ 64"
  shows "val \<le> round_up val kArenaAlignment \<and> round_up val kArenaAlignment < val + kArenaAlignment
     \<and> kArenaAlignment dvd round_up val kArenaAlignment"
proof -
  have a: "val + 4096 < 2 ^ 64" using assms by (simp add: kArenaAlignment_def)
  have "sub64 (u64 (val + 4096)) 1 = u64 (val + 4095)" by (subst sub64_u64) (simp_all add: add.commute)
  then have eq: "round_up val kArenaAlignment = u64 ((val + 4095) div 4096 * 4096)"
    using a by (simp add: round_up_def kArenaAlignment_def u64_small)
  have le: "(val + 4095) div 4096 * 4096 \<le> val + 4095" by simp
  then have "round_up val kArenaAlignment = (val + 4095) div 4096 * 4096"
    using a unfolding eq by (intro u64_small) linarith
  then show ?thesis
    using le by (simp add: kArenaAlignment_def) (use div_mult_mod_eq [of "val + 4095" 4096] mod_less_divisor [of 4096 "val + 4095"] in linarith)
qed

theorem round_up_correct_witness:
  "(5000 :: nat) \<le> round_up 5000 kArenaAlignment \<and> round_up 5000 kArenaAlignment < 5000 + kArenaAlignment
     \<and> kArenaAlignment dvd round_up 5000 kArenaAlignment"
  using round_up_correct [of 5000] by (simp add: kArenaAlignment_def)

subsection \<open>Keys\<close>

text \<open>C40. Two blocks of tokens that differ in a single byte of a single token have different
  keys: such blocks never collide in the hash of a node's children.\<close>

theorem block_key_byte_change:
  assumes "i < n" and "n \<le> length ts" and "b < 4" and "token_byte v b \<noteq> token_byte (ts ! i) b"
    and "\<forall>b'. b' < 4 \<longrightarrow> b' \<noteq> b \<longrightarrow> token_byte v b' = token_byte (ts ! i) b'"
  shows "block_key (ts[i := v]) n \<noteq> block_key ts n"
proof
  assume eq: "block_key (ts[i := v]) n = block_key ts n"
  have i: "i < length ts" using assms(1,2) by simp
  have "fnv_token v (fold fnv_token (take i ts) 1469598103934665603)
      = fnv_token (ts ! i) (fold fnv_token (take i ts) 1469598103934665603)"
    using eq block_key_split [OF assms(1,2)] block_key_split [OF assms(1), of "ts[i := v]"] assms(2) i
    by (simp add: fnv_tokens_inject drop_take drop_update_cancel)
  with fnv_token_single_byte [OF assms(3,4)] assms(5) show False by blast
qed

theorem block_key_byte_change_witness: "block_key ([1, 2][1 := 3]) 2 \<noteq> block_key [1, 2] 2"
proof (rule block_key_byte_change [of 1 2 "[1, 2]" 0 3])
  show "token_byte 3 0 \<noteq> token_byte ([1, 2] ! 1) 0" by (simp add: token_byte_def)
  show "\<forall>b' < 4. b' \<noteq> 0 \<longrightarrow> token_byte 3 b' = token_byte ([1, 2] ! 1) b'"
  proof (intro allI impI)
    fix b' :: nat assume "b' < 4" "b' \<noteq> 0"
    then consider "b' = 1" | "b' = 2" | "b' = 3" by linarith
    then show "token_byte 3 b' = token_byte ([1, 2] ! 1) b'" by cases (simp_all add: token_byte_def)
  qed
qed simp_all

end
