(* ===== verification/Tree_Theorems.thy ===== *)
theory Tree_Theorems
  imports Radix_Index Pool_Theorems
begin

section \<open>What the prefix tree guarantees\<close>

text \<open>
  The theorems about the tree, each for every state a tree can reach, and a small concrete
  instance: a tree with blocks of two tokens that holds one leaf, over the small pool of
  theory \<open>Pool_Theorems\<close>.
\<close>

subsection \<open>A small tree\<close>

definition demo_tree :: "BlockId \<Rightarrow> RadixTree" where
  "demo_tree b = \<lparr>rt_nodes =
       [1 \<mapsto> \<lparr>nd_tokens = [1, 2], nd_blocks = [b], nd_children = [], nd_parent = Some 0, nd_lock = 0, nd_last = 1\<rparr>,
        0 \<mapsto> fresh_node\<lparr>nd_children := [(block_key [1, 2] 2, 1)]\<rparr>],
     rt_block_tokens = 2, rt_root = 0, rt_clock = 1, rt_stored_blocks = 1, rt_num_nodes = 1, rt_collisions = 0,
     rt_next = 2\<rparr>"

definition demo_empty :: RadixTree where
  "demo_empty = \<lparr>rt_nodes = [0 \<mapsto> fresh_node], rt_block_tokens = 2, rt_root = 0, rt_clock = 0, rt_stored_blocks = 0,
     rt_num_nodes = 0, rt_collisions = 0, rt_next = 1\<rparr>"

lemma demo_insert:
  obtains p b p1 where "reachable_tree 2 demo_empty p {#}" and "insert_ready demo_empty p [b]"
    and "tree_insert demo_empty p [1, 2] [b] = Inr (1, demo_tree b, p1)" and "sys_inv p1" and "rcount p1 b = 2"
    and "running p1" and "loc_tier (bp_location p1 ! b) = 0"
proof -
  obtain p b where p: "sys_inv p" "live p b" "bp_refcount p ! b = 1" "loc_tier (bp_location p ! b) = 0" "running p"
    using demo_pool_one by metis
  have rc: "rcount p b = 1" using p(2,3) by (simp add: rcount_def live_def)
  have "RadixTree_new 2 = Inr demo_empty" by (simp add: RadixTree_new_def demo_empty_def)
  then have reach: "reachable_tree 2 demo_empty p {#}" by (rule rt_init [OF _ p(1)])
  have ready: "insert_ready demo_empty p [b]"
    using rc rcount_less [OF p(1)] by (simp add: insert_ready_def demo_empty_def)
  obtain p1 where p1: "incref p b = Inr p1" "sys_inv p1" "rcount p1 = (rcount p)(b := rcount p b + 1)" "pool_rel p p1"
    using pool_incref [OF p(1), of b] rc by auto
  have "tree_insert demo_empty p [1, 2] [b] = Inr (1, demo_tree b, p1)"
    by (simp add: demo_empty_def tree_insert_def insert_limit_def insert_loop.simps Let_def fresh_node_def node_at_def
        u64_def p1(1) demo_tree_def)
  moreover have "running p1" "loc_tier (bp_location p1 ! b) = 0" using p1(4) p(4,5) by (simp_all add: pool_rel_def running_def)
  moreover have "rcount p1 b = 2" using p1(3) rc by simp
  ultimately show thesis using that [OF reach ready] p1(2) by blast
qed

lemma demo_tree_reachable:
  obtains p b where "reachable_tree 2 (demo_tree b) p {#}" and "sys_inv p" and "rcount p b = 1"
    and "running p" and "loc_tier (bp_location p ! b) = 0"
proof -
  obtain p b p1 where d: "reachable_tree 2 demo_empty p {#}" "insert_ready demo_empty p [b]"
    "tree_insert demo_empty p [1, 2] [b] = Inr (1, demo_tree b, p1)" "sys_inv p1" "rcount p1 b = 2" "running p1"
    "loc_tier (bp_location p1 ! b) = 0" by (rule demo_insert)
  have r1: "reachable_tree 2 (demo_tree b) p1 {#}"
    using rt_step [OF d(1), of "Insert [1, 2] [b]" "demo_tree b" p1] d(2,3) by simp
  obtain p2 where p2: "sys_inv p2" "rcount p2 = (rcount p1)(b := rcount p1 b - 1)" "pool_rel p1 p2"
    using pool_decref [OF d(4), of b] d(5) by auto
  have rc2: "rcount p2 b = 1" using p2(2) d(5) by simp
  have "tree_blocks (demo_tree b) = {#b#}" by (simp add: tree_blocks_def demo_tree_def fresh_node_def)
  then have "tree_refs (demo_tree b) p2" using rc2 by (simp add: tree_refs_def)
  then have "reachable_tree 2 (demo_tree b) p2 {#}" by (rule rt_env [OF r1 p2(1)])
  moreover have "running p2" "loc_tier (bp_location p2 ! b) = 0"
    using p2(3) d(6,7) by (simp_all add: pool_rel_def running_def)
  ultimately show thesis using p2(1) rc2 that by blast
qed

subsection \<open>The tree implements a map of prefixes\<close>

text \<open>C3. In every state a tree can reach, every operation a client may perform succeeds (no
  assertion fails, no pointer dangles, no walk is endless) and acts on the index, the map
  from block-aligned token prefixes to blocks, as the abstract map does: matching and
  pinning leave it alone, inserting adds the blocks after the longest known prefix or
  nothing, evicting only removes entries.\<close>

theorem tree_refines_index:
  assumes "reachable_tree bt t p pins" and "tree_allowed t p pins oper"
  shows "\<exists>t' p'. tree_exec oper (t, p) = Inr (t', p') \<and> index_step bt oper (index t) (index t')"
  using tree_step_ok [OF reachable_tree_ok [OF assms(1)] assms(2)] by blast

theorem tree_refines_index_witness:
  "\<exists>b p t' p'. reachable_tree 2 (demo_tree b) p {#} \<and> tree_exec (Evict 1) (demo_tree b, p) = Inr (t', p')
     \<and> index_step 2 (Evict 1) (index (demo_tree b)) (index t')"
proof -
  obtain p b where "reachable_tree 2 (demo_tree b) p {#}" using demo_tree_reachable by metis
  then show ?thesis using tree_refines_index [of 2 "demo_tree b" p "{#}" "Evict 1"] by fastforce
qed

text \<open>C11. \<^verbatim>\<open>match_prefix()\<close> returns the block table of the longest block-aligned prefix of
  the tokens that the index knows, block by block the index's own entries, and a node that
  covers exactly the matched tokens and blocks (none if nothing matches). It changes
  neither the index nor any pin, whatever nodes it splits.\<close>

theorem match_prefix_correct:
  assumes "reachable_tree bt t p pins"
  shows "\<exists>res t'. match_prefix t toks = Inr (res, t') \<and> hits (index t) bt toks (mr_blocks res)
     \<and> mr_num_tokens res = length (mr_blocks res) * bt
     \<and> covers t' (mr_node res) (take (mr_num_tokens res) toks) (mr_blocks res)
     \<and> index t' = index t \<and> tree_inv t' pins"
  using match_prefix_index [OF reachable_treeD(2) [OF assms], of toks] reachable_treeD(5) [OF assms] by metis

theorem match_prefix_correct_witness:
  "\<exists>b p res t'. reachable_tree 2 (demo_tree b) p {#} \<and> match_prefix (demo_tree b) [1, 2, 3] = Inr (res, t')
     \<and> hits (index (demo_tree b)) 2 [1, 2, 3] (mr_blocks res)
     \<and> covers t' (mr_node res) (take (mr_num_tokens res) [1, 2, 3]) (mr_blocks res)"
proof -
  obtain p b where "reachable_tree 2 (demo_tree b) p {#}" using demo_tree_reachable by metis
  then show ?thesis using match_prefix_correct [of 2 "demo_tree b" p "{#}" "[1, 2, 3]"] by blast
qed

text \<open>C13. \<^verbatim>\<open>insert()\<close> finds the longest cached prefix (\<open>cs\<close>) of the whole blocks it is given
  and stores all that follow it, mapping each remaining prefix to the caller's block
  and taking one reference on each. The only exception is a key collision: if the index holds, after the
  same prefix, another block of tokens with the key of the next block (\<open>key_taken\<close>), it stores
  nothing, and counts that in \<^verbatim>\<open>collisions_\<close> when something was left to store. It returns the number of blocks adopted, forgets nothing and leaves what
  every pinned node stands for as it was.\<close>

theorem insert_correct:
  assumes "reachable_tree bt t p pins" and "insert_ready t p bs"
  shows "\<exists>k t' p' cs. tree_insert t p toks bs = Inr (k, t', p')
     \<and> hits (index t) bt (take (insert_blocks t toks bs * bt) toks) cs
     \<and> k = (if key_taken (dom (index t)) bt toks (length cs) then 0 else insert_blocks t toks bs - length cs)
     \<and> index t' = insert_index (index t) bt toks bs (length cs) k
     \<and> rcount p' = (\<lambda>b. rcount p b + count (mset (take k (drop (length cs) bs))) b)
     \<and> rt_collisions t' = (if k = 0 \<and> length cs < insert_blocks t toks bs then u64 (rt_collisions t + 1) else rt_collisions t)
     \<and> tree_inv t' pins \<and> (\<forall>n. keeps t t' n)"
proof -
  note ok = reachable_treeD(2,3,5) [OF assms(1)]
  obtain k t' p' pre cs where "tree_insert t p toks bs = Inr (k, t', p')" "tree_inv t' pins" "\<forall>n. keeps t t' n"
    "hits (index t) bt (take (insert_blocks t toks bs * bt) toks) cs" "pre = length cs"
    "k = (if key_taken (dom (index t)) bt toks pre then 0 else insert_blocks t toks bs - pre)"
    "index t' = insert_index (index t) bt toks bs pre k" "rcount p' = (\<lambda>b. rcount p b + count (mset (take k (drop pre bs))) b)"
    "rt_collisions t' = (if k = 0 \<and> pre < insert_blocks t toks bs then u64 (rt_collisions t + 1) else rt_collisions t)"
    using tree_insert_result [OF ok(1,2) assms(2), of toks, unfolded ok(3)] by blast
  then show ?thesis by blast
qed

theorem insert_correct_witness:
  "\<exists>b p p'. reachable_tree 2 demo_empty p {#} \<and> tree_insert demo_empty p [1, 2] [b] = Inr (1, demo_tree b, p')
     \<and> index (demo_tree b) = insert_index (index demo_empty) 2 [1, 2] [b] 0 1 \<and> \<not> key_taken (dom (index demo_empty)) 2 [1, 2] 0"
proof -
  obtain p b p' where d: "reachable_tree 2 demo_empty p {#}" "insert_ready demo_empty p [b]"
    "tree_insert demo_empty p [1, 2] [b] = Inr (1, demo_tree b, p')" by (rule demo_insert)
  have lb: "insert_blocks demo_empty [1, 2] [b] = 1" by (simp add: insert_blocks_def demo_empty_def)
  obtain k t' p2 and cs :: "BlockId list" where "tree_insert demo_empty p [1, 2] [b] = Inr (k, t', p2)"
    "k = (if key_taken (dom (index demo_empty)) 2 [1, 2] (length cs) then 0 else 1 - length cs)"
    "index t' = insert_index (index demo_empty) 2 [1, 2] [b] (length cs) k"
    using insert_correct [OF d(1,2), of "[1, 2]", unfolded lb] by blast
  moreover from this(1) have "k = 1" "t' = demo_tree b" using d(3) by simp_all
  moreover from this calculation(2) have "cs = []" "\<not> key_taken (dom (index demo_empty)) 2 [1, 2] (length cs)"
    by (cases "key_taken (dom (index demo_empty)) 2 [1, 2] (length cs)"; cases cs; simp only: if_True if_False; simp)+
  ultimately show ?thesis using d by (metis list.size(3))
qed


lemma insert_index_entry:
  assumes "0 < bt" and "i < lb" and "lb * bt \<le> length toks"
  shows "insert_index idx bt toks bs pre (lb - pre) (take ((i + 1) * bt) toks) = (if pre \<le> i then Some (bs ! i) else idx (take ((i + 1) * bt) toks))"
proof -
  have len: "length (take ((j + 1) * bt) toks) = (j + 1) * bt" if "j < lb" for j
    using mult_le_mono1 [of "j + 1" lb bt] that assms(3) by simp
  have "j = i" if "take ((i + 1) * bt) toks = take ((j + 1) * bt) toks" "j < lb" for j
    using arg_cong [OF that(1), of length] len [OF assms(2)] len [OF that(2)] assms(1) by simp
  then have "(\<exists>j. pre \<le> j \<and> j < pre + (lb - pre) \<and> take ((i + 1) * bt) toks = take ((j + 1) * bt) toks) \<longleftrightarrow> pre \<le> i"
    using assms(2) by (metis (no_types) le_add_diff_inverse less_imp_le_nat nat_le_linear order_le_less_trans add.right_neutral diff_is_0_eq not_less)
  moreover have "length (take ((i + 1) * bt) toks) div bt - 1 = i" unfolding len [OF assms(2)] using assms(1) by simp
  ultimately show ?thesis unfolding insert_index_def by simp
qed

lemma u64_suc_neq: "u64 (c + 1) \<noteq> c"
proof
  assume "u64 (c + 1) = c"
  moreover have "u64 (c + 1) < 2 ^ 64" by (rule u64_less)
  ultimately show False by (simp add: u64_def mod_Suc split: if_splits)
qed

text \<open>What \<^verbatim>\<open>insert()\<close> stores, \<^verbatim>\<open>match_prefix()\<close> returns: after an insertion that met no
  collision, matching the same tokens finds at least every whole block given, each one
  being the block that was cached for that prefix before, or the caller's own block if none
  was.\<close>

theorem insert_then_match:
  assumes reach: "reachable_tree bt t p pins" and ready: "insert_ready t p bs"
    and ins: "tree_insert t p toks bs = Inr (k, t', p')" and free: "rt_collisions t' = rt_collisions t"
  shows "\<exists>res t''. match_prefix t' toks = Inr (res, t'') \<and> insert_blocks t toks bs \<le> length (mr_blocks res)
     \<and> (\<forall>i < insert_blocks t toks bs. case index t (take ((i + 1) * bt) toks) of
          Some b \<Rightarrow> mr_blocks res ! i = b | None \<Rightarrow> mr_blocks res ! i = bs ! i)"
proof -
  let ?lb = "insert_blocks t toks bs"
  note ok = reachable_treeD(2,3,5) [OF reach]
  have bt: "0 < bt" using tree_wfD(1) [OF tree_invD(1) [OF ok(1)]] ok(3) by simp
  have lb: "?lb * bt \<le> length toks" using insert_blocks_fit [of t toks bs] ok(3) by simp
  obtain cs where i: "tree_inv t' pins" "rt_block_tokens t' = bt" "hits (index t) bt (take (?lb * bt) toks) cs"
    "k = 0 \<or> k = ?lb - length cs" "index t' = insert_index (index t) bt toks bs (length cs) k"
    "rt_collisions t' = (if k = 0 \<and> length cs < ?lb then u64 (rt_collisions t + 1) else rt_collisions t)"
    using tree_insert_result [OF ok(1,2) ready, of toks, unfolded ok(3)] ins by auto
  have k: "k = ?lb - length cs" using i(4,6) free u64_suc_neq [of "rt_collisions t"] by (auto split: if_splits)
  note entry = insert_index_entry [OF bt _ lb, of _ "index t" bs "length cs", folded k, folded i(5)]
  have tk: "take ((i + 1) * bt) (take (?lb * bt) toks) = take ((i + 1) * bt) toks" if "i < ?lb" for i
    using mult_le_mono1 [of "i + 1" ?lb bt] that by (simp add: min_absorb1)
  have known: "index t (take ((i + 1) * bt) toks) = (if i < length cs then Some (cs ! i) else None)" if i': "i < ?lb" for i
  proof (cases "i < length cs")
    case True
    then show ?thesis using hits_entry [OF i(3) True] tk [OF i'] by simp
  next
    case False
    have "(i + 1) * bt \<le> length (take (?lb * bt) toks)" using mult_le_mono1 [of "i + 1" ?lb bt] i' lb by simp
    then have "index t (take ((i + 1) * bt) toks) \<noteq> Some b" for b using i(3) False tk [OF i'] unfolding hits_def by metis
    then show ?thesis using False by (metis option.exhaust)
  qed
  obtain res t'' where m: "match_prefix t' toks = Inr (res, t'')" and h: "hits (index t') bt toks (mr_blocks res)"
    using match_prefix_index [OF i(1), of toks] i(2) by auto
  have new: "index t' (take ((i + 1) * bt) toks) = Some (if i < length cs then cs ! i else bs ! i)" if "i < ?lb" for i
    using entry [OF that] known [OF that] by simp
  have len: "i < length (mr_blocks res)" if "i < ?lb" for i
  proof -
    have "(i + 1) * bt \<le> ?lb * bt" using that by (intro mult_le_mono1) simp
    then have "(i + 1) * bt \<le> length toks" using lb by linarith
    then show ?thesis using h new [OF that] unfolding hits_def by blast
  qed
  have "case index t (take ((i + 1) * bt) toks) of Some b \<Rightarrow> mr_blocks res ! i = b | None \<Rightarrow> mr_blocks res ! i = bs ! i" if "i < ?lb" for i
  proof -
    have "Some (mr_blocks res ! i) = index t' (take ((i + 1) * bt) toks)" using h len [OF that] by (simp add: hits_def)
    then show ?thesis using new [OF that] known [OF that] by (simp split: if_splits)
  qed
  moreover have "?lb \<le> length (mr_blocks res)" using len by (meson leI nat_neq_iff not_less)
  ultimately show ?thesis using m by blast
qed

theorem insert_then_match_witness:
  "\<exists>b p p' res t''. tree_insert demo_empty p [1, 2] [b] = Inr (1, demo_tree b, p')
     \<and> match_prefix (demo_tree b) [1, 2] = Inr (res, t'') \<and> insert_blocks demo_empty [1, 2] [b] \<le> length (mr_blocks res)"
proof -
  obtain p b p' where d: "reachable_tree 2 demo_empty p {#}" "insert_ready demo_empty p [b]"
    "tree_insert demo_empty p [1, 2] [b] = Inr (1, demo_tree b, p')" by (rule demo_insert)
  have "rt_collisions (demo_tree b) = rt_collisions demo_empty" by (simp add: demo_tree_def demo_empty_def)
  then show ?thesis using insert_then_match [OF d] d(3) by blast
qed



text \<open>C33. \<^verbatim>\<open>find_lru_leaf()\<close> ends and returns, among the leaves that are not the root, not
  pinned and not already rejected, one with the smallest \<^verbatim>\<open>last_access\<close>; it returns none only
  when there is no such leaf.\<close>

theorem find_lru_leaf_correct:
  assumes "reachable_tree bt t p pins"
  shows "\<exists>r. find_lru_leaf t rejected = Inr r \<and> least_recent t (candidates t rejected) r"
  by (rule find_lru_leaf_ok [OF reachable_treeD(1) [OF assms]])

theorem find_lru_leaf_correct_witness:
  "\<exists>b p r. reachable_tree 2 (demo_tree b) p {#} \<and> find_lru_leaf (demo_tree b) [] = Inr r
     \<and> least_recent (demo_tree b) (candidates (demo_tree b) []) r"
proof -
  obtain p b where p: "reachable_tree 2 (demo_tree b) p {#}" using demo_tree_reachable by metis
  show ?thesis using find_lru_leaf_correct [OF p, of "[]"] p by blast
qed

text \<open>C34. \<^verbatim>\<open>pick_demotion_victims()\<close> ends and collects, without repetition and no more than
  asked for, blocks of unpinned leaves that live in the compute tier, are referenced by the
  tree alone and are not migrating; when it collects fewer than asked for, it has
  collected all of them.\<close>

theorem pick_demotion_victims_correct:
  assumes "reachable_tree bt t p pins"
  shows "\<exists>vs. pick_demotion_victims t p k = Inr vs \<and> distinct vs \<and> length vs \<le> k
     \<and> set vs \<subseteq> coldest t p (candidates t []) \<and> (length vs < k \<longrightarrow> set vs = coldest t p (candidates t []))"
  using pick_demotion_victims_ok [OF reachable_treeD(1,3,4) [OF assms], of k] by (simp add: picked_def)

theorem pick_demotion_victims_correct_witness:
  "\<exists>b p vs. reachable_tree 2 (demo_tree b) p {#} \<and> pick_demotion_victims (demo_tree b) p 2 = Inr vs
     \<and> distinct vs \<and> set vs \<subseteq> coldest (demo_tree b) p (candidates (demo_tree b) [])"
proof -
  obtain p b where p: "reachable_tree 2 (demo_tree b) p {#}" using demo_tree_reachable by metis
  show ?thesis using pick_demotion_victims_correct [OF p, of 2] p by blast
qed


subsection \<open>Pins\<close>

lemma unlock_lock:
  assumes inv: "tree_inv t pins" and n: "rt_nodes t n = Some nd" "n \<noteq> rt_root t" "size pins + 1 < 2 ^ 32"
  shows "unlock (map_locks (\<lambda>l. u32 (l + 1)) (anc t n) t) n = Inr t"
proof -
  let ?t = "map_locks (\<lambda>l. u32 (l + 1)) (anc t n) t"
  have inv': "tree_inv ?t (add_mset n pins)" by (rule lock_ok(2) [OF inv n])
  have "unlock ?t n = Inr (map_locks (\<lambda>l. l - 1) (anc ?t n) ?t)" by (rule unlock_ok(1) [OF inv']) simp
  moreover have "anc ?t n = anc t n" by (rule same_shape_anc [OF map_locks_shape])
  moreover have "map_locks (\<lambda>l. l - 1) (anc t n) ?t = t"
  proof -
    have "map_option (nd_lock_update (\<lambda>l. l - 1)) (map_option (nd_lock_update (\<lambda>l. u32 (l + 1))) (rt_nodes t m)) = rt_nodes t m"
      if m: "m \<in> anc t n" for m
    proof (cases "rt_nodes t m")
      case (Some md)
      have "nd_lock md = size {#k \<in># pins. m \<in> anc t k#}"
        using tree_invD(2) [OF inv] Some anc_dom [OF m] by (simp add: pins_ok_def)
      then have "nd_lock md < 2 ^ 32 - 1" using size_filter_mset_lesseq [of "\<lambda>k. m \<in> anc t k" pins] n(3) by linarith
      then show ?thesis using Some by (simp add: u32_small)
    qed simp
    then show ?thesis by (auto simp: map_locks_def fun_eq_iff intro!: RadixTree.equality)
  qed
  ultimately show ?thesis by simp
qed

text \<open>\<^verbatim>\<open>lock()\<close> and \<^verbatim>\<open>unlock()\<close> are inverse: locking any node but the root succeeds, adds one to
  the lock count of exactly the nodes on its way to the root, and unlocking the same node
  afterwards restores the tree, bit for bit, as long as fewer than \<open>2 ^ 32\<close> pins
  are held.\<close>

theorem lock_unlock:
  assumes "reachable_tree bt t p pins" and "tree_allowed t p pins (Lock n)"
  shows "\<exists>t'. lock t n = Inr t' \<and> unlock t' n = Inr t
     \<and> (\<forall>m nd. rt_nodes t m = Some nd \<longrightarrow> rt_nodes t' m = Some (if m \<in> anc t n then nd\<lparr>nd_lock := nd_lock nd + 1\<rparr> else nd))"
proof -
  note D = reachable_treeD(2) [OF assms(1)]
  obtain nd where n: "rt_nodes t n = Some nd" "n \<noteq> rt_root t" "size pins + 1 < 2 ^ 32" using assms(2) by auto
  have "rt_nodes (map_locks (\<lambda>l. u32 (l + 1)) (anc t n) t) m = Some (if m \<in> anc t n then md\<lparr>nd_lock := nd_lock md + 1\<rparr> else md)"
    if m: "rt_nodes t m = Some md" for m md
  proof (cases "m \<in> anc t n")
    case True
    have "nd_lock md = size {#k \<in># pins. m \<in> anc t k#}"
      using tree_invD(2) [OF D] m anc_dom [OF True] by (simp add: pins_ok_def)
    then have "nd_lock md < 2 ^ 32 - 1" using size_filter_mset_lesseq [of "\<lambda>k. m \<in> anc t k" pins] n(3) by linarith
    then show ?thesis using True m by (simp add: map_locks_def u32_small)
  next
    case False
    then show ?thesis using m by (simp add: map_locks_def)
  qed
  then show ?thesis using lock_ok(1) [OF D n] unlock_lock [OF D n] by blast
qed

theorem lock_unlock_witness:
  "\<exists>b p t'. reachable_tree 2 (demo_tree b) p {#} \<and> lock (demo_tree b) 1 = Inr t' \<and> unlock t' 1 = Inr (demo_tree b)"
proof -
  obtain p b where p: "reachable_tree 2 (demo_tree b) p {#}" using demo_tree_reachable by metis
  have "tree_allowed (demo_tree b) p {#} (Lock 1)" by (simp add: demo_tree_def)
  then show ?thesis using lock_unlock [OF p] p by blast
qed

text \<open>An unlock that no pin accounts for is caught: if no pinned node lies at or below a
  node, unlocking it fails the assertion that guards the count against wrapping.\<close>

theorem unlock_unbalanced:
  assumes "reachable_tree bt t p pins" and "rt_nodes t n \<noteq> None" and "n \<noteq> rt_root t"
    and "\<forall>m \<in># pins. n \<notin> anc t m"
  shows "unlock t n = Inl (AssertionFailed ''unbalanced unlock'')"
proof -
  note D = reachable_treeD(1,2) [OF assms(1)]
  obtain nd where nd: "rt_nodes t n = Some nd" using assms(2) by blast
  have "{#m \<in># pins. n \<in> anc t m#} = {#}" using assms(4) by simp
  then have "nd_lock nd = 0" using tree_invD(2) [OF D(2)] nd assms(3) unfolding pins_ok_def by (metis size_empty)
  moreover obtain f where "rt_next t = Suc f" using tree_wfD(2) [OF D(1) nd] by (cases "rt_next t") simp_all
  ultimately show ?thesis using nd assms(3) by (simp add: unlock_def assertE_def)
qed

theorem unlock_unbalanced_witness:
  "\<exists>b p. reachable_tree 2 (demo_tree b) p {#} \<and> unlock (demo_tree b) 1 = Inl (AssertionFailed ''unbalanced unlock'')"
proof -
  obtain p b where p: "reachable_tree 2 (demo_tree b) p {#}" using demo_tree_reachable by metis
  show ?thesis using unlock_unbalanced [OF p, of 1] p by (auto simp: demo_tree_def)
qed

text \<open>C12. A pin protects its prefix through anything the tree does: while a node stays pinned,
  no operation, whatever it splits, adds or evicts, changes the tokens and the blocks that the
  way from the root to that node spells, and every one of those blocks stays allocated.\<close>

theorem pins_protect:
  assumes reach: "reachable_tree bt t p pins" and allowed: "tree_allowed t p pins oper"
    and exec: "tree_exec oper (t, p) = Inr (t', p')" and n: "n \<in># pins" and c: "covers t (Some n) toks bs"
  shows "covers t' (Some n) toks bs \<and> (\<forall>b \<in> set bs. 0 < rcount p' b)"
proof -
  note D = reachable_treeD [OF reach]
  have D': "tree_wf t'" "tree_refs t' p'"
    using tree_step_ok [OF reachable_tree_ok [OF reach] allowed] exec tree_invD(1) by (auto simp: tree_ok_def)
  have keep: "keeps t t' n \<and> rt_root t' = rt_root t"
  proof (cases oper)
    case (Match x)
    then show ?thesis using match_prefix_index [OF D(2), of x] exec by (auto simp: same_index_def)
  next
    case (Insert x y)
    then show ?thesis using tree_insert_result [OF D(2,3), of y x] exec allowed by auto
  next
    case (Evict k)
    then obtain j where e: "evict t p k = Inr (j, t', p')" using exec by (auto simp: result_simps)
    then have "shrunk pins t p j t' p'" using evict_ok [OF D(2-4), of k] by force
    then show ?thesis using shrunkD(4,6) n by blast
  next
    case (Lock m)
    then obtain md where "rt_nodes t m = Some md" "m \<noteq> rt_root t" "size pins + 1 < 2 ^ 32" using allowed by auto
    then show ?thesis using lock_ok(1) [OF D(2)] exec Lock same_shape_index [OF map_locks_shape]
      by (auto simp: same_index_def)
  next
    case (Unlock m)
    then show ?thesis using unlock_ok(1) [OF D(2), of m] exec allowed same_shape_index [OF map_locks_shape]
      by (auto simp: same_index_def)
  qed
  then have cov: "covers t' (Some n) toks bs" using c unfolding keeps_def covers_def by auto
  then obtain xs where xs: "chain (rt_nodes t') (rt_root t') n xs" "path_blocks (rt_nodes t') xs = bs" by (auto simp: covers_def)
  have "0 < rcount p' b" if "b \<in> set bs" for b
  proof -
    have "b \<in> set (path_blocks (rt_nodes t') xs)" using that xs(2) by simp
    then obtain m where m: "m \<in> set xs" "b \<in> set (nd_blocks (the (rt_nodes t' m)))"
      by (auto simp: path_blocks_def)
    obtain md where "rt_nodes t' m = Some md" using chain_mem [OF xs(1) m(1)] by blast
    then show ?thesis using tree_refs_node(2) [OF D'] m(2) by simp
  qed
  with cov show ?thesis by blast
qed

theorem pins_protect_witness:
  "\<exists>b p t t' p'. reachable_tree 2 t p {#1#} \<and> tree_exec (Evict 5) (t, p) = Inr (t', p')
     \<and> covers t' (Some 1) [1, 2] [b] \<and> (\<forall>b' \<in> set [b]. 0 < rcount p' b')"
proof -
  obtain p b where p: "reachable_tree 2 (demo_tree b) p {#}" using demo_tree_reachable by metis
  have al: "tree_allowed (demo_tree b) p {#} (Lock 1)" by (simp add: demo_tree_def)
  obtain t where t: "tree_exec (Lock 1) (demo_tree b, p) = Inr (t, p)"
    using tree_step_ok [OF reachable_tree_ok [OF p] al] by (auto simp: result_simps)
  have r: "reachable_tree 2 t p {#1#}" using rt_step [OF p al t] by simp
  have n1: "rt_nodes (demo_tree b) 1 = Some \<lparr>nd_tokens = [1, 2], nd_blocks = [b], nd_children = [], nd_parent = Some 0,
      nd_lock = 0, nd_last = 1\<rparr>" by (simp add: demo_tree_def)
  have "chain (rt_nodes (demo_tree b)) 0 1 [1]" using n1 ch_root by (auto intro: ch_node)
  moreover have "lock (demo_tree b) 1 = Inr t" using t by (auto simp: result_simps)
  then have s: "same_shape (demo_tree b) t"
    using lock_ok(1) [OF reachable_treeD(2) [OF p], of 1] map_locks_shape by (auto simp: demo_tree_def)
  ultimately have "covers t (Some 1) [1, 2] [b]"
    using same_shape_chain [OF s, of 1 "[1]"] same_shape_path [OF s, of "[1]"] s
    by (auto simp: covers_def demo_tree_def same_shape_def)
  moreover obtain t' p' where e: "tree_exec (Evict 5) (t, p) = Inr (t', p')"
    using tree_step_ok [OF reachable_tree_ok [OF r], of "Evict 5"] by auto
  ultimately have "covers t' (Some 1) [1, 2] [b] \<and> (\<forall>b' \<in> set [b]. 0 < rcount p' b')"
    using pins_protect [OF r _ e, of 1 "[1, 2]" "[b]"] by simp
  then show ?thesis using r e by blast
qed


subsection \<open>Shape and counters\<close>

text \<open>C35. The type of a node. In every tree that can be reached, each node but the root holds at
  least one block and exactly \<^verbatim>\<open>block_tokens\<close> tokens per block; it hangs from its parent under
  the key of its own first block; and the entries of every node's child table have distinct
  keys and point to nodes whose parent it is.\<close>

theorem node_shape:
  assumes "reachable_tree bt t p pins" and "rt_nodes t n = Some nd"
  shows "(n \<noteq> rt_root t \<longrightarrow> nd_blocks nd \<noteq> [] \<and> length (nd_tokens nd) = length (nd_blocks nd) * bt
            \<and> (\<exists>q qn. nd_parent nd = Some q \<and> rt_nodes t q = Some qn
                  \<and> map_of (nd_children qn) (block_key (nd_tokens nd) bt) = Some n))
       \<and> distinct (map fst (nd_children nd))
       \<and> (\<forall>k c. map_of (nd_children nd) k = Some c \<longrightarrow> (\<exists>cn. rt_nodes t c = Some cn \<and> nd_parent cn = Some n))"
proof -
  note D = reachable_treeD(1,5) [OF assms(1)]
  have "n \<noteq> rt_root t \<longrightarrow> body_ok t n nd" using tree_wfD(4) [OF D(1) assms(2)] by blast
  then show ?thesis
    using tree_wfD(3) [OF D(1) assms(2)] D(2) unfolding body_ok_def links_ok_def by blast
qed

theorem node_shape_witness:
  "\<exists>b p nd. reachable_tree 2 (demo_tree b) p {#} \<and> rt_nodes (demo_tree b) 1 = Some nd
     \<and> length (nd_tokens nd) = length (nd_blocks nd) * 2"
proof -
  obtain p b where p: "reachable_tree 2 (demo_tree b) p {#}" using demo_tree_reachable by metis
  obtain nd where n: "rt_nodes (demo_tree b) 1 = Some nd" by (simp add: demo_tree_def)
  have "(1::nat) \<noteq> rt_root (demo_tree b)" by (simp add: demo_tree_def)
  then show ?thesis using node_shape [OF p n] p n by blast
qed

text \<open>C36. The counters are exact: \<^verbatim>\<open>num_nodes()\<close> is the number of nodes without the root and
  \<^verbatim>\<open>stored_blocks()\<close> the number of blocks held by all nodes (modulo \<open>2 ^ 64\<close>), and the lock
  count of a node is the number of pins held at or below it.\<close>

theorem tree_counters:
  assumes "reachable_tree bt t p pins"
  shows "rt_num_nodes t = u64 (card (dom (rt_nodes t)) - 1) \<and> rt_stored_blocks t = u64 (size (tree_blocks t))
     \<and> (\<forall>n nd. rt_nodes t n = Some nd \<longrightarrow> n \<noteq> rt_root t \<longrightarrow> nd_lock nd = size {#m \<in># pins. n \<in> anc t m#})"
  using tree_invD(2,3) [OF reachable_treeD(2) [OF assms]] unfolding counts_ok_def pins_ok_def by blast

theorem tree_counters_witness:
  "\<exists>b p. reachable_tree 2 (demo_tree b) p {#} \<and> rt_stored_blocks (demo_tree b) = u64 (size (tree_blocks (demo_tree b)))"
proof -
  obtain p b where p: "reachable_tree 2 (demo_tree b) p {#}" using demo_tree_reachable by metis
  show ?thesis using tree_counters [OF p] p by blast
qed

text \<open>C37. \<^verbatim>\<open>insert()\<close> repeats the walk of \<^verbatim>\<open>match_prefix()\<close> by hand; the two are the same walk: on
  every tree, well formed or not, they stop at the same node and position, or fail with the
  same error, and leave the same tree behind.\<close>

theorem insert_walk_is_match_walk:
  "insert_loop toks limit t cur pos =
     bindE (match_loop toks limit t cur pos res) (\<lambda>(cur', pos', res', t'). Inr (cur', pos', t'))"
  by (rule insert_loop_match)

text \<open>The destructor gives everything back: it visits every node once, deletes it, and drops
  exactly the references the tree holds, so that no block stays allocated on the tree's
  account.\<close>

theorem destructor_releases_all:
  assumes "reachable_tree bt t p pins"
  shows "\<exists>p'. RadixTree_destroy t p = Inr (Map.empty, p') \<and> sys_inv p'
     \<and> rcount p' = (\<lambda>b. rcount p b - count (tree_blocks t) b)"
  by (rule RadixTree_destroy_ok [OF reachable_treeD(1,3,4) [OF assms]])

theorem destructor_releases_all_witness:
  "\<exists>b p p'. reachable_tree 2 (demo_tree b) p {#} \<and> RadixTree_destroy (demo_tree b) p = Inr (Map.empty, p')
     \<and> rcount p' = (\<lambda>b'. rcount p b' - count (tree_blocks (demo_tree b)) b')"
proof -
  obtain p b where p: "reachable_tree 2 (demo_tree b) p {#}" using demo_tree_reachable by metis
  show ?thesis using destructor_releases_all [OF p] p by blast
qed

end
