(* ===== verification/Cache_Theorems.thy ===== *)
theory Cache_Theorems
  imports Cache_History Tree_Theorems
begin

section \<open>What the cache manager guarantees\<close>

text \<open>
  The theorems about the manager, for every state that any sequence of requests, releases,
  dropped handles, engine writes and worker steps can reach, and concrete instances over the
  pool of two tiers with two blocks of two tokens each.
\<close>

subsection \<open>A small manager\<close>

lemma demo_built:
  obtains m where "CacheManager_tiered 1 demo_mem demo_specs demo_cfg opts = Inr m" and "cm_cfg m = demo_cfg" and "free0 (cm_pool m) = 2"
proof -
  obtain p where p: "BlockPool_tiered 1 demo_mem demo_specs demo_cfg = Inr p" "ts_free (bp_tiers p ! 0) = [1, 0]" using demo_pool by metis
  obtain m where "CacheManager_tiered 1 demo_mem demo_specs demo_cfg opts = Inr m" "cm_pool m = p" "cm_cfg m = demo_cfg"
    using p(1) by (simp add: CacheManager_tiered_def CacheManager_on_def RadixTree_new_def demo_cfg_def)
  then show thesis using that p(2) by (simp add: free0_def)
qed

lemma demo_manager:
  obtains m where "reachable_cache 1 demo_mem demo_specs demo_cfg Options_new m {#}" and "free0 (cm_pool m) = 2"
    and "cfg_block_tokens (cm_cfg m) = 2" and "kv m = Map.empty" and "tree_blocks (cm_tree m) = {#}"
proof -
  obtain m where m: "CacheManager_tiered 1 demo_mem demo_specs demo_cfg Options_new = Inr m" "cm_cfg m = demo_cfg" "free0 (cm_pool m) = 2"
    by (rule demo_built)
  note e = cache_init(2,3) [OF demo_specs_ok m(1)]
  show thesis by (rule that [OF rc_init [OF m(1)] _ _ e]) (simp_all add: m(2,3) demo_cfg_def)
qed

text \<open>The manager after its first request, which is served when it fits.\<close>

lemma demo_acquire:
  fixes toks :: "TokenId list"
  assumes need: "blocks_needed 2 (length toks) \<le> 2" and len: "length toks < 10"
  obtains m a where "reachable_cache 1 demo_mem demo_specs demo_cfg Options_new m {#(a, toks)#}"
    and "al_ok a" and "length (al_blocks a) = blocks_needed 2 (length toks)" and "al_cached_blocks a = 0" and "al_cached_tokens a = 0"
    and "cfg_block_tokens (cm_cfg m) = 2" and "2 \<le> free0 (cm_pool m) + length (al_blocks a)" and "tree_blocks (cm_tree m) = {#}"
proof -
  obtain m where m: "reachable_cache 1 demo_mem demo_specs demo_cfg Options_new m {#}" "free0 (cm_pool m) = 2"
    "cfg_block_tokens (cm_cfg m) = 2" "kv m = Map.empty" "tree_blocks (cm_tree m) = {#}" by (rule demo_manager)
  note D = reachable_cacheD [OF m(1) demo_specs_ok]
  have al: "cache_allowed m {#} (Acquire toks)" using len by (simp add: m(3))
  obtain a m' where a: "acquire m toks = Inr (a, m')" "acquired m {#} toks a m'" using step_acquire [OF D(1) al] by blast
  have ok: "al_ok a"
  proof (rule ccontr)
    assume "\<not> al_ok a"
    then have "refused m toks a m'" using a(2) by (simp add: acquired_def)
    then show False using m(2) need unfolding refused_def m(3) by linarith
  qed
  then have g: "granted m toks a" using a(2) by (simp add: acquired_def)
  have e: "index (cm_tree m) P = None" for P using fun_cong [OF m(4), of P] by (simp add: kv_def)
  have bl: "length (al_blocks a) = blocks_needed 2 (length toks)" "al_cached_tokens a = al_cached_blocks a * 2" "al_cached_blocks a \<le> length (al_blocks a)"
    using g unfolding granted_def m(3) Let_def by simp_all
  have "\<not> 0 < length (take (al_cached_blocks a) (al_blocks a))" using hits_entry [of "index (cm_tree m)"] g e unfolding granted_def Let_def by (metis option.distinct(1))
  then have "al_cached_blocks a = 0" using bl(3) by simp
  moreover have "reachable_cache 1 demo_mem demo_specs demo_cfg Options_new m' {#(a, toks)#}" using rc_step [OF m(1) al cs_acquire [OF a(1)]] .
  moreover have "cfg_block_tokens (cm_cfg m') = 2" "2 \<le> free0 (cm_pool m') + length (al_blocks a)" using a(2) by (simp_all add: acquired_def m(2,3))
  moreover have "tree_blocks (cm_tree m') = {#}"
    using a(2) frameD(5) [of "{#}" "{#}" "cm_tree m" "cm_pool m" "cm_tree m'" "cm_pool m'"] m(5) by (auto simp: acquired_def)
  ultimately show thesis using that [of m' a] ok bl by simp
qed

lemma demo_request:
  obtains m a where "reachable_cache 1 demo_mem demo_specs demo_cfg Options_new m {#(a, [1, 2, 3])#}"
    and "al_ok a" and "length (al_blocks a) = 2" and "al_cached_blocks a = 0" and "al_cached_tokens a = 0"
    and "cfg_block_tokens (cm_cfg m) = 2"
  by (rule demo_acquire [of "[1, 2, 3]"]) (simp_all add: blocks_needed_def)

subsection \<open>The manager is a cache\<close>

text \<open>C1. In every state a manager can reach, every call its users may make, every write of
  the engine to a fresh block and every step of a worker thread succeeds: no assertion fails,
  no block is used after it was freed, no loop is endless. Seen as a map from token
  prefixes to bytes, the cache then does what a cache may do and nothing else: a request can
  only make it forget entries, a release adds the bytes of the released handle's own
  blocks under the prefixes of the released tokens and forgets nothing, and nothing
  else changes it. So a hit never returns bytes other than those computed for that prefix.\<close>

theorem cache_refines_kv:
  assumes "specs_ok mem c specs" and "reachable_cache hw mem specs c opts m hs" and "cache_allowed m hs oper"
  shows "(\<exists>m' hs'. cache_step oper m hs m' hs')
     \<and> (\<forall>m' hs'. cache_step oper m hs m' hs' \<longrightarrow> kv_step oper m (kv m) (kv m'))"
  using cache_progress [OF _ assms(3)] cache_step_ok [OF _ assms(3)] reachable_cacheD(1) [OF assms(2,1)]
  unfolding step_ok_def by blast

theorem cache_refines_kv_witness:
  "\<exists>m a m' hs'. reachable_cache 1 demo_mem demo_specs demo_cfg Options_new m {#(a, [1, 2, 3])#} \<and> length (al_blocks a) = 2
     \<and> cache_step (Release (a, [1, 2, 3]) [1, 2, 3]) m {#(a, [1, 2, 3])#} m' hs'
     \<and> kv_step (Release (a, [1, 2, 3]) [1, 2, 3]) m (kv m) (kv m')"
proof -
  obtain m a where d: "reachable_cache 1 demo_mem demo_specs demo_cfg Options_new m {#(a, [1, 2, 3])#}" "length (al_blocks a) = 2"
    "al_cached_tokens a = 0" by (rule demo_request)
  have al: "cache_allowed m {#(a, [1, 2, 3])#} (Release (a, [1, 2, 3]) [1, 2, 3])" by (simp add: d(3) agrees_def)
  show ?thesis using cache_refines_kv [OF demo_specs_ok d(1) al] d(1,2) by blast
qed

subsection \<open>Requests\<close>

text \<open>C4. \<^verbatim>\<open>acquire()\<close> always returns. When it serves the request, the handle's table has one block
  per started group of \<^verbatim>\<open>block_tokens\<close> tokens, and its first \<^verbatim>\<open>cached_blocks\<close> are the blocks
  of the longest cached prefix, of \<^verbatim>\<open>cached_tokens\<close> tokens. It refuses only with an empty handle
  and only when fewer slots of compute memory are free than the request has blocks, in a state
  in which every unpinned leaf left in the tree is part of the request's own prefix; free
  slots are never fewer afterwards, so a request that fits is always served.\<close>

theorem acquire_correct:
  assumes "specs_ok mem c specs" and "reachable_cache hw mem specs c opts m hs" and "cache_allowed m hs (Acquire toks)"
  shows "\<exists>a m'. acquire m toks = Inr (a, m')
     \<and> (if al_ok a then granted m toks a else refused m toks a m')
     \<and> (blocks_needed (cfg_block_tokens (cm_cfg m)) (length toks) \<le> free0 (cm_pool m) \<longrightarrow> al_ok a)
     \<and> cache_inv m' (add_mset (a, toks) hs)"
proof -
  obtain a m' where a: "acquire m toks = Inr (a, m')" "acquired m hs toks a m'"
    using step_acquire [OF reachable_cacheD(1) [OF assms(2,1)] assms(3)] by blast
  then have "al_ok a" if "blocks_needed (cfg_block_tokens (cm_cfg m)) (length toks) \<le> free0 (cm_pool m)"
    using that by (auto simp: acquired_def refused_def split: if_splits)
  then show ?thesis using a by (auto simp: acquired_def)
qed

theorem acquire_correct_witness:
  "\<exists>m a m'. reachable_cache 1 demo_mem demo_specs demo_cfg Options_new m {#} \<and> acquire m [1, 2, 3] = Inr (a, m')
     \<and> al_ok a \<and> granted m [1, 2, 3] a \<and> length (al_blocks a) = 2"
proof -
  obtain m where m: "reachable_cache 1 demo_mem demo_specs demo_cfg Options_new m {#}" "free0 (cm_pool m) = 2"
    "cfg_block_tokens (cm_cfg m) = 2" by (rule demo_manager)
  have al: "cache_allowed m {#} (Acquire [1, 2, 3])" by (simp add: m(3))
  obtain a m' where "acquire m [1, 2, 3] = Inr (a, m')" "al_ok a" "granted m [1, 2, 3] a"
    using acquire_correct [OF demo_specs_ok m(1) al] m(2,3) by (auto simp: blocks_needed_def)
  then show ?thesis using m(1,3) by (auto simp: granted_def blocks_needed_def Let_def)
qed

text \<open>C7. Reference counts and pins are exact at all times: a block's count is one if the tree
  stores it, one if a handle holds it as a fresh block, and never more than one; a node's
  lock count is the number of handles whose pinned node lies at or below it. With no
  handle held, every allocated block is in the tree and no node is locked: nothing leaks.\<close>

theorem references_exact:
  assumes "specs_ok mem c specs" and "reachable_cache hw mem specs c opts m hs"
  shows "(\<forall>b. rcount (cm_pool m) b = count (tree_blocks (cm_tree m)) b + count (owned hs) b \<and> rcount (cm_pool m) b \<le> 1)
     \<and> (\<forall>n nd. rt_nodes (cm_tree m) n = Some nd \<longrightarrow> n \<noteq> rt_root (cm_tree m) \<longrightarrow>
          nd_lock nd = size {#k \<in># pins_of hs. n \<in> anc (cm_tree m) k#})
     \<and> (hs = {#} \<longrightarrow> (\<forall>b. live (cm_pool m) b \<longleftrightarrow> b \<in># tree_blocks (cm_tree m)))"
proof -
  note c = reachable_cacheD(4) [OF assms(2,1)]
  have "live (cm_pool m) b \<longleftrightarrow> b \<in># tree_blocks (cm_tree m)" if "hs = {#}" for b
    using coreD(3) [OF c, of b] that by (simp add: live_rcount)
  moreover have "nd_lock nd = size {#k \<in># pins_of hs. n \<in> anc (cm_tree m) k#}"
    if "rt_nodes (cm_tree m) n = Some nd" "n \<noteq> rt_root (cm_tree m)" for n nd
    using tree_invD(2) [OF coreD(2) [OF c]] that unfolding pins_ok_def by blast
  ultimately show ?thesis using coreD(3,4) [OF c] by blast
qed

theorem references_exact_witness:
  "\<exists>m a b. reachable_cache 1 demo_mem demo_specs demo_cfg Options_new m {#(a, [1, 2, 3])#} \<and> b \<in> set (al_blocks a)
     \<and> rcount (cm_pool m) b = count (tree_blocks (cm_tree m)) b + count (owned {#(a, [1, 2, 3])#}) b \<and> rcount (cm_pool m) b \<le> 1"
proof -
  obtain m a where d: "reachable_cache 1 demo_mem demo_specs demo_cfg Options_new m {#(a, [1, 2, 3])#}" "length (al_blocks a) = 2"
    by (rule demo_request)
  then have "al_blocks a ! 0 \<in> set (al_blocks a)" by simp
  then show ?thesis using references_exact [OF demo_specs_ok d(1)] d(1) by blast
qed


subsection \<open>Handles in use\<close>

text \<open>An event that is not a write leaves the handles that stay alone.\<close>

lemma step_shelter:
  assumes ok: "cache_ok m hs" and al: "cache_allowed m hs oper" and step: "cache_step oper m hs m' hs'"
    and h: "h \<in># hs" "h \<in># hs'" and nw: "\<And>k b bytes. oper \<noteq> Fill k b bytes"
  shows "\<exists>hs0. h \<in># hs0 \<and> set_mset hs0 \<subseteq> set_mset hs \<and> shelter (pins_of hs0) (owned hs0) (cm_tree m) (cm_pool m) (cm_tree m') (cm_pool m')"
proof -
  have inv: "cache_inv m hs" "running (cm_pool m)" using ok by (simp_all add: cache_ok_def)
  have tends: ?thesis if "tends (pins_of hs) (owned hs) m m'" using frame_shelter [OF tendsD(2) [OF that]] h(1) by blast
  show ?thesis
    using step
  proof cases
    case (cs_acquire toks a)
    then have "acquired m hs toks a m'" using step_acquire [OF ok, of toks] al by auto
    then show ?thesis using h(1) frame_shelter unfolding acquired_def by blast
  next
    case (cs_release toks' a a' toks)
    then have "given_back m hs' m'" using step_release [of m a toks hs' toks'] ok al by auto
    then show ?thesis using h(2) cs_release(2) unfolding given_back_def by auto
  next
    case (cs_drop a toks)
    then have "given_back m hs' m'" using step_drop [of m a toks hs'] ok by auto
    then show ?thesis using h(2) cs_drop(2) unfolding given_back_def by auto
  next
    case (cs_ready a toks r)
    then show ?thesis using tends ready_ok [OF inv(1), of a toks] by auto
  next
    case (cs_wait a toks)
    then show ?thesis using tends wait_ready_ok [OF _ inv(1) _ inv(2), of a m' toks] by auto
  next
    case (cs_fill b bytes p a toks)
    then show ?thesis using nw by blast
  next
    case (cs_work i p)
    then show ?thesis using tends worker_ok [OF inv, of i] al by auto
  qed
qed

text \<open>C6. While a handle is held its block table can be trusted: whatever else happens (other
  requests, evictions, demotions in the foreground and in the background, other handles
  given back, workers copying), each of its blocks stays allocated with the same count and
  the same bytes, stays in compute memory or on its way there, and the cached part of the
  table stays exactly what the pinned node stands for in the tree. Only a write by the engine
  changes bytes.\<close>

theorem held_blocks_stable:
  assumes "specs_ok mem c specs" and "reachable_cache hw mem specs c opts m hs" and "cache_allowed m hs oper"
    and "cache_step oper m hs m' hs'" and "h \<in># hs" and "h \<in># hs'" and "\<And>k b bytes. oper \<noteq> Fill k b bytes"
  shows "(\<forall>b \<in> set (al_blocks (fst h)). view (cm_pool m) b \<noteq> None \<and> view (cm_pool m') b = view (cm_pool m) b
         \<and> goal_tier (cm_pool m') b = 0)
     \<and> covers (cm_tree m') (al_pinned (fst h)) (take (al_cached_tokens (fst h)) (snd h))
         (take (al_cached_blocks (fst h)) (al_blocks (fst h)))"
proof -
  note D = reachable_cacheD [OF assms(2,1)]
  have ok': "handle_ok (cm_tree m') (cm_pool m') (fst h, snd h)"
    using cache_step_ok [OF D(1) assms(3,4)] cache_invD(3) [OF _ assms(6), of m'] by (simp add: step_ok_def cache_ok_def)
  have ok: "handle_ok (cm_tree m) (cm_pool m) h" by (rule cache_invD(3) [OF D(2) assms(5)])
  obtain hs0 where s: "h \<in># hs0" "shelter (pins_of hs0) (owned hs0) (cm_tree m) (cm_pool m) (cm_tree m') (cm_pool m')"
    using step_shelter [OF D(1) assms(3-7)] by blast
  have "view (cm_pool m) b \<noteq> None \<and> view (cm_pool m') b = view (cm_pool m) b" if b: "b \<in> set (al_blocks (fst h))" for b
  proof -
    have "0 < rcount (cm_pool m) b" using guarded_live [OF D(4) handle_guarded [OF assms(5) ok b]] .
    then have "view (cm_pool m) b \<noteq> None" by (simp add: view_def live_rcount)
    then show ?thesis using shelterD(4) [OF s(2) handle_guarded [OF s(1) ok b]] by (simp add: kept_def)
  qed
  then show ?thesis using handle_okD(6,7) [OF ok'] by blast
qed

theorem held_blocks_stable_witness:
  "\<exists>m a m' hs'. reachable_cache 1 demo_mem demo_specs demo_cfg Options_new m {#(a, [1, 2, 3])#}
     \<and> cache_step (Acquire [9]) m {#(a, [1, 2, 3])#} m' hs' \<and> length (al_blocks a) = 2
     \<and> (\<forall>b \<in> set (al_blocks a). view (cm_pool m') b = view (cm_pool m) b \<and> goal_tier (cm_pool m') b = 0)"
proof -
  obtain m a where d: "reachable_cache 1 demo_mem demo_specs demo_cfg Options_new m {#(a, [1, 2, 3])#}" "length (al_blocks a) = 2"
    "cfg_block_tokens (cm_cfg m) = 2" by (rule demo_request)
  have al: "cache_allowed m {#(a, [1, 2, 3])#} (Acquire [9])" by (simp add: d(3))
  obtain b m' where b: "acquire m [9] = Inr (b, m')" using step_acquire [OF reachable_cacheD(1) [OF d(1) demo_specs_ok] al] by blast
  note st = cs_acquire [OF b, of "{#(a, [1, 2, 3])#}"]
  show ?thesis using held_blocks_stable [OF demo_specs_ok d(1) al st, of "(a, [1, 2, 3])"] st d(1,2) by fastforce
qed

text \<open>C19. \<^verbatim>\<open>wait_ready()\<close> can always return (the workers finish what is queued, and the
  wait ends once they have, wake-ups being lost only as theory \<open>Wait_Protocol\<close> shows), and when it returns, every block
  of the table is in compute memory with no copy in flight, and no block's bytes or
  count have changed; \<^verbatim>\<open>ready()\<close> says so exactly when it is the case.\<close>

theorem wait_ready_correct:
  assumes "specs_ok mem c specs" and "reachable_cache hw mem specs c opts m hs" and "(a, toks) \<in># hs"
  shows "(\<exists>m'. wait_ready m a m')
     \<and> (\<forall>m'. wait_ready m a m' \<longrightarrow> in_compute (cm_pool m') a \<and> view (cm_pool m') = view (cm_pool m) \<and> cm_tree m' = cm_tree m)
     \<and> (\<exists>r m'. ready m a = Inr (r, m') \<and> (r \<longleftrightarrow> in_compute (cm_pool m') a) \<and> view (cm_pool m') = view (cm_pool m))"
proof -
  note D = reachable_cacheD [OF assms(2,1)]
  have "\<exists>r m'. ready m a = Inr (r, m') \<and> (r \<longleftrightarrow> in_compute (cm_pool m') a) \<and> view (cm_pool m') = view (cm_pool m)"
    using ready_ok [OF D(2) assms(3)] by blast
  then show ?thesis using wait_ready_returns [OF D(2) assms(3) D(3)] wait_ready_ok [OF _ D(2) assms(3) D(3)] by simp
qed

theorem wait_ready_correct_witness:
  "\<exists>m a m'. reachable_cache 1 demo_mem demo_specs demo_cfg Options_new m {#(a, [1, 2, 3])#} \<and> length (al_blocks a) = 2
     \<and> wait_ready m a m' \<and> in_compute (cm_pool m') a"
proof -
  obtain m a where d: "reachable_cache 1 demo_mem demo_specs demo_cfg Options_new m {#(a, [1, 2, 3])#}" "length (al_blocks a) = 2"
    by (rule demo_request)
  show ?thesis using wait_ready_correct [OF demo_specs_ok d(1), of a "[1, 2, 3]"] d by auto
qed

subsection \<open>Giving handles back\<close>

text \<open>C9. \<^verbatim>\<open>release()\<close> of a handle with tokens that agree with the request on the cached prefix
  succeeds and disarms the handle. It publishes either all whole blocks of the tokens that
  follow the longest prefix already cached, or none of them (nothing is left, or another
  block has the key); each published block keeps one reference, the tree's, and every other
  block that was the handle's own is freed, exactly once.\<close>

theorem release_correct:
  assumes "specs_ok mem c specs" and "reachable_cache hw mem specs c opts m (add_mset (a, toks) hs)"
    and "agrees (al_cached_tokens a) toks' toks" and "al_ok a"
  shows "\<exists>m' cs k. release m toks' a = Inr (disarm a, m') \<and> published m toks' a cs k (cm_tree m') (cm_pool m')
     \<and> (\<forall>b \<in> set (fresh_blocks a). rcount (cm_pool m') b = count (mset (take k (drop (length cs) (al_blocks a)))) b)
     \<and> cache_inv m' hs"
proof -
  note D = reachable_cacheD [OF assms(2,1)]
  obtain m' cs k where r: "release m toks' a = Inr (disarm a, m')" "given_back m hs m'" "published m toks' a cs k (cm_tree m') (cm_pool m')"
    using release_ok [OF D(2) assms(3,4)] by blast
  have inv: "cache_inv m' hs" using r(2) by (simp add: given_back_def)
  have "rcount (cm_pool m') b = count (mset (take k (drop (length cs) (al_blocks a)))) b" if b: "b \<in> set (fresh_blocks a)" for b
  proof -
    have "0 < count (mset (fresh_blocks a)) b" using b by simp
    then have "count (tree_blocks (cm_tree m)) b = 0" "count (owned hs) b = 0" using coreD(3,4) [OF D(4), of b]
      by (simp_all del: count_greater_zero_iff)
    moreover have "tree_blocks (cm_tree m') = tree_blocks (cm_tree m) + mset (take k (drop (length cs) (al_blocks a)))"
      using r(3) by (simp add: published_def Let_def)
    ultimately show ?thesis using coreD(3) [OF cache_invD(1) [OF inv], of b] by simp
  qed
  then show ?thesis using r(1,3) inv by blast
qed

theorem release_correct_witness:
  "\<exists>m a m' cs k. reachable_cache 1 demo_mem demo_specs demo_cfg Options_new m {#(a, [1, 2, 3])#} \<and> length (al_blocks a) = 2
     \<and> release m [1, 2, 3, 4] a = Inr (disarm a, m') \<and> published m [1, 2, 3, 4] a cs k (cm_tree m') (cm_pool m') \<and> cache_inv m' {#}"
proof -
  obtain m a where d: "reachable_cache 1 demo_mem demo_specs demo_cfg Options_new m {#(a, [1, 2, 3])#}" "al_ok a" "length (al_blocks a) = 2"
    "al_cached_tokens a = 0" by (rule demo_request)
  have "agrees (al_cached_tokens a) [1, 2, 3, 4] [1, 2, 3]" by (simp add: d(4) agrees_def)
  then show ?thesis using release_correct [OF demo_specs_ok d(1) _ d(2)] d(1,3) by blast
qed

text \<open>C15. Dropping a handle that was never released (its destructor, or another handle
  move-assigned onto it) gives back exactly its own blocks, which are freed, and its pin,
  publishes nothing and counts it as abandoned; a handle that owns nothing is dropped without
  effect. Moving a handle leaves an empty one behind, so nothing is given back twice.\<close>

theorem drop_correct:
  assumes "specs_ok mem c specs" and "reachable_cache hw mem specs c opts m (add_mset (a, toks) hs)"
  shows "\<exists>m'. Allocation_destroy m a = Inr m' \<and> cache_inv m' hs \<and> index (cm_tree m') = index (cm_tree m)
     \<and> (\<forall>(b, toks') \<in># hs. move_assign m a b = Inr (b, disarm b, m') \<and> Allocation_move b = (b, disarm b)
          \<and> Allocation_destroy m' (disarm b) = Inr m')
     \<and> rcount (cm_pool m') = (\<lambda>d. rcount (cm_pool m) d - count (mset (fresh_blocks a)) d)
     \<and> (\<forall>d \<in> set (fresh_blocks a). \<not> live (cm_pool m') d)
     \<and> cm_stats m' = (if al_ok a \<and> al_owner a then (cm_stats m)\<lparr>st_abandoned := bump (st_abandoned (cm_stats m))\<rparr> else cm_stats m)"
proof -
  note D = reachable_cacheD [OF assms(2,1)]
  obtain m' where d: "Allocation_destroy m a = Inr m'" "given_back m hs m'" "index (cm_tree m') = index (cm_tree m)"
    "rcount (cm_pool m') = (\<lambda>d. rcount (cm_pool m) d - count (mset (fresh_blocks a)) d)"
    "cm_stats m' = (if al_ok a \<and> al_owner a then (cm_stats m)\<lparr>st_abandoned := bump (st_abandoned (cm_stats m))\<rparr> else cm_stats m)"
    using destroy_ok [OF D(2)] by blast
  have mv: "move_assign m a b = Inr (b, disarm b, m')" if b: "(b, toks') \<in># hs" for b toks'
  proof -
    obtain hs0 where "hs = add_mset (b, toks') hs0" using multi_member_split [OF b] by blast
    then show ?thesis using move_assign_ok [of m a toks b toks' hs0] D(2) d(1) by auto
  qed
  have "\<not> live (cm_pool m') e" if "e \<in> set (fresh_blocks a)" for e
  proof -
    have "0 < count (mset (fresh_blocks a)) e" using that by simp
    then show ?thesis using coreD(4) [OF D(4), of e] by (simp add: live_rcount d(4) del: count_greater_zero_iff)
  qed
  moreover have "Allocation_destroy m' (disarm b) = Inr m'" for b by (simp add: Allocation_destroy_def disarm_def)
  ultimately show ?thesis using d mv move_eq unfolding given_back_def by blast
qed

theorem drop_correct_witness:
  "\<exists>m a b m'. reachable_cache 1 demo_mem demo_specs demo_cfg Options_new m {#(a, [1, 2, 3]), (b, [])#} \<and> length (al_blocks a) = 2
     \<and> Allocation_destroy m a = Inr m' \<and> cache_inv m' {#(b, [])#} \<and> move_assign m a b = Inr (b, disarm b, m')"
proof -
  obtain m a where d: "reachable_cache 1 demo_mem demo_specs demo_cfg Options_new m {#(a, [1, 2, 3])#}" "length (al_blocks a) = 2"
    "cfg_block_tokens (cm_cfg m) = 2" by (rule demo_request)
  have al: "cache_allowed m {#(a, [1, 2, 3])#} (Acquire [])" by (simp add: d(3))
  obtain b m1 where b: "acquire m [] = Inr (b, m1)" using step_acquire [OF reachable_cacheD(1) [OF d(1) demo_specs_ok] al] by blast
  have r: "reachable_cache 1 demo_mem demo_specs demo_cfg Options_new m1 (add_mset (a, [1, 2, 3]) (add_mset (b, []) {#}))"
    using rc_step [OF d(1) al cs_acquire [OF b]] by (simp add: add_mset_commute)
  show ?thesis using drop_correct [OF demo_specs_ok r] r d(2) by auto
qed


lemma published_entry:
  fixes toks' :: "TokenId list"
  assumes inv: "cache_inv m hs" and pub: "published m toks' a cs k (cm_tree m1) (cm_pool m1)" and wf: "tree_wf (cm_tree m1)"
    and free: "rt_collisions (cm_tree m1) = rt_collisions (cm_tree m)" and i: "i < insert_blocks (cm_tree m) toks' (al_blocks a)"
  defines "P \<equiv> take ((i + 1) * cfg_block_tokens (cm_cfg m)) toks'"
  shows "kv m1 P = Some (case kv m P of Some v \<Rightarrow> v | None \<Rightarrow> content (cm_pool m) (al_blocks a ! i))"
proof -
  let ?lb = "insert_blocks (cm_tree m) toks' (al_blocks a)" and ?bt = "cfg_block_tokens (cm_cfg m)"
  note bt = cache_invD(2,4) [OF inv] and R = published_parts [OF pub]
  have k: "k = ?lb - length cs"
    using pub free u64_suc_neq [of "rt_collisions (cm_tree m)"] by (auto simp: published_def Let_def split: if_splits)
  have lb: "?lb * ?bt \<le> length toks'" using insert_blocks_fit [of "cm_tree m" toks' "al_blocks a"] bt(1) by simp
  have ix: "index (cm_tree m1) P = (if length cs \<le> i then Some (al_blocks a ! i) else index (cm_tree m) P)"
    using insert_index_entry [OF bt(2) i lb, of "index (cm_tree m)" "al_blocks a" "length cs"] R(4) bt(1) by (simp add: P_def k)
  show ?thesis
  proof (cases "index (cm_tree m) P")
    case (Some b)
    then have v: "kv m P = Some (content (cm_pool m) b)" by (simp add: kv_def)
    moreover have "kv m \<subseteq>\<^sub>m kv m1" using kv_published [OF inv wf pub] by (simp add: kv_release_def)
    ultimately show ?thesis by (metis domI map_le_def option.simps(5))
  next
    case None
    have "length cs \<le> i"
    proof (rule ccontr)
      assume "\<not> length cs \<le> i"
      then have "index (cm_tree m) (take ((i + 1) * ?bt) (take (?lb * ?bt) toks')) = Some (cs ! i)"
        using hits_entry [OF R(1), of i] bt(1) by simp
      moreover have "take ((i + 1) * ?bt) (take (?lb * ?bt) toks') = P"
        using mult_le_mono1 [of "i + 1" ?lb ?bt] i by (simp add: P_def min_absorb1)
      ultimately show False using None by simp
    qed
    then have "index (cm_tree m1) P = Some (al_blocks a ! i)" using ix by simp
    then have "kv m1 P = Some (content (cm_pool m) (al_blocks a ! i))" using R(5) [OF index_block [OF wf]] by (simp add: kv_def)
    then show ?thesis using None by (simp add: kv_def)
  qed
qed

text \<open>C10. What is released is found again: after a release that met no key collision, a request
  for the same tokens that is served has at least every whole block of them cached, and the
  bytes of each are those the cache already held for that prefix or, if it held none, the
  bytes the released handle's block had.\<close>

theorem release_then_acquire:
  assumes "specs_ok mem c specs" and "reachable_cache hw mem specs c opts m (add_mset (a, toks) hs)"
    and "agrees (al_cached_tokens a) toks' toks" and "al_ok a" and "release m toks' a = Inr (a0, m1)"
    and "rt_collisions (cm_tree m1) = rt_collisions (cm_tree m)"
    and "cache_allowed m1 hs (Acquire toks')" and "acquire m1 toks' = Inr (a', m2)" and "al_ok a'"
  shows "insert_blocks (cm_tree m) toks' (al_blocks a) \<le> al_cached_blocks a'
     \<and> (\<forall>i < insert_blocks (cm_tree m) toks' (al_blocks a). content (cm_pool m2) (al_blocks a' ! i) =
          (case kv m (take ((i + 1) * cfg_block_tokens (cm_cfg m)) toks') of Some v \<Rightarrow> v
           | None \<Rightarrow> content (cm_pool m) (al_blocks a ! i)))"
proof -
  let ?lb = "insert_blocks (cm_tree m) toks' (al_blocks a)" and ?bt = "cfg_block_tokens (cm_cfg m)"
  let ?P = "\<lambda>i. take ((i + 1) * ?bt) toks'"
  note D = reachable_cacheD [OF assms(2,1)]
  obtain cs k where r: "given_back m hs m1" "published m toks' a cs k (cm_tree m1) (cm_pool m1)"
    using release_ok [OF D(2) assms(3,4)] assms(5) by auto
  have ok1: "cache_ok m1 hs" "cm_cfg m1 = cm_cfg m" using given_ok [OF D(1) r(1)] r(1) by (simp_all add: given_back_def)
  have inv1: "cache_inv m1 hs" and wf1: "tree_wf (cm_tree m1)" using ok1(1) coreD(5) cache_invD(1) unfolding cache_ok_def by blast+
  have q: "acquired m1 hs toks' a' m2" "step_ok (Acquire toks') m1 hs m2 (add_mset (a', toks') hs)"
    using step_acquire [OF ok1(1) assms(7)] assms(8) by auto
  have g: "hits (index (cm_tree m1)) ?bt toks' (take (al_cached_blocks a') (al_blocks a'))"
    "al_cached_blocks a' \<le> length (al_blocks a')" "al_cached_tokens a' = al_cached_blocks a' * ?bt"
    using q(1) assms(9) by (simp_all add: acquired_def granted_def ok1(2) Let_def)
  note ent = published_entry [OF D(2) r(2) wf1 assms(6)]
  have lb: "(i + 1) * ?bt \<le> length toks'" if "i < ?lb" for i
    using insert_blocks_fit [of "cm_tree m" toks' "al_blocks a"] cache_invD(2) [OF D(2)] mult_le_mono1 [of "i + 1" ?lb ?bt] that by simp
  have hit: "i < al_cached_blocks a'" if i: "i < ?lb" for i
  proof -
    obtain b where "index (cm_tree m1) (?P i) = Some b" using ent [OF i] by (auto simp: kv_def)
    then show ?thesis using g(1,2) lb [OF i] unfolding hits_def by auto
  qed
  have inv2: "cache_inv m2 (add_mset (a', toks') hs)" using q(2) by (simp add: step_ok_def cache_ok_def)
  have h2: "handle_ok (cm_tree m2) (cm_pool m2) (a', toks')" using cache_invD(3) [OF inv2] by simp
  have bt2: "rt_block_tokens (cm_tree m2) = ?bt" using cache_invD(2) [OF inv2] q(2) ok1(2) by (simp add: step_ok_def)
  have "content (cm_pool m2) (al_blocks a' ! i) = (case kv m (?P i) of Some v \<Rightarrow> v | None \<Rightarrow> content (cm_pool m) (al_blocks a ! i))"
    if i: "i < ?lb" for i
  proof -
    have le: "(i + 1) * ?bt \<le> al_cached_tokens a'" using hit [OF i] mult_le_mono1 [of "i + 1" "al_cached_blocks a'" ?bt] g(3) by simp
    have "index (cm_tree m2) (take ((i + 1) * ?bt) (take (al_cached_tokens a') toks')) = Some (take (al_cached_blocks a') (al_blocks a') ! i)"
      using covers_index [OF coreD(5) [OF cache_invD(1) [OF inv2]] handle_okD(6) [OF h2], of i] hit [OF i] g(2) bt2 by simp
    then have "kv m2 (?P i) = Some (content (cm_pool m2) (al_blocks a' ! i))"
      using le hit [OF i] by (simp add: kv_def min_absorb1)
    moreover have "kv m2 \<subseteq>\<^sub>m kv m1" using q(2) by (simp add: step_ok_def)
    ultimately have "kv m1 (?P i) = Some (content (cm_pool m2) (al_blocks a' ! i))" by (metis domI map_le_def)
    then show ?thesis using ent [OF i] by simp
  qed
  then show ?thesis using hit by (meson leI less_irrefl)
qed

text \<open>The first block inserted into an empty tree meets no collision.\<close>

lemma empty_no_children:
  assumes wf: "tree_wf t" and e: "tree_blocks t = {#}" and r: "rt_nodes t (rt_root t) = Some rn"
  shows "map_of (nd_children rn) key = None"
proof (rule ccontr)
  assume "map_of (nd_children rn) key \<noteq> None"
  then obtain c cn where c: "c \<noteq> rt_root t" "rt_nodes t c = Some cn" using tree_wfD(3) [OF wf r] unfolding links_ok_def by blast
  then have "nd_blocks cn \<noteq> []" using tree_wfD(4) [OF wf] by (simp add: body_ok_def)
  then show False using node_blocks [OF wf c(2)] e by simp
qed

lemma empty_no_collision:
  assumes wf: "tree_wf t" and e: "tree_blocks t = {#}" and ins: "tree_insert t p toks bs = Inr (k, t', p')"
  shows "rt_collisions t' = rt_collisions t"
proof -
  obtain rn where r: "rt_nodes t (rt_root t) = Some rn" using tree_wfD(6) [OF wf] by blast
  have "insert_loop toks limit t (rt_root t) 0 = Inr (rt_root t, 0, t)" for limit
    using empty_no_children [OF wf e r] r by (simp add: insert_loop.simps [of toks limit] node_at_def)
  then show ?thesis
    using ins empty_no_children [OF wf e r] r
    by (auto simp: tree_insert_def Let_def node_at_def result_simps elim: touch_inv split: if_splits)
qed

lemma empty_pin:
  assumes wf: "tree_wf t" and e: "tree_blocks t = {#}" and c: "covers t node P bs"
  shows "node = None"
proof (cases node)
  case (Some n)
  then obtain nd where n: "n \<noteq> rt_root t" "rt_nodes t n = Some nd" using c by (auto simp: covers_def elim: chain.cases)
  then have "nd_blocks nd \<noteq> []" using tree_wfD(4) [OF wf] by (simp add: body_ok_def)
  then show ?thesis using node_blocks [OF wf n(2)] e by simp
qed

lemma maintain_tree: "maintain m = Inr m' \<Longrightarrow> cm_tree m' = cm_tree m"
proof -
  have "demote_async vs m = Inr m' \<Longrightarrow> cm_tree m' = cm_tree m" for vs m
    by (auto simp: demote_async_eq result_simps)
  then show "maintain m = Inr m' \<Longrightarrow> cm_tree m' = cm_tree m"
    by (auto simp: maintain_def result_simps Let_def split: if_splits)
qed

theorem release_then_acquire_witness:
  "\<exists>m a a0 m1 a' m2. reachable_cache 1 demo_mem demo_specs demo_cfg Options_new m {#(a, [1, 2])#}
     \<and> release m [1, 2] a = Inr (a0, m1) \<and> acquire m1 [1, 2] = Inr (a', m2) \<and> 1 \<le> al_cached_blocks a'
     \<and> content (cm_pool m2) (al_blocks a' ! 0) = content (cm_pool m) (al_blocks a ! 0)"
proof -
  obtain m a where d: "reachable_cache 1 demo_mem demo_specs demo_cfg Options_new m {#(a, [1, 2])#}" "al_ok a" "length (al_blocks a) = 1"
    "al_cached_tokens a = 0" "cfg_block_tokens (cm_cfg m) = 2" "2 \<le> free0 (cm_pool m) + length (al_blocks a)" "tree_blocks (cm_tree m) = {#}"
    by (rule demo_acquire [of "[1, 2]"]) (simp_all add: blocks_needed_def)
  note D = reachable_cacheD [OF d(1) demo_specs_ok]
  have wf: "tree_wf (cm_tree m)" by (rule coreD(5) [OF D(4)])
  have ag: "agrees (al_cached_tokens a) [1, 2] [1, 2]" by (simp add: agrees_def d(4))
  obtain m1 where r: "release m [1, 2] a = Inr (disarm a, m1)" "given_back m {#} m1" "free0 (cm_pool m) \<le> free0 (cm_pool m1)"
    using release_ok [OF D(2) ag d(2)] by blast
  have "al_pinned a = None"
    using empty_pin [OF wf d(7) handle_okD(6) [OF cache_invD(3) [OF D(2), of "(a, [1, 2])"]]] by simp
  then have col: "rt_collisions (cm_tree m1) = rt_collisions (cm_tree m)"
    using r(1) d(2) empty_no_collision [OF wf d(7)]
    by (auto simp: release_def drop_fresh_def unpin_def result_simps dest!: maintain_tree)
  have al: "cache_allowed m1 {#} (Acquire [1, 2])" using r(2) d(5) by (simp add: given_back_def)
  have ok1: "cache_ok m1 {#}" by (rule given_ok [OF D(1) r(2)])
  obtain a' m2 where q: "acquire m1 [1, 2] = Inr (a', m2)" "acquired m1 {#} [1, 2] a' m2" using step_acquire [OF ok1 al] by blast
  have "al_ok a'"
  proof (rule ccontr)
    assume "\<not> al_ok a'"
    then have "refused m1 [1, 2] a' m2" using q(2) by (simp add: acquired_def)
    moreover have "cfg_block_tokens (cm_cfg m1) = 2" using r(2) d(5) by (simp add: given_back_def)
    ultimately show False using r(3) d(3,6) by (simp add: refused_def blocks_needed_def)
  qed
  then have res: "insert_blocks (cm_tree m) [1, 2] (al_blocks a) \<le> al_cached_blocks a'
     \<and> (\<forall>i < insert_blocks (cm_tree m) [1, 2] (al_blocks a). content (cm_pool m2) (al_blocks a' ! i) =
          (case kv m (take ((i + 1) * cfg_block_tokens (cm_cfg m)) [1, 2]) of Some v \<Rightarrow> v | None \<Rightarrow> content (cm_pool m) (al_blocks a ! i)))"
    using release_then_acquire [OF demo_specs_ok d(1) ag d(2) r(1) col al q(1)] by blast
  have one: "insert_blocks (cm_tree m) [1, 2] (al_blocks a) = 1" using cache_invD(2) [OF D(2)] d(3,5) by (simp add: insert_blocks_def)
  have "kv m P = None" for P using index_block [OF wf, of P] d(7) by (cases "index (cm_tree m) P") (auto simp: kv_def)
  then have "1 \<le> al_cached_blocks a'" "content (cm_pool m2) (al_blocks a' ! 0) = content (cm_pool m) (al_blocks a ! 0)"
    using res one by simp_all
  then show ?thesis using d(1) r(1) q(1) by blast
qed

end
