(* ===== verification/Cache_Pool.thy ===== *)
theory Cache_Pool
  imports Cache_History
begin

section \<open>The manager as a client of the pool\<close>

text \<open>
  The manager and the tree reach the pool through its operations only. The locale
  \<open>pool_client\<close> has what such a client may assume of a property of pools: that every
  allowed operation keeps it, except perhaps a background promotion (\<open>prom\<close> says whether
  that one is included); its lemmas lift the property to every operation of the tree and
  of the manager. A call that returned was allowed, because the pool checks its
  arguments; only the 32-bit reference count is not checked, so \<^verbatim>\<open>insert()\<close> needs the
  manager's invariant. One interpretation takes the property to be reachability of the
  pool itself; the other, for managers without \<^verbatim>\<open>async_promotion\<close>, that no job is bound for
  compute memory.
\<close>

subsection \<open>Calls that return were allowed\<close>

lemma decref_allowed: "decref p b = Inr r \<Longrightarrow> live p b"
  by (auto simp: decref_def live_def result_simps split: if_splits)

lemma locate_allowed: "locate p b = Inr l \<Longrightarrow> live p b"
  by (auto simp: locate_def live_def result_simps split: if_splits)

lemma cancel_fields: "cancel_migration p b = Inr q \<Longrightarrow> live q c = live p c \<and> bp_tiers q = bp_tiers p"
  by (auto simp: cancel_migration_def live_def result_simps split: option.splits)

lemma migrate_allowed:
  assumes "migrate p b t = Inr r"
  shows "live p b \<and> t < num_tiers p"
proof -
  obtain q l where "cancel_migration p b = Inr q" "locate q b = Inr l" "t < length (bp_tiers q)"
    using assms by (auto simp: migrate_def result_simps split: if_splits)
  then show ?thesis using cancel_fields [of p b q b] locate_allowed [of q b l] by (simp add: num_tiers_def)
qed

lemma migrate_async_allowed: "migrate_async p b t = Inr r \<Longrightarrow> live p b \<and> t < num_tiers p"
  using locate_allowed by (auto simp: migrate_async_def num_tiers_def result_simps split: if_splits)

lemma incref_allowed: "incref p b = Inr p' \<Longrightarrow> live p b"
  by (auto simp: incref_def live_def result_simps split: if_splits)

lemma incref_rcount: "incref p b = Inr p' \<Longrightarrow> rcount p b + 1 < 2 ^ 32 \<Longrightarrow> rcount p' = (rcount p)(b := rcount p b + 1)"
  by (auto simp: incref_def rcount_def fun_eq_iff result_simps u32_small nth_list_update split: if_splits)

lemma worker_allowed: "worker_step i p = Inr p' \<Longrightarrow> i < length (bp_workers p)"
  by (auto simp: worker_step_def result_simps)

subsection \<open>Lifting\<close>

definition suits :: "(BlockPool \<Rightarrow> bool) \<Rightarrow> bool \<Rightarrow> CacheManager \<Rightarrow> bool" where
  "suits Q prom m \<longleftrightarrow> Q (cm_pool m) \<and> (op_async_promotion (cm_options m) \<longrightarrow> prom)"

locale pool_client =
  fixes Q :: "BlockPool \<Rightarrow> bool" and prom :: bool
  assumes exec: "Q p \<Longrightarrow> op_allowed p oper \<Longrightarrow> prom \<or> (\<forall>b. oper \<noteq> MigrateAsync b 0) \<Longrightarrow> pool_exec oper p = Inr p' \<Longrightarrow> Q p'"
begin

lemma drain: "drain_migrations p = Inr p' \<Longrightarrow> Q p \<Longrightarrow> Q p'"
  using exec [of p Drain] by simp

lemma cancel: "cancel_migration p b = Inr p' \<Longrightarrow> Q p \<Longrightarrow> Q p'"
  using exec [of p "Cancel b"] by simp

lemma alloc: "allocate p = Inr (b, p') \<Longrightarrow> Q p \<Longrightarrow> Q p'"
  using exec [of p Alloc] by simp

lemma dec: "decref p b = Inr (d, p') \<Longrightarrow> Q p \<Longrightarrow> Q p'"
  using exec [of p "Decref b"] decref_allowed by simp

lemma move: "migrate p b t = Inr (r, p') \<Longrightarrow> Q p \<Longrightarrow> Q p'"
  using exec [of p "Migrate b t"] migrate_allowed by simp

lemma move_async: "migrate_async p b t = Inr (r, p') \<Longrightarrow> Q p \<Longrightarrow> prom \<or> t \<noteq> 0 \<Longrightarrow> Q p'"
  using exec [of p "MigrateAsync b t"] migrate_async_allowed by simp

lemma work: "worker_step i p = Inr p' \<Longrightarrow> Q p \<Longrightarrow> Q p'"
  using exec [of p "Worker i"] worker_allowed by simp

lemma works: "worker_steps p p' \<Longrightarrow> Q p \<Longrightarrow> Q p'"
  by (induction rule: worker_steps.induct) (auto intro: work)

lemma waits: "wait_for_migrations p p' \<Longrightarrow> Q p \<Longrightarrow> Q p'"
  by (erule wait_for_migrations.cases) (blast intro: works drain)

lemma increfs: "foldE (\<lambda>b q. incref q b) bs p = Inr p' \<Longrightarrow> \<forall>b. rcount p b + count (mset bs) b < 2 ^ 32 \<Longrightarrow> Q p \<Longrightarrow> Q p'"
proof (induction bs arbitrary: p)
  case (Cons b bs)
  then obtain q where q: "incref p b = Inr q" "foldE (\<lambda>b q. incref q b) bs q = Inr p'" by (auto simp: result_simps)
  have room: "rcount p b + 1 < 2 ^ 32" using Cons.prems(2) [rule_format, of b] by simp
  have "bp_refcount p ! b = rcount p b" using incref_allowed [OF q(1)] by (simp add: rcount_def live_def)
  then have "Q q" using exec [of p "Incref b" q] q(1) incref_allowed [OF q(1)] room Cons.prems(3) by simp
  moreover have "rcount q c + count (mset bs) c < 2 ^ 32" for c
    using Cons.prems(2) [rule_format, of c] incref_rcount [OF q(1) room] by (auto split: if_splits)
  ultimately show ?case using Cons.IH [OF q(2)] by blast
qed simp

text \<open>The tree.\<close>

lemma releases: "release_blocks bs p = Inr p' \<Longrightarrow> Q p \<Longrightarrow> Q p'"
  unfolding release_blocks_def by (erule foldE_invariant) (auto simp: result_simps intro: dec)

lemma drops: "drop_leaf t p v = Inr (k, t', p') \<Longrightarrow> Q p \<Longrightarrow> Q p'"
proof -
  have fold: "Q p1" if f: "foldE count_decref bs (n, p) = Inr (k, p1)" and q: "Q p" for bs n k p1
  proof -
    have "Q (snd (k, p1))" by (rule foldE_invariant [OF f]) (use q in \<open>auto simp: count_decref_def result_simps intro: dec\<close>)
    then show ?thesis by simp
  qed
  show "drop_leaf t p v = Inr (k, t', p') \<Longrightarrow> Q p \<Longrightarrow> Q p'"
    by (auto simp: drop_leaf_def result_simps Let_def split: option.splits intro: fold)
qed

lemma evict_loops: "evict_loop fuel want t p freed rejected = Inr (k, t', p') \<Longrightarrow> Q p \<Longrightarrow> Q p'"
proof (induction fuel arbitrary: t p freed rejected)
  case (Suc fuel)
  from Suc.prems show ?case by (auto simp: result_simps split: if_splits option.splits intro: Suc.IH drops)
qed (auto split: if_splits)

lemma evicts: "evict t p want = Inr (k, t', p') \<Longrightarrow> Q p \<Longrightarrow> Q p'"
  unfolding evict_def by (rule evict_loops)

lemma inserts:
  assumes i: "tree_insert t p toks bs = Inr (k, t', p')" and ready: "insert_ready t p bs" and q: "Q p"
  shows "Q p'"
proof -
  have room: "\<forall>b. rcount p b + count (mset (drop x (take y bs))) b < 2 ^ 32" for x y
  proof
    fix b
    have "count (mset (drop x (take y bs))) b \<le> count (mset bs) b"
      by (metis append_take_drop_id count_union le_add1 le_add2 mset_append order_trans)
    then show "rcount p b + count (mset (drop x (take y bs))) b < 2 ^ 32"
      using ready unfolding insert_ready_def by (meson add_left_mono le_less_trans)
  qed
  show ?thesis using i q by (auto simp: tree_insert_def result_simps Let_def split: if_splits intro: increfs [OF _ room])
qed

text \<open>The manager.\<close>

lemma demotes: "demote_async vs m = Inr m' \<Longrightarrow> suits Q prom m \<Longrightarrow> suits Q prom m'"
  "demote_sync vs m = Inr m' \<Longrightarrow> suits Q prom m \<Longrightarrow> suits Q prom m'"
proof -
  have all: "move_all mv bs n p = Inr (k, p') \<Longrightarrow> (\<And>p b r p'. mv p b = Inr (r, p') \<Longrightarrow> Q p \<Longrightarrow> Q p') \<Longrightarrow> Q p \<Longrightarrow> Q p'" for mv bs n p k p'
    by (induction bs arbitrary: n p) (auto simp: result_simps split: if_splits)
  show "demote_async vs m = Inr m' \<Longrightarrow> suits Q prom m \<Longrightarrow> suits Q prom m'"
    "demote_sync vs m = Inr m' \<Longrightarrow> suits Q prom m \<Longrightarrow> suits Q prom m'"
    by (auto simp: demote_async_eq demote_sync_eq result_simps suits_def intro: all move move_async)
qed

lemma maintains: "maintain m = Inr m' \<Longrightarrow> suits Q prom m \<Longrightarrow> suits Q prom m'"
  by (auto simp: maintain_def result_simps Let_def split: if_splits dest!: demotes(1)) (simp_all add: suits_def)

lemma keeps_all: "foldE keep_block bs p = Inr p' \<Longrightarrow> Q p \<Longrightarrow> Q p'"
  by (erule foldE_invariant) (auto simp: keep_block_def result_simps split: if_splits intro: cancel)

lemma matches: "acquire_match m toks = Inr (a, m') \<Longrightarrow> suits Q prom m \<Longrightarrow> suits Q prom m'"
  by (auto simp: acquire_match_def result_simps suits_def dest!: drain keeps_all)

lemma evict_untils: "evict_until fuel demand m = Inr m' \<Longrightarrow> suits Q prom m \<Longrightarrow> suits Q prom m'"
proof (induction fuel arbitrary: m)
  case 0
  then show ?case by (auto simp: evict_until.simps result_simps split: if_splits)
next
  case (Suc fuel)
  from Suc.prems show ?case
    by (subst (asm) evict_until.simps) (auto simp: result_simps suits_def split: if_splits intro: evicts dest!: Suc.IH)
qed

lemma rooms: "acquire_room demand m = Inr m' \<Longrightarrow> suits Q prom m \<Longrightarrow> suits Q prom m'"
  by (auto simp: acquire_room_def result_simps split: if_splits dest!: demotes(2) evict_untils) (simp_all add: suits_def)

lemma promotes: "promote_block b m = Inr m' \<Longrightarrow> suits Q prom m \<Longrightarrow> suits Q prom m'"
  by (auto simp: promote_block_def result_simps suits_def split: if_splits dest: move move_async)

lemma freshes: "allocate_fresh n p bs = Inr (bs', p') \<Longrightarrow> Q p \<Longrightarrow> Q p'"
  by (induction n arbitrary: p bs) (auto simp: result_simps dest: alloc)

lemma takes:
  assumes "acquire_take a fresh n m = Inr (a', m')" and "suits Q prom m"
  shows "suits Q prom m'"
proof -
  obtain m1 bs p m2 where s: "foldE promote_block (al_blocks a) m = Inr m1" "allocate_fresh fresh (cm_pool m1) (al_blocks a) = Inr (bs, p)"
    "maintain m2 = Inr m'" "cm_pool m2 = p" "cm_options m2 = cm_options m1" using assms(1) by (fastforce simp: acquire_take_def result_simps Let_def)
  have "suits Q prom m1" using foldE_invariant [OF s(1), of "suits Q prom"] assms(2) promotes by blast
  then have "suits Q prom m2" using freshes [OF s(2)] s(4,5) by (simp add: suits_def)
  then show ?thesis by (rule maintains [OF s(3)])
qed

lemma unpins: "unpin n m = Inr m' \<Longrightarrow> suits Q prom m \<Longrightarrow> suits Q prom m'"
  by (auto simp: unpin_def result_simps suits_def split: option.splits)

lemma stats_suits [simp]: "suits Q prom (m\<lparr>cm_stats := st\<rparr>) = suits Q prom m"
  by (simp add: suits_def)

lemma acquires: "acquire m toks = Inr (a, m') \<Longrightarrow> suits Q prom m \<Longrightarrow> suits Q prom m'"
  by (auto simp: acquire_def result_simps Let_def split: if_splits dest!: matches rooms takes unpins)

lemma abandons: "abandon m a = Inr (a', m') \<Longrightarrow> suits Q prom m \<Longrightarrow> suits Q prom m'"
  by (auto simp: abandon_def drop_fresh_def result_simps dest!: releases unpins) (simp_all add: suits_def)

lemma destroys: "Allocation_destroy m a = Inr m' \<Longrightarrow> suits Q prom m \<Longrightarrow> suits Q prom m'"
  by (auto simp: Allocation_destroy_def result_simps split: if_splits dest: abandons)

lemma readies: "ready m a = Inr (r, m') \<Longrightarrow> suits Q prom m \<Longrightarrow> suits Q prom m'"
  by (auto simp: ready_def result_simps suits_def split: if_splits dest: drain)

lemma wait_readies: "wait_ready m a m' \<Longrightarrow> suits Q prom m \<Longrightarrow> suits Q prom m'"
proof (induction rule: wait_ready.induct)
  case (wr_wait m a m1 p m')
  have "suits Q prom m1" by (rule readies [OF wr_wait.hyps(1) wr_wait.prems])
  then have "suits Q prom (m1\<lparr>cm_pool := p\<rparr>)" using waits [OF wr_wait.hyps(2)] by (simp add: suits_def)
  then show ?case by (rule wr_wait.IH)
qed (rule readies)

lemma gives_back:
  assumes r: "release m toks a = Inr (a', m')" and ready: "al_ok a \<Longrightarrow> insert_ready (cm_tree m) (cm_pool m) (al_blocks a)"
    and q: "suits Q prom m"
  shows "suits Q prom m'"
proof (cases "al_ok a")
  case True
  obtain k t p p1 m2 p3 where s: "tree_insert (cm_tree m) (cm_pool m) toks (al_blocks a) = Inr (k, t, p)"
    "release_blocks (drop (al_cached_blocks a) (al_blocks a)) p = Inr p1" "unpin (al_pinned a) (m\<lparr>cm_tree := t, cm_pool := p1\<rparr>) = Inr m2"
    "drain_migrations (cm_pool m2) = Inr p3" "maintain (m2\<lparr>cm_pool := p3\<rparr>) = Inr m'"
    using r True by (auto simp: release_def drop_fresh_def result_simps)
  have "suits Q prom (m\<lparr>cm_tree := t, cm_pool := p1\<rparr>)" using q inserts [OF s(1) ready [OF True]] releases [OF s(2)] by (simp add: suits_def)
  then have "suits Q prom (m2\<lparr>cm_pool := p3\<rparr>)" using unpins [OF s(3)] drain [OF s(4)] by (simp add: suits_def)
  then show ?thesis by (rule maintains [OF s(5)])
qed (use r q in \<open>simp add: release_def\<close>)

text \<open>Any event.\<close>

lemma steps:
  assumes ok: "cache_ok m hs" and al: "cache_allowed m hs oper" and step: "cache_step oper m hs m' hs'" and q: "suits Q prom m"
  shows "suits Q prom m'"
  using step
proof cases
  case (cs_acquire toks a)
  then show ?thesis using acquires q by blast
next
  case (cs_release toks' a a' toks)
  note inv = ok [unfolded cache_ok_def cs_release(2), THEN conjunct1]
  have "insert_ready (cm_tree m) (cm_pool m) (al_blocks a)"
    by (rule release_ready [OF cache_invD(1) [OF inv], of a toks]) (simp_all add: cache_invD(3) [OF inv])
  then show ?thesis using gives_back [OF cs_release(3) _ q] by blast
next
  case (cs_drop a toks)
  then show ?thesis using destroys q by blast
next
  case (cs_ready a toks r)
  then show ?thesis using readies q by blast
next
  case (cs_wait a toks)
  then show ?thesis using wait_readies q by blast
next
  case (cs_fill b bytes p a toks)
  note inv = ok [unfolded cache_ok_def, THEN conjunct1]
  have h: "(a, toks) \<in># hs" "b \<in> set (fresh_blocks a)" "\<not> migrating (cm_pool m) b" "length bytes = block_bytes (bp_cfg (cm_pool m))"
    using al cs_fill by simp_all
  have "live (cm_pool m) b"
    using guarded_live [OF cache_invD(1) [OF inv] handle_guarded [OF h(1) cache_invD(3) [OF inv h(1)]]] h(2)
    by (auto simp: live_rcount fresh_blocks_def dest: in_set_dropD)
  then show ?thesis using exec [of "cm_pool m" "Write b bytes" p] q cs_fill h by (simp add: suits_def)
next
  case (cs_work i p)
  then show ?thesis using work q by (simp add: suits_def)
qed

end

subsection \<open>The manager keeps the pool's contract\<close>

interpretation reach: pool_client "reachable_pool hw mem c specs" True for hw mem c specs
  by unfold_locales (rule rp_step)

lemma manager_pool:
  assumes "reachable_cache hw mem specs c opts m hs" and "specs_ok mem c specs"
  shows "reachable_pool hw mem c specs (cm_pool m)"
proof -
  have "suits (reachable_pool hw mem c specs) True m" using assms(1)
  proof (induction rule: reachable_cache.induct)
    case (rc_init m)
    then show ?case by (auto simp: suits_def CacheManager_tiered_def CacheManager_on_def result_simps intro: reachable_pool.rp_init)
  next
    case (rc_step m hs oper m' hs')
    then show ?case using reach.steps [OF reachable_cacheD(1) [OF rc_step.hyps(1) assms(2)]] by blast
  qed
  then show ?thesis by (simp add: suits_def)
qed

text \<open>Without background promotion no job reserves a slot of compute memory.\<close>

definition outbound :: "BlockPool \<Rightarrow> bool" where
  "outbound p \<longleftrightarrow> 0 \<notin> set (map job_dst_tier (bp_jobs p))"

lemma dst_upd: "map job_dst_tier (upd_job q (\<lambda>j. j\<lparr>job_cancelled := True\<rparr>) js) = map job_dst_tier js"
  "map job_dst_tier (upd_job q (\<lambda>j. j\<lparr>job_done := True\<rparr>) js) = map job_dst_tier js"
  by (simp_all add: upd_job_def)

lemma cancel_outbound: "cancel_migration p b = Inr p' \<Longrightarrow> map job_dst_tier (bp_jobs p') = map job_dst_tier (bp_jobs p)"
  by (auto simp: cancel_migration_def dst_upd result_simps split: option.splits simp del: map_eq_conv)

lemma copy_outbound: "copy_block p src dst n = Inr p' \<Longrightarrow> bp_jobs p' = bp_jobs p"
  by (auto simp: copy_block_def result_simps split: if_splits)

lemma decref_outbound: "decref p b = Inr (r, p') \<Longrightarrow> map job_dst_tier (bp_jobs p') = map job_dst_tier (bp_jobs p)"
  by (auto simp: decref_def Let_def result_simps simp del: map_eq_conv split: if_splits dest!: cancel_outbound)

lemma migrate_outbound: "migrate p b t = Inr (r, p') \<Longrightarrow> map job_dst_tier (bp_jobs p') = map job_dst_tier (bp_jobs p)"
  by (auto simp: migrate_def Let_def result_simps simp del: map_eq_conv split: if_splits dest!: cancel_outbound copy_outbound)

lemma drain_outbound:
  assumes "drain_migrations p = Inr p'" and "outbound p"
  shows "outbound p'"
proof (cases "bp_jobs p = []")
  case False
  let ?q = "p\<lparr>bp_jobs := dropWhile job_done (bp_jobs p),
             bp_next_unclaimed := sub64 (bp_next_unclaimed p) (length (takeWhile job_done (bp_jobs p)))\<rparr>"
  have q: "outbound ?q" using assms(2) by (auto simp: outbound_def dest: set_dropWhileD)
  have "foldE drain_one (takeWhile job_done (bp_jobs p)) ?q = Inr p'" using assms(1) False by (simp add: drain_migrations_def Let_def)
  then show ?thesis by (rule foldE_invariant [where P = outbound, OF _ q]) (auto simp: drain_one_def result_simps outbound_def split: if_splits)
qed (use assms in \<open>simp add: drain_migrations_def\<close>)

lemma worker_outbound: "worker_step i p = Inr p' \<Longrightarrow> map job_dst_tier (bp_jobs p') = map job_dst_tier (bp_jobs p)"
  by (auto simp: worker_step_def set_worker_def dst_upd result_simps simp del: map_eq_conv split: worker.splits if_splits)

lemma exec_outbound:
  assumes x: "pool_exec oper p = Inr p'" and o: "outbound p" and np: "\<forall>b. oper \<noteq> MigrateAsync b 0"
  shows "outbound p'"
proof (cases oper)
  case Alloc
  then show ?thesis using x o by (auto simp: allocate_def Let_def result_simps outbound_def split: if_splits)
next
  case (Incref b)
  then show ?thesis using x o by (auto simp: incref_def result_simps outbound_def split: if_splits)
next
  case (Decref b)
  then show ?thesis using x o by (auto simp: result_simps outbound_def simp del: set_map dest!: decref_outbound)
next
  case (Cancel b)
  then show ?thesis using x o cancel_outbound [of p b p'] by (simp add: outbound_def del: set_map)
next
  case (Migrate b t)
  then show ?thesis using x o by (auto simp: result_simps outbound_def simp del: set_map dest!: migrate_outbound)
next
  case (MigrateAsync b t)
  then show ?thesis using x o np by (auto simp: migrate_async_def ensure_worker_def Let_def result_simps outbound_def split: if_splits)
next
  case Drain
  then show ?thesis using x o drain_outbound by simp
next
  case (Write b bs)
  then show ?thesis using x o by (auto simp: write_block_def result_simps outbound_def split: option.splits)
next
  case (Worker i)
  then show ?thesis using x o worker_outbound [of i p p'] by (simp add: outbound_def del: set_map)
qed

interpretation outward: pool_client outbound False
  by unfold_locales (simp add: exec_outbound)

lemma manager_outbound:
  assumes "reachable_cache hw mem specs c opts m hs" and "specs_ok mem c specs" and "\<not> op_async_promotion opts"
  shows "outbound (cm_pool m)"
proof -
  have "suits outbound False m" using assms(1)
  proof (induction rule: reachable_cache.induct)
    case (rc_init m)
    obtain q where "pool_init hw mem c specs = Inr q" "bp_jobs q = []" using pool_init_ok [OF assms(2), of hw] by metis
    then show ?case using rc_init assms(3) by (auto simp: suits_def outbound_def CacheManager_tiered_def BlockPool_tiered_def CacheManager_on_def result_simps)
  next
    case (rc_step m hs oper m' hs')
    then show ?case using outward.steps [OF reachable_cacheD(1) [OF rc_step.hyps(1) assms(2)]] by blast
  qed
  then show ?thesis by (simp add: suits_def)
qed

subsection \<open>Geometry\<close>

text \<open>The number of tiers and of slots in each never change.\<close>

definition sizes :: "BlockPool \<Rightarrow> nat list" where
  "sizes p = map ts_num_blocks (bp_tiers p)"

lemma push_sizes: "push_free tss t x = Inr tss' \<Longrightarrow> map ts_num_blocks tss' = map ts_num_blocks tss"
  by (auto simp: push_free_def result_simps pushed_static [unfolded pushed_def])

lemma cancel_sizes: "cancel_migration p b = Inr p' \<Longrightarrow> bp_tiers p' = bp_tiers p"
  by (auto simp: cancel_migration_def result_simps split: option.splits)

lemma copy_sizes: "copy_block p src dst n = Inr p' \<Longrightarrow> bp_tiers p' = bp_tiers p"
  by (auto simp: copy_block_def result_simps split: if_splits)

lemma migrate_sizes: "migrate p b t = Inr (r, p') \<Longrightarrow> sizes p' = sizes p"
  by (auto simp: sizes_def migrate_def Let_def result_simps split: if_splits dest!: cancel_sizes copy_sizes push_sizes)

lemma async_sizes: "migrate_async p b t = Inr (r, p') \<Longrightarrow> sizes p' = sizes p"
  by (auto simp: sizes_def migrate_async_def ensure_worker_def Let_def result_simps split: if_splits)

lemma decref_sizes: "decref p b = Inr (r, p') \<Longrightarrow> sizes p' = sizes p"
  by (auto simp: sizes_def decref_def Let_def result_simps split: if_splits dest!: cancel_sizes push_sizes)

lemma drain_sizes:
  assumes "drain_migrations p = Inr p'"
  shows "sizes p' = sizes p"
proof (cases "bp_jobs p = []")
  case False
  let ?q = "p\<lparr>bp_jobs := dropWhile job_done (bp_jobs p),
             bp_next_unclaimed := sub64 (bp_next_unclaimed p) (length (takeWhile job_done (bp_jobs p)))\<rparr>"
  have "foldE drain_one (takeWhile job_done (bp_jobs p)) ?q = Inr p'" using assms False by (simp add: drain_migrations_def Let_def)
  then show ?thesis
    by (rule foldE_invariant) (auto simp: sizes_def drain_one_def result_simps split: if_splits dest!: push_sizes)
qed (use assms in \<open>simp add: drain_migrations_def\<close>)

lemma worker_sizes: "worker_step i p = Inr p' \<Longrightarrow> sizes p' = sizes p"
  by (auto simp: sizes_def worker_step_def set_worker_def result_simps split: worker.splits if_splits)

lemma exec_sizes: "pool_exec oper p = Inr p' \<Longrightarrow> sizes p' = sizes p"
proof (cases oper)
  case Alloc
  then show "pool_exec oper p = Inr p' \<Longrightarrow> sizes p' = sizes p"
    by (auto simp: sizes_def allocate_def Let_def result_simps split: if_splits)
next
  case (Incref b)
  then show "pool_exec oper p = Inr p' \<Longrightarrow> sizes p' = sizes p"
    by (auto simp: sizes_def incref_def result_simps split: if_splits)
next
  case (Write b bs)
  then show "pool_exec oper p = Inr p' \<Longrightarrow> sizes p' = sizes p"
    by (auto simp: sizes_def write_block_def result_simps split: option.splits)
next
  case (Cancel b)
  then show "pool_exec oper p = Inr p' \<Longrightarrow> sizes p' = sizes p" by (simp add: cancel_sizes sizes_def)
qed (auto simp: result_simps dest: migrate_sizes async_sizes decref_sizes drain_sizes worker_sizes)

lemma reachable_sizes:
  assumes "reachable_pool hw mem c specs p" and "specs_ok mem c specs"
  shows "sizes p = map spec_num_blocks specs"
  using assms(1)
proof (induction rule: reachable_pool.induct)
  case (rp_init p)
  obtain q where "pool_init hw mem c specs = Inr q" "bp_tiers q = map tier_of_spec specs" using pool_init_ok [OF assms(2), of hw] by metis
  then show ?case using rp_init by (simp add: BlockPool_tiered_def sizes_def tier_of_spec_def)
next
  case (rp_step p oper p')
  then show ?case using exec_sizes by metis
qed

end
