(* ===== verification/Cache_Capacity.thy ===== *)
theory Cache_Capacity
  imports Cache_System
begin

section \<open>How much of compute memory a request can use\<close>

text \<open>
  Why \<^verbatim>\<open>acquire()\<close> says no. \<open>slots_eq\<close> accounts for every slot of a tier; \<open>all_guarded\<close> shows
  that once eviction finds no unpinned leaf, every allocated block belongs to the table of
  some handle or to the prefix of the request at hand; \<open>refused_full\<close> puts both together.
  \<open>stale\<close> counts the destinations of cancelled copies, which come back only when the job
  is drained; \<open>table_blocks\<close> are the blocks in the tables of the handles in use;
  \<open>staying\<close> are the blocks that live in a tier or are on their way to it.
\<close>

definition stale :: "BlockPool \<Rightarrow> nat \<Rightarrow> nat" where
  "stale p t = length (filter (\<lambda>j. job_cancelled j \<and> job_dst_tier j = t) (bp_jobs p))"

definition table_blocks :: "handle multiset \<Rightarrow> BlockId set" where
  "table_blocks hs = (\<Union>h \<in> set_mset hs. set (al_blocks (fst h)))"

definition staying :: "BlockPool \<Rightarrow> nat \<Rightarrow> BlockId set" where
  "staying p t = {b. live p b \<and> goal_tier p b = t}"

lemma table_blocks_simps [simp]: "table_blocks {#} = {}" "finite (table_blocks hs)"
  by (simp_all add: table_blocks_def)

subsection \<open>Where the slots of a tier are\<close>

lemma size_live_slots:
  assumes "length refs = length locs"
  shows "size (live_slots refs locs t) = card {b. b < length locs \<and> 0 < refs ! b \<and> loc_tier (locs ! b) = t}"
proof -
  have "size (live_slots refs locs t) = length (filter (\<lambda>e. 0 < fst e \<and> loc_tier (snd e) = t) (zip refs locs))"
    by (simp add: live_slots_def flip: mset_filter size_mset)
  also have "\<dots> = card {b. b < length locs \<and> 0 < refs ! b \<and> loc_tier (locs ! b) = t}"
    using assms by (auto simp: length_filter_conv_card intro!: arg_cong [of _ _ card])
  finally show ?thesis .
qed

text \<open>The jobs that are still wanted have one block each.\<close>

lemma wanted_unique:
  assumes m: "mig_inv p" and j: "j \<in> set (bp_jobs p)" "j' \<in> set (bp_jobs p)" "\<not> job_cancelled j" "\<not> job_cancelled j'" "job_id j = job_id j'"
  shows "j = j'"
proof -
  have d: "distinct (map job_ptr (bp_jobs p))" "distinct (map fst (bp_migrating p))" using m by (simp_all add: mig_inv_def)
  have "(job_id j, job_ptr j) \<in> set (bp_migrating p)" "(job_id j, job_ptr j') \<in> set (bp_migrating p)"
    using m j unfolding mig_inv_def by metis+
  then have "job_ptr j = job_ptr j'" using d(2) eq_key_imp_eq_value by fast
  then show ?thesis using d(1) j(1,2) by (metis distinct_map inj_onD)
qed

lemma wanted_jobs_distinct:
  assumes m: "mig_inv p"
  shows "distinct (map job_id (filter (\<lambda>j. \<not> job_cancelled j \<and> job_dst_tier j = t) (bp_jobs p)))"
proof -
  have "distinct (map job_ptr (bp_jobs p))" using m by (simp add: mig_inv_def)
  then show ?thesis using wanted_unique [OF m] by (auto simp: distinct_map inj_on_def)
qed

lemma find_wanted:
  assumes m: "mig_inv p" and j: "j \<in> set (bp_jobs p)" "\<not> job_cancelled j"
  shows "bound_for p (job_id j) = Some (job_dst_tier j)"
proof -
  obtain k where k: "find (\<lambda>k. job_id k = job_id j \<and> \<not> job_cancelled k) (bp_jobs p) = Some k"
    using j by (cases "find (\<lambda>k. job_id k = job_id j \<and> \<not> job_cancelled k) (bp_jobs p)") (auto simp: find_None_iff)
  then have "k = j" using j by (intro wanted_unique [OF m]) (auto simp: find_Some_iff)
  then show ?thesis using k by (simp add: bound_for_def)
qed

text \<open>
  The slots of a tier are free, held by a block that stays or arrives there, held by a
  block that is about to leave, or reserved by a copy that was cancelled and is not
  drained yet.
\<close>

lemma slots_eq:
  assumes sys: "sys_inv p" and t: "t < length (bp_tiers p)"
  shows "ts_num_blocks (bp_tiers p ! t) = length (ts_free (bp_tiers p ! t)) + card (staying p t) + card (leaving p t) + stale p t"
proof -
  note pinv = sys_invD(1) [OF sys] and m = sys_invD(5) [OF sys]
  let ?want = "\<lambda>j. \<not> job_cancelled j \<and> job_dst_tier j = t"
  let ?home = "{b. live p b \<and> loc_tier (bp_location p ! b) = t}" and ?in = "job_id ` set (filter ?want (bp_jobs p))"
  have fl: "live p (job_id j) \<and> loc_tier (bp_location p ! job_id j) \<noteq> job_dst_tier j" if "j \<in> set (bp_jobs p)" "\<not> job_cancelled j" for j
    using that pinv by (simp add: pool_inv_def flight_inv_def)
  have home: "size (live_slots (bp_refcount p) (bp_location p) t) = card ?home"
    using size_live_slots [OF pool_invD(1) [OF pinv]] by (simp add: live_def conj_assoc)
  have "length (filter ?want (bp_jobs p)) = card ?in" using distinct_card [OF wanted_jobs_distinct [OF m]] by simp
  moreover have "length (filter (\<lambda>j. job_dst_tier j = t) (bp_jobs p)) = stale p t + length (filter ?want (bp_jobs p))"
    using sum_length_filter_compl [of job_cancelled "filter (\<lambda>j. job_dst_tier j = t) (bp_jobs p)"] by (simp add: stale_def conj_commute)
  ultimately have jobs: "size (job_slots (bp_jobs p) t) = stale p t + card ?in" by (simp add: job_slots_def flip: mset_filter size_mset)
  have fin: "finite ?home" by (rule finite_subset [of _ "{..<length (bp_location p)}"]) (auto simp: live_def)
  have bn: "b \<in> ?in" if "bound_for p b = Some t" for b
    using that by (force simp: bound_for_def find_Some_iff)
  have "staying p t \<union> leaving p t = ?home \<union> ?in"
  proof -
    have "b \<in> staying p t \<union> leaving p t" if "b \<in> ?home" for b
      using that goal_settled [OF m, of b] by (auto simp: staying_def leaving_def)
    moreover have "b \<in> staying p t" if "b \<in> ?in" for b
      using that fl find_wanted [OF m] by (auto simp: staying_def goal_tier_def)
    moreover have "b \<in> ?home \<union> ?in" if "b \<in> staying p t" for b
      using that bn by (cases "bound_for p b") (auto simp: staying_def goal_tier_def)
    moreover have "b \<in> ?home" if "b \<in> leaving p t" for b
      using that no_job_dead [OF sys] bound_None [OF m] by (auto simp: leaving_def)
    ultimately show ?thesis by blast
  qed
  moreover have "card (?home \<union> ?in) = card ?home + card ?in" using fl by (intro card_Un_disjoint fin) fastforce+
  moreover have "card (staying p t \<union> leaving p t) = card (staying p t) + card (leaving p t)"
  proof (rule card_Un_disjoint)
    show "finite (staying p t)" by (rule finite_subset [of _ "{..<length (bp_location p)}"]) (auto simp: staying_def live_def)
    show "finite (leaving p t)" by (rule pending_departures_eq(2) [OF sys])
  qed (auto simp: staying_def leaving_def)
  moreover have "size (tier_slots p t) = ts_num_blocks (bp_tiers p ! t)" using pool_invD(4) [OF pinv t] by simp
  ultimately show ?thesis using home jobs by (simp add: tier_slots_def)
qed


subsection \<open>A tree without eviction candidates\<close>

text \<open>
  When no unpinned leaf is left, every node lies at or above a pinned one: below every
  node there is a leaf, and that leaf is locked.
\<close>

lemma anc_parent:
  assumes "c \<in> anc t k" and "rt_nodes t c = Some cn" and "nd_parent cn = Some n" and "n \<noteq> rt_root t"
  shows "n \<in> anc t k"
proof -
  obtain xs where xs: "chain (rt_nodes t) (rt_root t) k xs" "c \<in> set xs" using assms(1) by (auto simp: anc_def)
  then obtain us ys where y: "xs = us @ c # ys" "chain (rt_nodes t) (rt_root t) c (c # ys)" using chain_suffix by blast
  then have "chain (rt_nodes t) (rt_root t) n ys" using assms(2,3) by (auto elim: chain.cases)
  then obtain zs where "ys = n # zs" using chain_head assms(4) by blast
  then show ?thesis using xs(1) y(1) by (auto simp: anc_def)
qed

lemma all_pinned:
  assumes inv: "tree_inv t pins" and none: "candidates t [] = {}"
  shows "chain (rt_nodes t) (rt_root t) n xs \<Longrightarrow> rt_nodes t n = Some nd \<Longrightarrow> n \<noteq> rt_root t \<Longrightarrow> \<exists>k \<in># pins. n \<in> anc t k"
proof (induction "rt_next t - length xs" arbitrary: n xs nd rule: less_induct)
  case less
  note wf = tree_invD(1) [OF inv]
  show ?case
  proof (cases "nd_children nd")
    case Nil
    then have "0 < nd_lock nd" using none less.prems by (auto simp: candidates_def lru_candidate_def)
    then have "{#k \<in># pins. n \<in> anc t k#} \<noteq> {#}" using tree_invD(2) [OF inv] less.prems(2,3) unfolding pins_ok_def by fastforce
    then obtain k where "k \<in># {#k \<in># pins. n \<in> anc t k#}" by (rule multiset_nonemptyE)
    then show ?thesis by auto
  next
    case (Cons e es)
    then have "map_of (nd_children nd) (fst e) = Some (snd e)" by (cases e) simp
    then obtain cn where c: "rt_nodes t (snd e) = Some cn" "snd e \<noteq> rt_root t" "nd_parent cn = Some n"
      "chain (rt_nodes t) (rt_root t) (snd e) (snd e # xs)"
      using wf_child [OF wf less.prems(2)] chain_child [OF wf less.prems(1,2)] by metis
    have "length (snd e # xs) < rt_next t" by (rule chain_length [OF wf c(4)])
    then obtain k where "k \<in># pins" "snd e \<in> anc t k" using less.hyps [OF _ c(4,1,2)] by force
    then show ?thesis using anc_parent [OF _ c(1,3) less.prems(3)] by blast
  qed
qed

lemma tree_blocks_node:
  assumes "b \<in># tree_blocks t" and "tree_wf t"
  obtains n nd where "rt_nodes t n = Some nd" "b \<in> set (nd_blocks nd)" "n \<noteq> rt_root t"
proof -
  have "finite (dom (rt_nodes t))" by (rule wf_finite [OF assms(2)])
  then obtain n where n: "n \<in> dom (rt_nodes t)" "b \<in> set (nd_blocks (the (rt_nodes t n)))"
    using assms(1) by (auto simp: tree_blocks_def set_mset_sum)
  then obtain nd where nd: "rt_nodes t n = Some nd" by blast
  then have "n \<noteq> rt_root t" using n(2) tree_wfD(6) [OF assms(2)] by auto
  then show thesis using that nd n(2) by simp
qed

lemma all_guarded:
  assumes c: "core t p pins X" and none: "candidates t [] = {}" and b: "live p b"
  shows "guarded t pins X b"
proof (cases "b \<in># X")
  case False
  then have "b \<in># tree_blocks t" using coreD(3) [OF c, of b] b by (simp add: live_rcount not_in_iff flip: count_greater_zero_iff)
  then obtain n nd where n: "rt_nodes t n = Some nd" "b \<in> set (nd_blocks nd)" "n \<noteq> rt_root t" by (rule tree_blocks_node [OF _ coreD(5) [OF c]])
  obtain xs where "chain (rt_nodes t) (rt_root t) n xs" using tree_wfD(5) [OF coreD(5) [OF c] n(1)] by blast
  then obtain k where k: "k \<in># pins" "n \<in> anc t k" using all_pinned [OF coreD(2) [OF c] none _ n(1,3)] by blast
  then obtain ys where "chain (rt_nodes t) (rt_root t) k ys" "n \<in> set ys" by (auto simp: anc_def)
  moreover have "b \<in> set (path_blocks (rt_nodes t) ys)" using calculation(2) n(1,2) by (force simp: path_blocks_def)
  ultimately show ?thesis using k(1) unfolding guarded_def by blast
qed (simp add: guarded_def)


subsection \<open>Refusals\<close>

lemma pins_handle: "k \<in># pins_of hs \<Longrightarrow> \<exists>h \<in># hs. al_pinned (fst h) = Some k"
  by (induction hs) (auto simp: pin_of_def split: option.splits)

lemma owned_handle: "b \<in># owned hs \<Longrightarrow> b \<in> table_blocks hs"
  by (induction hs) (auto simp: table_blocks_def fresh_blocks_def dest: in_set_dropD)

lemma covers_blocks: "covers t (Some k) P bs \<Longrightarrow> chain (rt_nodes t) (rt_root t) k xs \<Longrightarrow> path_blocks (rt_nodes t) xs = bs"
  unfolding covers_def option.case using chain_unique by blast

lemma guarded_table:
  assumes inv: "cache_inv m hs" and f: "frame (pins_of hs) (owned hs) (cm_tree m) (cm_pool m) t p"
    and cov: "covers t node P bs" and g: "guarded t (pins_of hs + pin_of node) (owned hs) b"
  shows "b \<in> table_blocks hs \<union> set bs"
proof (cases "b \<in># owned hs")
  case False
  then obtain k xs where k: "k \<in># pins_of hs + pin_of node" "chain (rt_nodes t) (rt_root t) k xs" "b \<in> set (path_blocks (rt_nodes t) xs)"
    using g by (auto simp: guarded_def)
  show ?thesis
  proof (cases "k \<in># pins_of hs")
    case True
    then obtain h where h: "h \<in># hs" "al_pinned (fst h) = Some k" using pins_handle by blast
    have "covers (cm_tree m) (Some k) (take (al_cached_tokens (fst h)) (snd h)) (take (al_cached_blocks (fst h)) (al_blocks (fst h)))"
      using handle_okD(6) [of "cm_tree m" "cm_pool m" "fst h" "snd h"] cache_invD(3) [OF inv h(1)] h(2) by simp
    then have "covers t (Some k) (take (al_cached_tokens (fst h)) (snd h)) (take (al_cached_blocks (fst h)) (al_blocks (fst h)))"
      by (rule covers_keeps [OF _ frameD(1) [OF f]]) (use frameD(3) [OF f True] in simp)
    then have "path_blocks (rt_nodes t) xs = take (al_cached_blocks (fst h)) (al_blocks (fst h))"
      by (rule covers_blocks [OF _ k(2)])
    then show ?thesis using k(3) h(1) by (auto simp: table_blocks_def dest: in_set_takeD)
  next
    case False
    then have "node = Some k" using k(1) by (auto simp: pin_of_def split: option.splits)
    then have "path_blocks (rt_nodes t) xs = bs" using cov covers_blocks [OF _ k(2)] by simp
    then show ?thesis using k(3) by simp
  qed
qed (simp add: owned_handle)

lemma plan_refused:
  assumes inv: "cache_inv m hs" and pl: "planned m hs toks a m2" and le: "length (al_blocks a) \<le> need"
    and none: "candidates (cm_tree m2) [] = {}"
    and full: "free0 (cm_pool m2) < need - length (al_blocks a) + away (cm_pool m2) (al_blocks a)"
  shows "ts_num_blocks (bp_tiers (cm_pool m2) ! 0) < need + card (table_blocks hs) + stale (cm_pool m2) 0"
proof -
  let ?p = "cm_pool m2" and ?bs = "al_blocks a"
  note P = plannedD [OF pl]
  have sys: "sys_inv ?p" by (rule coreD(1) [OF P(6)])
  have t: "0 < length (bp_tiers ?p)" using pool_invD(2) [OF sys_invD(1) [OF sys]] by simp
  have tab: "b \<in> table_blocks hs \<union> set ?bs" if "live ?p b" for b
    by (rule guarded_table [OF inv P(7) P(4) all_guarded [OF P(6) none that]])
  have goal: "goal_tier ?p b = 0" if b: "b \<in> table_blocks hs" for b
  proof -
    obtain h where h: "h \<in># hs" "b \<in> set (al_blocks (fst h))" using b by (auto simp: table_blocks_def)
    note ok = cache_invD(3) [OF inv h(1)]
    have "goal_tier (cm_pool m) b = 0" using handle_okD(7) [of "cm_tree m" "cm_pool m" "fst h" "snd h"] ok h(2) by simp
    then show ?thesis using frameD(7) [OF P(7) handle_guarded [OF h(1) ok h(2)]] by (simp add: kept_def)
  qed
  have "leaving ?p 0 = {}"
  proof -
    have False if "b \<in> leaving ?p 0" for b
    proof -
      have "live ?p b" using that no_job_dead [OF sys] bound_None [OF sys_invD(5) [OF sys]] by (auto simp: leaving_def)
      then show False using tab [of b] that goal [of b] P(5) by (auto simp: leaving_def settled_def)
    qed
    then show ?thesis by blast
  qed
  moreover have "card (staying ?p 0) \<le> card (table_blocks hs \<union> set (filter (\<lambda>b. goal_tier ?p b = 0) ?bs))"
    using tab by (intro card_mono) (auto simp: staying_def)
  moreover have "\<dots> \<le> card (table_blocks hs) + (length ?bs - away ?p ?bs)"
  proof -
    have "length (filter (\<lambda>b. goal_tier ?p b = 0) ?bs) = length ?bs - away ?p ?bs"
      using sum_length_filter_compl [of "\<lambda>b. goal_tier ?p b = 0" ?bs] by (simp add: away_def)
    then show ?thesis using card_Un_le [of "table_blocks hs" "set (filter (\<lambda>b. goal_tier ?p b = 0) ?bs)"]
        card_length [of "filter (\<lambda>b. goal_tier ?p b = 0) ?bs"] by linarith
  qed
  moreover have "away ?p ?bs \<le> length ?bs" by (simp add: away_def)
  ultimately show ?thesis using slots_eq [OF sys t] le full by (simp add: free0_def)
qed

text \<open>
  A request is refused only when its blocks, the blocks of the tables that others hold and
  the reservations of cancelled copies together exceed compute memory.
\<close>

lemma refused_full:
  assumes inv: "cache_inv m hs" and toks: "length toks + cfg_block_tokens (cm_cfg m) < 2 ^ 64"
    and size: "size (pins_of hs) + 1 < 2 ^ 32" and acq: "acquire m toks = Inr (a, m')" and no: "\<not> al_ok a"
  shows "ts_num_blocks (bp_tiers (cm_pool m') ! 0) < blocks_needed (cfg_block_tokens (cm_cfg m)) (length toks)
       + card (table_blocks hs) + stale (cm_pool m') 0"
proof -
  let ?need = "blocks_needed (cfg_block_tokens (cm_cfg m)) (length toks)"
  have ne: "toks \<noteq> []" using acq no by (auto simp: acquire_def Let_def)
  from acquire_plan [OF inv ne toks size] obtain b m2 where pl: "planned m hs toks b m2" "length (al_blocks b) \<le> ?need"
    and room: "?need - length (al_blocks b) + away (cm_pool m2) (al_blocks b) \<le> free0 (cm_pool m2) \<or> candidates (cm_tree m2) [] = {}"
    and eq: "acquire m toks = (if free0 (cm_pool m2) < ?need - length (al_blocks b) + away (cm_pool m2) (al_blocks b) then
               bindE (unpin (al_pinned b) m2) (\<lambda>m3. Inr (Allocation_new, m3\<lparr>cm_stats := (cm_stats m3)
                            \<lparr>st_alloc_failures := bump (st_alloc_failures (cm_stats m3))\<rparr>\<rparr>))
             else acquire_take b (?need - length (al_blocks b)) (length toks) m2)" unfolding Let_def by blast
  have "free0 (cm_pool m2) < ?need - length (al_blocks b) + away (cm_pool m2) (al_blocks b)"
  proof (rule ccontr)
    assume "\<not> ?thesis"
    then have "acquire_take b (?need - length (al_blocks b)) (length toks) m2 = Inr (a, m')" using eq acq by simp
    then show False using no by (auto simp: acquire_take_def result_simps Let_def)
  qed
  moreover have "bindE (unpin (al_pinned b) m2) (\<lambda>m3. Inr (Allocation_new, m3\<lparr>cm_stats := (cm_stats m3)
       \<lparr>st_alloc_failures := bump (st_alloc_failures (cm_stats m3))\<rparr>\<rparr>)) = Inr (a, m')" using eq acq calculation by simp
  then have "cm_pool m' = cm_pool m2" by (auto simp: unpin_def result_simps split: option.splits)
  ultimately show ?thesis using plan_refused [OF inv pl] room by simp
qed

end
