(* ===== verification/Capacity_Theorems.thy ===== *)
theory Capacity_Theorems
  imports Cache_Theorems Cache_Pool Cache_Capacity
begin

section \<open>Capacity\<close>

text \<open>
  The composition of manager and pool: the manager keeps the pool's contract, the tables in
  use fit into compute memory, and a request that is refused does not fit beside them.
\<close>

subsection \<open>Tables\<close>

lemma handle_distinct:
  assumes inv: "cache_inv m hs" and h: "(a, toks) \<in># hs"
  shows "distinct (al_blocks a)"
proof -
  note c = cache_invD(1) [OF inv] and D = handle_okD [OF cache_invD(3) [OF inv h]]
  have "count (mset (al_blocks a)) b \<le> 1" for b
  proof -
    have "mset (take (al_cached_blocks a) (al_blocks a)) \<subseteq># tree_blocks (cm_tree m)"
      using D(6) path_blocks_sub [OF coreD(5) [OF c]] unfolding covers_def by (fastforce split: option.splits)
    from mset_subset_eq_count [OF this, of b]
    have "count (mset (take (al_cached_blocks a) (al_blocks a))) b \<le> count (tree_blocks (cm_tree m)) b" .
    moreover have "mset (fresh_blocks a) \<subseteq># owned hs" using handle_part(2) [OF h] by simp
    from mset_subset_eq_count [OF this, of b] have "count (mset (fresh_blocks a)) b \<le> count (owned hs) b" .
    moreover have "count (mset (al_blocks a)) b = count (mset (take (al_cached_blocks a) (al_blocks a))) b + count (mset (fresh_blocks a)) b"
      unfolding fresh_blocks_def by (simp only: mset_take_drop flip: count_union)
    ultimately show ?thesis using coreD(3,4) [OF c, of b] by linarith
  qed
  then show ?thesis by (rule distinct_count)
qed

lemma table_staying:
  assumes inv: "cache_inv m hs"
  shows "table_blocks hs \<subseteq> staying (cm_pool m) 0"
proof
  fix b assume "b \<in> table_blocks hs"
  then obtain a toks where h: "(a, toks) \<in># hs" "b \<in> set (al_blocks a)" by (auto simp: table_blocks_def)
  note ok = cache_invD(3) [OF inv h(1)]
  show "b \<in> staying (cm_pool m) 0"
    using guarded_live [OF cache_invD(1) [OF inv] handle_guarded [OF h(1) ok]] handle_okD(7) [OF ok h(2)] h(2)
    by (simp add: staying_def live_rcount)
qed

lemma tables_fit:
  assumes inv: "cache_inv m hs"
  shows "card (table_blocks hs) \<le> ts_num_blocks (bp_tiers (cm_pool m) ! 0)"
proof -
  have sys: "sys_inv (cm_pool m)" by (rule coreD(1) [OF cache_invD(1) [OF inv]])
  have "finite (staying (cm_pool m) 0)" by (rule finite_subset [of _ "{..<length (bp_location (cm_pool m))}"]) (auto simp: staying_def live_def)
  then have "card (table_blocks hs) \<le> card (staying (cm_pool m) 0)" by (rule card_mono [OF _ table_staying [OF inv]])
  then show ?thesis using slots_eq [OF sys, of 0] pool_invD(2) [OF sys_invD(1) [OF sys]] by simp
qed

lemma reachable_slots:
  assumes "specs_ok mem c specs" and "reachable_cache hw mem specs c opts m hs"
  shows "ts_num_blocks (bp_tiers (cm_pool m) ! 0) = spec_num_blocks (specs ! 0)" "length (bp_tiers (cm_pool m)) = length specs"
proof -
  have s: "sizes (cm_pool m) = map spec_num_blocks specs" by (rule reachable_sizes [OF manager_pool [OF assms(2,1)] assms(1)])
  have "specs \<noteq> []" using assms(1) by (simp add: specs_ok_def)
  then show "length (bp_tiers (cm_pool m)) = length specs" using s unfolding sizes_def by (metis length_map)
  then show "ts_num_blocks (bp_tiers (cm_pool m) ! 0) = spec_num_blocks (specs ! 0)"
    using arg_cong [OF s, of "\<lambda>xs. xs ! 0"] \<open>specs \<noteq> []\<close> by (simp add: sizes_def)
qed

text \<open>Slots of compute memory are reserved by cancelled copies only where background promotion is on.\<close>

lemma no_stale:
  assumes "specs_ok mem c specs" and "reachable_cache hw mem specs c opts m hs" and "length specs = 1 \<or> \<not> op_async_promotion opts"
  shows "stale (cm_pool m) 0 = 0"
proof (cases "op_async_promotion opts")
  case True
  then have "length (bp_tiers (cm_pool m)) = 1" using reachable_slots(2) [OF assms(1,2)] assms(3) by simp
  then have "bp_jobs (cm_pool m) = []"
    using pool_invD(8) [OF sys_invD(1) [OF coreD(1) [OF reachable_cacheD(4) [OF assms(2,1)]]]] by (metis less_irrefl)
  then show ?thesis by (simp add: stale_def)
next
  case False
  then show ?thesis using manager_outbound [OF assms(2,1)] by (auto simp: stale_def outbound_def filter_empty_conv)
qed

subsection \<open>Theorems\<close>

text \<open>C8. The manager keeps the contract of the pool: whatever a manager's users do, the pool inside it
  is always in a state that a pool reaches by allowed operations alone (no call on a block that
  is not allocated, no tier out of range, no overflow of a reference count, no write to a block
  in flight), with the tiers it was built with. So every theorem about pools holds of the
  pool of a manager.\<close>

theorem manager_keeps_pool_contract:
  assumes "specs_ok mem c specs" and "reachable_cache hw mem specs c opts m hs"
  shows "reachable_pool hw mem c specs (cm_pool m) \<and> map ts_num_blocks (bp_tiers (cm_pool m)) = map spec_num_blocks specs"
  using manager_pool [OF assms(2,1)] reachable_sizes [OF _ assms(1)] unfolding sizes_def by blast

theorem manager_keeps_pool_contract_witness:
  "\<exists>m a. reachable_cache 1 demo_mem demo_specs demo_cfg Options_new m {#(a, [1, 2, 3])#} \<and> al_ok a
     \<and> reachable_pool 1 demo_mem demo_cfg demo_specs (cm_pool m)"
proof -
  obtain m a where d: "reachable_cache 1 demo_mem demo_specs demo_cfg Options_new m {#(a, [1, 2, 3])#}" "al_ok a" by (rule demo_request)
  show ?thesis using manager_keeps_pool_contract [OF demo_specs_ok d(1)] d by blast
qed

text \<open>C5. \<^verbatim>\<open>acquire()\<close> never refuses without need. The distinct blocks in the tables of all handles in use
  always fit into compute memory together. A request is refused only if its own blocks, the blocks in
  the tables of the other handles and the slots reserved by cancelled background copies
  exceed compute memory; with a single tier, or without background promotion, there are no
  such reservations.\<close>

theorem refusal_means_full:
  assumes "specs_ok mem c specs" and "reachable_cache hw mem specs c opts m hs" and "cache_allowed m hs (Acquire toks)"
    and "acquire m toks = Inr (a, m')"
  shows "card (table_blocks (add_mset (a, toks) hs)) \<le> spec_num_blocks (specs ! 0) \<and> distinct (al_blocks a)
     \<and> (\<not> al_ok a \<longrightarrow> spec_num_blocks (specs ! 0)
          < blocks_needed (cfg_block_tokens c) (length toks) + card (table_blocks hs) + stale (cm_pool m') 0)
     \<and> (length specs = 1 \<or> \<not> op_async_promotion opts \<longrightarrow> stale (cm_pool m') 0 = 0)"
proof -
  note D = reachable_cacheD [OF assms(2,1)]
  have r: "reachable_cache hw mem specs c opts m' (add_mset (a, toks) hs)"
    using rc_step [OF assms(2,3) cs_acquire [OF assms(4)]] .
  note inv' = reachable_cacheD(2) [OF r assms(1)]
  have al: "length toks + cfg_block_tokens (cm_cfg m) < 2 ^ 64" "size (pins_of hs) + 1 < 2 ^ 32"
    using assms(3) size_pins [of hs] by simp_all
  have "spec_num_blocks (specs ! 0) < blocks_needed (cfg_block_tokens c) (length toks) + card (table_blocks hs) + stale (cm_pool m') 0"
    if "\<not> al_ok a" using refused_full [OF D(2) al assms(4) that] reachable_slots(1) [OF assms(1) r] D(5) by simp
  moreover have "card (table_blocks (add_mset (a, toks) hs)) \<le> spec_num_blocks (specs ! 0)"
    using tables_fit [OF inv'] reachable_slots(1) [OF assms(1) r] by simp
  moreover have "distinct (al_blocks a)" by (rule handle_distinct [OF inv', of a toks]) simp
  ultimately show ?thesis using no_stale [OF assms(1) r] by blast
qed

theorem refusal_means_full_witness:
  "\<exists>m a m'. reachable_cache 1 demo_mem demo_specs demo_cfg Options_new m {#} \<and> acquire m [1, 2, 3, 4, 5] = Inr (a, m')
     \<and> \<not> al_ok a \<and> spec_num_blocks (demo_specs ! 0) < blocks_needed (cfg_block_tokens demo_cfg) 5"
proof -
  obtain m where m: "reachable_cache 1 demo_mem demo_specs demo_cfg Options_new m {#}" "cfg_block_tokens (cm_cfg m) = 2" by (rule demo_manager)
  note D = reachable_cacheD [OF m(1) demo_specs_ok]
  have al: "cache_allowed m {#} (Acquire [1, 2, 3, 4, 5])" by (simp add: m(2))
  obtain a m' where a: "acquire m [1, 2, 3, 4, 5] = Inr (a, m')" "acquired m {#} [1, 2, 3, 4, 5] a m'"
    using step_acquire [OF D(1) al] by blast
  note R = refusal_means_full [OF demo_specs_ok m(1) al a(1)]
  have no: "\<not> al_ok a"
  proof
    assume "al_ok a"
    then have "length (al_blocks a) = 3" using a(2) by (simp add: acquired_def granted_def m(2) blocks_needed_def Let_def)
    then have "card (table_blocks {#(a, [1, 2, 3, 4, 5])#}) = 3" using R by (simp add: table_blocks_def distinct_card)
    then show False using R by (simp add: demo_specs_def)
  qed
  then have "spec_num_blocks (demo_specs ! 0) < blocks_needed (cfg_block_tokens demo_cfg) 5"
    using R by (simp add: Options_new_def eval_nat_numeral)
  then show ?thesis using m(1) a(1) no by blast
qed

end
