(* ===== verification/Bench_Client.thy ===== *)
theory Bench_Client
  imports Bench_Prefix_Cache Capacity_Theorems Pool_Shutdown
begin

section \<open>What the clients of the benchmark do to a manager\<close>

text \<open>
  The clients keep every contract: their runs end, no call fails, every handle is released
  and none is lost, and the counters add up.
\<close>

subsection \<open>Single calls\<close>

lemma idle_refl [simp]: "idle m m"
  unfolding idle_def by (rule exI [of _ "cm_pool m"]) (simp add: ws_refl)

lemma idle_fields: "idle m m' \<Longrightarrow> cm_stats m' = cm_stats m \<and> cm_cfg m' = cm_cfg m"
  by (auto simp: idle_def)

lemma idle_reach:
  assumes "idle m m'" and "reachable_cache hw mem specs c opts m hs"
  shows "reachable_cache hw mem specs c opts m' hs"
proof -
  obtain p where p: "worker_steps (cm_pool m) p" "m' = m\<lparr>cm_pool := p\<rparr>" using assms(1) by (auto simp: idle_def)
  have "worker_steps q p \<Longrightarrow> reachable_cache hw mem specs c opts (m\<lparr>cm_pool := q\<rparr>) hs \<Longrightarrow> reachable_cache hw mem specs c opts (m\<lparr>cm_pool := p\<rparr>) hs" for q p
  proof (induction rule: worker_steps.induct)
    case (ws_step p q i r)
    have "cache_step (Work i) (m\<lparr>cm_pool := q\<rparr>) hs (m\<lparr>cm_pool := r\<rparr>) hs" using cs_work [of i "m\<lparr>cm_pool := q\<rparr>" r hs] ws_step.hyps by simp
    moreover have "cache_allowed (m\<lparr>cm_pool := q\<rparr>) hs (Work i)" using worker_allowed [OF ws_step.hyps(2)] by simp
    ultimately show ?case using rc_step [OF ws_step.IH [OF ws_step.prems]] by blast
  qed
  then show ?thesis using p assms(2) by simp
qed

definition fits :: "TierSpec list \<Rightarrow> CacheConfig \<Rightarrow> Options \<Rightarrow> TokenId list \<Rightarrow> bool" where
  "fits specs c opts toks \<longleftrightarrow> (length specs = 1 \<or> \<not> op_async_promotion opts)
     \<and> blocks_needed (cfg_block_tokens c) (length toks) \<le> spec_num_blocks (specs ! 0)"

lemma acquire_call:
  assumes specs: "specs_ok mem c specs" and r: "reachable_cache hw mem specs c opts m hs"
    and len: "length toks + cfg_block_tokens c < 2 ^ 64" "size hs + 1 < 2 ^ 32"
  obtains a m' where "acquire m toks = Inr (a, m')" and "reachable_cache hw mem specs c opts m' (add_mset (a, toks) hs)"
    and "charged toks a (cm_stats m) (cm_stats m')" and "hs = {#} \<Longrightarrow> fits specs c opts toks \<Longrightarrow> al_ok a"
proof -
  note D = reachable_cacheD [OF r specs]
  have al: "cache_allowed m hs (Acquire toks)" using len D(5) by simp
  obtain a m' where a: "acquire m toks = Inr (a, m')" "acquired m hs toks a m'" using step_acquire [OF D(1) al] by blast
  have r': "reachable_cache hw mem specs c opts m' (add_mset (a, toks) hs)" using rc_step [OF r al cs_acquire [OF a(1)]] .
  have "al_ok a" if e: "hs = {#}" and f: "fits specs c opts toks"
  proof (rule ccontr)
    assume no: "\<not> al_ok a"
    have "size (pins_of hs) + 1 < 2 ^ 32" "length toks + cfg_block_tokens (cm_cfg m) < 2 ^ 64" using e len(1) D(5) by simp_all
    from refused_full [OF D(2) this(2,1) a(1) no] show False
      using no_stale [OF specs r'] reachable_slots(1) [OF specs r'] f D(5) e by (simp add: fits_def)
  qed
  then show thesis using that a r' by (simp add: acquired_def)
qed

lemma release_call:
  assumes specs: "specs_ok mem c specs" and r: "reachable_cache hw mem specs c opts m (add_mset (a, toks) hs)" and ok: "al_ok a"
  obtains m' where "release m toks a = Inr (disarm a, m')" and "reachable_cache hw mem specs c opts m' hs"
    and "request_counters (cm_stats m') = request_counters (cm_stats m)"
proof -
  note D = reachable_cacheD [OF r specs]
  have ag: "agrees (al_cached_tokens a) toks toks" by (simp add: agrees_def min_def)
  obtain m' where m': "release m toks a = Inr (disarm a, m')" "request_counters (cm_stats m') = request_counters (cm_stats m)"
    using release_ok [OF D(2) ag ok] by blast
  have "cache_allowed m (add_mset (a, toks) hs) (Release (a, toks) toks)" using ag by simp
  then show thesis using that m' rc_step [OF r _ cs_release [OF m'(1)]] by blast
qed

lemma destroy_inert [simp]: "\<not> al_ok a \<Longrightarrow> Allocation_destroy m a = Inr m" "Allocation_destroy m (disarm a) = Inr m"
  by (simp_all add: Allocation_destroy_def disarm_def)

lemma drop_refused:
  assumes r: "reachable_cache hw mem specs c opts m (add_mset (a, toks) hs)" and no: "\<not> al_ok a"
  shows "reachable_cache hw mem specs c opts m hs"
proof -
  have "cache_allowed m (add_mset (a, toks) hs) (Drop (a, toks))" by simp
  then show ?thesis using rc_step [OF r _ cs_drop] no by simp
qed

lemma wait_call:
  assumes specs: "specs_ok mem c specs" and r: "reachable_cache hw mem specs c opts m hs" and h: "(a, toks) \<in># hs"
  shows "\<exists>m'. wait_ready m a m'" and "wait_ready m a m' \<Longrightarrow> reachable_cache hw mem specs c opts m' hs \<and> cm_stats m' = cm_stats m"
proof -
  note D = reachable_cacheD [OF r specs]
  show "\<exists>m'. wait_ready m a m'" by (rule wait_ready_returns [OF D(2) h D(3)])
  assume w: "wait_ready m a m'"
  have "cache_allowed m hs (WaitReady (a, toks))" using h by simp
  then show "reachable_cache hw mem specs c opts m' hs \<and> cm_stats m' = cm_stats m"
    using rc_step [OF r _ cs_wait [OF h w]] wait_ready_ok [OF w D(2) h D(3)] by blast
qed

subsection \<open>One request at a time\<close>

text \<open>What a run of \<open>n\<close> requests does to the counters; \<open>all_fit\<close> says that none can be refused.\<close>

definition counted :: "bool \<Rightarrow> nat \<Rightarrow> Stats \<Rightarrow> Stats \<Rightarrow> bool" where
  "counted all_fit n s s' \<longleftrightarrow> (st_requests s < 2 ^ 64 \<longrightarrow> st_requests s' = u64 (st_requests s + n))
     \<and> st_abandoned s' = st_abandoned s \<and> (all_fit \<longrightarrow> st_alloc_failures s' = st_alloc_failures s)"

lemma counted_trans: "counted f n s s1 \<Longrightarrow> counted f k s1 s' \<Longrightarrow> counted f (n + k) s s'"
  by (auto simp: counted_def u64_def mod_add_left_eq add.assoc)

lemma counted_mono: "counted f n s s' \<Longrightarrow> (g \<Longrightarrow> f) \<Longrightarrow> counted g n s s'"
  by (auto simp: counted_def)

lemma counted_refl: "counted f 0 s s"
  by (simp add: counted_def u64_small)

lemma charged_counted: "charged toks a s s' \<Longrightarrow> (f \<Longrightarrow> al_ok a) \<Longrightarrow> counted f 1 s s'"
  by (auto simp: charged_def counted_def request_counters_def bump_def)

lemma counters_counted: "request_counters s' = request_counters s \<Longrightarrow> counted f 0 s s'"
  by (auto simp: counted_def request_counters_def u64_small)

lemma serve_ok:
  assumes specs: "specs_ok mem c specs" and r: "reachable_cache hw mem specs c opts m {#}" and len: "length toks + cfg_block_tokens c < 2 ^ 64"
  shows "\<exists>out. serve m toks out"
    and "serve m toks out \<Longrightarrow> \<exists>m'. out = Inr m' \<and> reachable_cache hw mem specs c opts m' {#}
           \<and> counted (fits specs c opts toks) 1 (cm_stats m) (cm_stats m')"
proof -
  have one: "size {#} + 1 < (2::nat) ^ 32" by simp
  obtain a m1 where a: "acquire m toks = Inr (a, m1)" by (rule acquire_call [OF specs r len one])
  show "\<exists>out. serve m toks out" using sv_refused [OF idle_refl a] sv_served [OF idle_refl a _ idle_refl] by blast
  assume "serve m toks out"
  then show "\<exists>m'. out = Inr m' \<and> reachable_cache hw mem specs c opts m' {#} \<and> counted (fits specs c opts toks) 1 (cm_stats m) (cm_stats m')"
  proof cases
    case (sv_error m0 e)
    then show ?thesis using acquire_call [OF specs idle_reach [OF sv_error(2) r] len one] by (metis Inl_Inr_False)
  next
    case (sv_refused m0 a m1)
    have "reachable_cache hw mem specs c opts m1 {#(a, toks)#} \<and> charged toks a (cm_stats m0) (cm_stats m1) \<and> (fits specs c opts toks \<longrightarrow> al_ok a)"
      using acquire_call [OF specs idle_reach [OF sv_refused(2) r] len one] sv_refused(3) by (metis old.sum.inject(2) prod.inject)
    then show ?thesis using sv_refused drop_refused [of hw mem specs c opts m1 a toks "{#}"] idle_fields [OF sv_refused(2)] charged_counted by auto
  next
    case (sv_served m0 a m1 m2)
    have q: "reachable_cache hw mem specs c opts m1 {#(a, toks)#}" "charged toks a (cm_stats m0) (cm_stats m1)"
      using acquire_call [OF specs idle_reach [OF sv_served(2) r] len one] sv_served(3) by (metis old.sum.inject(2) prod.inject)+
    obtain m' where "release m2 toks a = Inr (disarm a, m')" "reachable_cache hw mem specs c opts m' {#}"
      "request_counters (cm_stats m') = request_counters (cm_stats m2)"
      by (rule release_call [OF specs idle_reach [OF sv_served(5) q(1)] sv_served(4)])
    moreover have "counted (fits specs c opts toks) 1 (cm_stats m) (cm_stats m2)"
      using charged_counted [OF q(2)] idle_fields [OF sv_served(2)] idle_fields [OF sv_served(5)] sv_served(4) by simp
    then have "counted (fits specs c opts toks) 1 (cm_stats m) (cm_stats m')"
      using counted_trans [OF _ counters_counted [OF calculation(3)]] by fastforce
    ultimately show ?thesis using sv_served(1) by simp
  qed
qed


lemma run_manager_ok:
  assumes specs: "specs_ok mem c specs" and r: "reachable_cache hw mem specs c opts m {#}"
    and len: "\<forall>toks \<in> set w. length toks + cfg_block_tokens c < 2 ^ 64"
  shows "\<exists>out. run_manager m w out"
    and "run_manager m w out \<Longrightarrow> \<exists>m'. out = Inr m' \<and> reachable_cache hw mem specs c opts m' {#}
           \<and> counted (\<forall>toks \<in> set w. fits specs c opts toks) (length w) (cm_stats m) (cm_stats m')"
proof -
  show "\<exists>out. run_manager m w out" using r len
  proof (induction w arbitrary: m)
    case Nil
    then show ?case using rm_done by blast
  next
    case (Cons toks w)
    then have "length toks + cfg_block_tokens c < 2 ^ 64" by simp
    then obtain m' where m': "serve m toks (Inr m')" "reachable_cache hw mem specs c opts m' {#}"
      using serve_ok [OF specs Cons.prems(1), of toks] by metis
    then show ?case using Cons.IH [OF m'(2)] Cons.prems(2) rm_next [OF m'(1)] by auto
  qed
  assume "run_manager m w out"
  then show "\<exists>m'. out = Inr m' \<and> reachable_cache hw mem specs c opts m' {#}
           \<and> counted (\<forall>toks \<in> set w. fits specs c opts toks) (length w) (cm_stats m) (cm_stats m')"
    using r len
  proof (induction rule: run_manager.induct)
    case (rm_done m)
    then show ?case using counted_refl by auto
  next
    case (rm_next m toks m1 w out)
    have s: "reachable_cache hw mem specs c opts m1 {#}" "counted (fits specs c opts toks) 1 (cm_stats m) (cm_stats m1)"
      using serve_ok(2) [OF specs rm_next.prems(1) _ rm_next.hyps(1)] rm_next.prems(2) by auto
    then obtain m' where m': "out = Inr m'" "reachable_cache hw mem specs c opts m' {#}"
      "counted (\<forall>toks \<in> set w. fits specs c opts toks) (length w) (cm_stats m1) (cm_stats m')"
      using rm_next.IH rm_next.prems(2) by auto
    have "counted (\<forall>x \<in> set (toks # w). fits specs c opts x) (1 + length w) (cm_stats m) (cm_stats m')"
      by (rule counted_trans [OF counted_mono [OF s(2)] counted_mono [OF m'(3)]]) simp_all
    then show ?case using m' by simp
  next
    case (rm_error m toks e w)
    then show ?case using serve_ok(2) [OF specs rm_error.prems(1) _ rm_error.hyps(1)] by auto
  qed
qed

subsection \<open>A manager of its own\<close>

definition allocates :: "(nat \<Rightarrow> nat \<Rightarrow> byte list option) \<Rightarrow> nat \<Rightarrow> bool" where
  "allocates aligned_alloc n \<longleftrightarrow> (\<exists>raw. aligned_alloc kArenaAlignment (round_up n kArenaAlignment) = Some raw
     \<and> length raw = round_up n kArenaAlignment)"

lemma HostTier_ready:
  assumes al: "allocates aligned_alloc n" and n: "0 < n" "n + kArenaAlignment < 2 ^ 64"
  obtains t where "HostTier_new aligned_alloc n = Inr t" and "tier_ok t" and "n \<le> ht_capacity t"
proof -
  have c: "n \<le> round_up n kArenaAlignment" "round_up n kArenaAlignment < 2 ^ 64"
    using round_up_correct [OF n(2)] n(2) by linarith+
  then show thesis using that al n(1) by (auto simp: allocates_def HostTier_new_def Let_def tier_ok_def)
qed

definition one_tier :: "CacheConfig \<Rightarrow> TierSpec list" where
  "one_tier c = [\<lparr>spec_tier = Some 0, spec_num_blocks = cfg_num_blocks c\<rparr>]"

lemma owning_tiered:
  "CacheManager_owning aligned_alloc hw c =
     bindE (HostTier_new aligned_alloc (total_bytes c)) (\<lambda>t. CacheManager_tiered hw [t] (one_tier c) c Options_new)"
  by (simp add: CacheManager_owning_def CacheManager_tiered_def CacheManager_on_def BlockPool_owning_def BlockPool_tiered_def
      one_tier_def bindE_assoc)

text \<open>Every size fits its type, and there is something to cache.\<close>

definition cfg_ok :: "CacheConfig \<Rightarrow> bool" where
  "cfg_ok c \<longleftrightarrow> 0 < cfg_block_tokens c \<and> 0 < cfg_num_blocks c \<and> 0 < block_bytes c \<and> cfg_num_blocks c < 2 ^ 32
     \<and> cfg_num_blocks c * block_bytes c + kArenaAlignment < 2 ^ 64"

lemma owning_ready:
  assumes c: "cfg_ok c" and al: "allocates aligned_alloc (total_bytes c)"
  obtains t m where "CacheManager_owning aligned_alloc hw c = Inr m" and "specs_ok [t] c (one_tier c)"
    and "reachable_cache hw [t] (one_tier c) c Options_new m {#}" and "cm_stats m = Stats_new"
proof -
  have tot: "total_bytes c = cfg_num_blocks c * block_bytes c" using c by (simp add: cfg_ok_def total_bytes_def u64_small)
  obtain t where t: "HostTier_new aligned_alloc (total_bytes c) = Inr t" "tier_ok t" "total_bytes c \<le> ht_capacity t"
    by (rule HostTier_ready [OF al]) (use c tot in \<open>simp_all add: cfg_ok_def\<close>)
  have s: "specs_ok [t] c (one_tier c)" using c t(2,3) tot by (simp add: specs_ok_def one_tier_def cfg_ok_def)
  obtain p where "pool_init hw [t] c (one_tier c) = Inr p" using pool_init_ok [OF s, of hw] by metis
  then obtain m where m: "CacheManager_tiered hw [t] (one_tier c) c Options_new = Inr m"
    using c by (simp add: CacheManager_tiered_def CacheManager_on_def BlockPool_tiered_def RadixTree_new_def cfg_ok_def)
  then show thesis using that [of m t] s rc_init [OF m] cache_init(6) [OF s m] t(1) by (simp add: owning_tiered)
qed

lemma manager_destroy:
  assumes "specs_ok mem c specs" and "reachable_cache hw mem specs c opts m {#}"
  shows "\<exists>out. CacheManager_destroy own m out"
    and "CacheManager_destroy own m out \<Longrightarrow> \<exists>p. out = Inr (Map.empty, p) \<and> (\<forall>b. \<not> live p b) \<and> (\<forall>w \<in> set (bp_workers p). w = Exited)
       \<and> bp_mem p \<noteq> [] \<and> (\<forall>ptr. own = Some ptr \<longrightarrow> ptr < length (bp_mem p) \<longrightarrow> \<not> host_data (bp_mem p ! ptr))"
proof -
  note k = reachable_cacheD(4) [OF assms(2,1)]
  obtain p where p: "RadixTree_destroy (cm_tree m) (cm_pool m) = Inr (Map.empty, p)"
    "rcount p = (\<lambda>b. rcount (cm_pool m) b - count (tree_blocks (cm_tree m)) b)" "sys_inv p"
    using RadixTree_destroy_ok [OF coreD(5,1,6) [OF k]] by blast
  note B = BlockPool_destroy_ok [OF p(3), of own]
  have dead: "\<not> live p b" for b using p(2) coreD(3) [OF k, of b] by (simp add: live_rcount)
  show "\<exists>out. CacheManager_destroy own m out" using B(1) cd_gone [OF p(1)] by blast
  assume "CacheManager_destroy own m out"
  then obtain p' where p': "out = Inr (Map.empty, p')" "BlockPool_destroy own p p'" by cases (use p(1) in auto)
  obtain q where q: "p' = q\<lparr>bp_mem := drop_owned own (bp_mem q)\<rparr>" "worker_frame (begin_shutdown p) q" "\<forall>w \<in> set (bp_workers q). w = Exited" "sys_inv q"
    using B(2) [OF p'(2)] by blast
  have "\<not> live p' b" for b using dead [of b] q(2) by (simp add: q(1) live_def worker_frame_def)
  moreover have "bp_mem p' \<noteq> []"
    using mem_invD(1) [OF sys_invD(2) [OF q(4)], of 0] pool_invD(2) [OF sys_invD(1) [OF q(4)]] by (auto simp: q(1) drop_owned_def split: option.split)
  moreover have "\<not> host_data (bp_mem p' ! ptr)" if "own = Some ptr" "ptr < length (bp_mem p')" for ptr
    using that by (simp add: q(1) drop_owned_def host_data_def HostTier_destroy_def)
  ultimately show "\<exists>p. out = Inr (Map.empty, p) \<and> (\<forall>b. \<not> live p b) \<and> (\<forall>w \<in> set (bp_workers p). w = Exited)
       \<and> bp_mem p \<noteq> [] \<and> (\<forall>ptr. own = Some ptr \<longrightarrow> ptr < length (bp_mem p) \<longrightarrow> \<not> host_data (bp_mem p ! ptr))"
    using p'(1) q(1,3) by auto
qed


subsection \<open>A window of requests\<close>

text \<open>The handles of the window are the handles in use, and all of them were served.\<close>

definition window_ok :: "nat \<Rightarrow> memory \<Rightarrow> TierSpec list \<Rightarrow> CacheConfig \<Rightarrow> Options \<Rightarrow> CacheManager \<Rightarrow> window \<Rightarrow> bool" where
  "window_ok hw mem specs c opts m w \<longleftrightarrow> reachable_cache hw mem specs c opts m (mset w) \<and> (\<forall>h \<in> set w. al_ok (fst h))"

lemma retire_ok:
  assumes specs: "specs_ok mem c specs" and w: "window_ok hw mem specs c opts m (h # w)"
  shows "\<exists>out. retire m (h # w) out"
    and "retire m (h # w) out \<Longrightarrow> \<exists>m'. out = Inr (m', w) \<and> window_ok hw mem specs c opts m' w
           \<and> counted f 0 (cm_stats m) (cm_stats m')"
proof -
  have r: "reachable_cache hw mem specs c opts m (add_mset h (mset w))" "al_ok (fst h)" "\<forall>h \<in> set w. al_ok (fst h)"
    using w by (simp_all add: window_ok_def)
  obtain m1 where "wait_ready m (fst h) m1" using wait_call(1) [OF specs r(1), of "fst h" "snd h"] by auto
  then show "\<exists>out. retire m (h # w) out" using rt_front [OF idle_refl _ idle_refl, of m "fst h" m1 "snd h" w] by auto
  assume "retire m (h # w) out"
  then show "\<exists>m'. out = Inr (m', w) \<and> window_ok hw mem specs c opts m' w \<and> counted f 0 (cm_stats m) (cm_stats m')"
  proof cases
    case (rt_front m0 a m1 m2 toks)
    have r0: "reachable_cache hw mem specs c opts m0 (add_mset (a, toks) (mset w))" using idle_reach [OF rt_front(3) r(1)] rt_front(1) by simp
    have r1: "reachable_cache hw mem specs c opts m1 (add_mset (a, toks) (mset w))" "cm_stats m1 = cm_stats m0"
      using wait_call(2) [OF specs r0 _ rt_front(4)] by auto
    obtain m' where m': "release m2 toks a = Inr (disarm a, m')" "reachable_cache hw mem specs c opts m' (mset w)"
      "request_counters (cm_stats m') = request_counters (cm_stats m2)"
      by (rule release_call [OF specs idle_reach [OF rt_front(5) r1(1)]]) (use r(2) rt_front(1) in simp)
    have "counted f 0 (cm_stats m) (cm_stats m')"
      using counters_counted [OF m'(3)] r1(2) idle_fields [OF rt_front(3)] idle_fields [OF rt_front(5)] by simp
    then show ?thesis using rt_front(2) m' r(3) by (simp add: window_ok_def)
  qed
qed

lemma pipe_call:
  assumes specs: "specs_ok mem c specs" and w: "window_ok hw mem specs c opts m w" and size: "size (mset w) + 1 < 2 ^ 32"
    and len: "length toks + cfg_block_tokens c < 2 ^ 64" and idle: "idle m m0"
  shows "\<exists>a m1. acquire m0 toks = Inr (a, m1) \<and> window_ok hw mem specs c opts m1 (if al_ok a then w @ [(a, toks)] else w)
     \<and> counted False 1 (cm_stats m) (cm_stats m1)"
proof -
  have r: "reachable_cache hw mem specs c opts m (mset w)" "\<forall>h \<in> set w. al_ok (fst h)" using w by (simp_all add: window_ok_def)
  obtain a m1 where a: "acquire m0 toks = Inr (a, m1)" "reachable_cache hw mem specs c opts m1 (add_mset (a, toks) (mset w))"
    "charged toks a (cm_stats m0) (cm_stats m1)" by (rule acquire_call [OF specs idle_reach [OF idle r(1)] len size])
  have "window_ok hw mem specs c opts m1 (if al_ok a then w @ [(a, toks)] else w)"
    using a(2) r(2) drop_refused [OF a(2)] by (auto simp: window_ok_def)
  moreover have "counted False 1 (cm_stats m) (cm_stats m1)" using charged_counted [OF a(3), of False] idle_fields [OF idle] by simp
  ultimately show ?thesis using a(1) by blast
qed

lemma pipe_step_ok:
  assumes specs: "specs_ok mem c specs" and w: "window_ok hw mem specs c opts m w" "length w < depth" and depth: "depth + 1 < 2 ^ 32"
    and len: "length toks + cfg_block_tokens c < 2 ^ 64"
  shows "\<exists>out. pipe_step depth m w toks out"
    and "pipe_step depth m w toks out \<Longrightarrow> \<exists>m' w'. out = Inr (m', w') \<and> window_ok hw mem specs c opts m' w' \<and> length w' < depth
           \<and> counted False 1 (cm_stats m) (cm_stats m')"
proof -
  have size: "size (mset w) + 1 < 2 ^ 32" using w(2) depth by simp
  define after where "after a = (if al_ok a then w @ [(a, toks)] else w)" for a
  note call = pipe_call [OF specs w(1) size len, folded after_def]
  have moved: "(w', alloc) = (if al_ok a then (w @ [(fst (Allocation_move a), toks)], snd (Allocation_move a)) else (w, a))
      \<longleftrightarrow> w' = after a \<and> alloc = (if al_ok a then disarm a else a)" for w' alloc a
    by (auto simp: after_def move_eq)
  have inert: "Allocation_destroy m1 (if al_ok a then disarm a else a) = Inr m1" for m1 a by simp
  have short: "length (after a) \<le> depth" for a using w(2) by (simp add: after_def)
  obtain a m1 where a: "acquire m toks = Inr (a, m1)" "window_ok hw mem specs c opts m1 (after a)" using call [OF idle_refl] by blast
  show "\<exists>out. pipe_step depth m w toks out"
  proof (cases "length (after a) < depth")
    case True
    then show ?thesis using ps_room [OF idle_refl a(1) moved [THEN iffD2]] by blast
  next
    case False
    then obtain h w' where h: "after a = h # w'" using w(2) by (cases "after a") auto
    then obtain out where "retire m1 (after a) out" using retire_ok(1) [OF specs, of hw opts m1 h w'] a(2) by auto
    then show ?thesis using ps_full [OF idle_refl a(1) moved [THEN iffD2, OF conjI [OF refl refl]] leI [OF False]] by blast
  qed
  assume "pipe_step depth m w toks out"
  then show "\<exists>m' w'. out = Inr (m', w') \<and> window_ok hw mem specs c opts m' w' \<and> length w' < depth \<and> counted False 1 (cm_stats m) (cm_stats m')"
  proof cases
    case (ps_error m0 e)
    then show ?thesis using call [OF ps_error(2)] by auto
  next
    case (ps_room m0 a m1 w' alloc)
    then show ?thesis using call [OF ps_room(2)] moved inert by auto
  next
    case (ps_full m0 a m1 w' alloc r)
    have e: "w' = after a" "alloc = (if al_ok a then disarm a else a)" using ps_full(4) moved by blast+
    have k: "window_ok hw mem specs c opts m1 (after a)" "counted False 1 (cm_stats m) (cm_stats m1)" using call [OF ps_full(2)] ps_full(3) by auto
    obtain h w'' where h: "after a = h # w''" using ps_full(5) e(1) w(2) by (cases "after a") auto
    obtain m' where m': "r = Inr (m', w'')" "window_ok hw mem specs c opts m' w''" "counted False 0 (cm_stats m1) (cm_stats m')"
      using retire_ok(2) [OF specs, of hw opts m1 h w'' r False] k(1) ps_full(6) e(1) h by auto
    have "counted False (1 + 0) (cm_stats m) (cm_stats m')" by (rule counted_trans [OF k(2) m'(3)])
    then show ?thesis using ps_full(1) m'(1,2) e(2) inert short [of a] h by auto
  qed
qed


lemma run_pipelined_returns:
  assumes specs: "specs_ok mem c specs" and depth: "depth + 1 < 2 ^ 32"
  shows "window_ok hw mem specs c opts m win \<Longrightarrow> length win < depth \<Longrightarrow>
     \<forall>toks \<in> set w. length toks + cfg_block_tokens c < 2 ^ 64 \<Longrightarrow> \<exists>out. run_pipelined depth m w win out"
proof (induction w arbitrary: m win)
  case Nil
  then show ?case
  proof (induction win arbitrary: m)
    case Nil
    then show ?case using rp_done by blast
  next
    case (Cons h win)
    obtain out where out: "retire m (h # win) out" using retire_ok(1) [OF specs Cons.prems(1)] by blast
    obtain m' where m': "out = Inr (m', win)" "window_ok hw mem specs c opts m' win" using retire_ok(2) [OF specs Cons.prems(1) out] by blast
    then obtain r where "run_pipelined depth m' [] win r" using Cons.IH [OF m'(2)] Cons.prems(2,3) by auto
    then show ?case using rp_last [of "h # win" m m' win depth r] out m'(1) by blast
  qed
next
  case (Cons toks w)
  have len: "length toks + cfg_block_tokens c < 2 ^ 64" using Cons.prems(3) by simp
  note S = pipe_step_ok [OF specs Cons.prems(1,2) depth len]
  obtain m' win' where m': "pipe_step depth m win toks (Inr (m', win'))" "window_ok hw mem specs c opts m' win'" "length win' < depth"
    using S by metis
  then show ?case using Cons.IH [OF m'(2,3)] Cons.prems(3) rp_next [OF m'(1)] by auto
qed

lemma run_pipelined_ok:
  assumes specs: "specs_ok mem c specs" and depth: "depth + 1 < 2 ^ 32" and "run_pipelined depth m w win out"
    and "window_ok hw mem specs c opts m win" and "length win < depth" and "\<forall>toks \<in> set w. length toks + cfg_block_tokens c < 2 ^ 64"
  shows "\<exists>m'. out = Inr m' \<and> reachable_cache hw mem specs c opts m' {#} \<and> counted False (length w) (cm_stats m) (cm_stats m')"
  using assms(3-6)
proof (induction rule: run_pipelined.induct)
  case (rp_next m win toks m1 win1 w r)
  have len: "length toks + cfg_block_tokens c < 2 ^ 64" using rp_next.prems(3) by simp
  have s: "window_ok hw mem specs c opts m1 win1" "length win1 < depth" "counted False 1 (cm_stats m) (cm_stats m1)"
    using pipe_step_ok(2) [OF specs rp_next.prems(1,2) depth len rp_next.hyps(1)] by auto
  then obtain m' where m': "r = Inr m'" "reachable_cache hw mem specs c opts m' {#}" "counted False (length w) (cm_stats m1) (cm_stats m')"
    using rp_next.IH rp_next.prems(3) by auto
  then show ?case using counted_trans [OF s(3) m'(3)] by simp
next
  case (rp_error m win toks e w)
  have "length toks + cfg_block_tokens c < 2 ^ 64" using rp_error.prems(3) by simp
  then show ?case using pipe_step_ok(2) [OF specs rp_error.prems(1,2) depth _ rp_error.hyps(1)] by auto
next
  case (rp_last win m m1 win1 r)
  obtain h ws where h: "win = h # ws" using rp_last.hyps(1) by (cases win) auto
  have s: "win1 = ws" "window_ok hw mem specs c opts m1 ws" "counted False 0 (cm_stats m) (cm_stats m1)"
    using retire_ok(2) [OF specs rp_last.prems(1) [unfolded h] rp_last.hyps(2) [unfolded h]] by auto
  then obtain m' where m': "r = Inr m'" "reachable_cache hw mem specs c opts m' {#}" "counted False 0 (cm_stats m1) (cm_stats m')"
    using rp_last.IH rp_last.prems(2) h by auto
  then show ?case using counted_trans [OF s(3) m'(3)] by simp
next
  case (rp_last_error win m e)
  obtain h ws where h: "win = h # ws" using rp_last_error.hyps(1) by (cases win) auto
  show ?case using retire_ok(2) [OF specs rp_last_error.prems(1) [unfolded h] rp_last_error.hyps(2) [unfolded h]] by auto
next
  case (rp_done m)
  then show ?case using counted_refl by (auto simp: window_ok_def)
qed

end
