(* ===== verification/Bench_Theorems.thy ===== *)
theory Bench_Theorems
  imports Bench_Client
begin

section \<open>What the benchmark measures\<close>

text \<open>
  The theorems about the clients: \<^verbatim>\<open>run()\<close> from construction to destruction, the pipelined
  client, the workloads, and the table the program prints for its own configurations.
\<close>

subsection \<open>Runs\<close>

lemma run_ends:
  assumes c: "cfg_ok c" and len: "\<forall>toks \<in> set w. length toks + cfg_block_tokens c < 2 ^ 64"
    and al: "allocates aligned_alloc (total_bytes c)"
  shows "\<exists>out. run aligned_alloc hw c w out"
    and "run aligned_alloc hw c w out \<Longrightarrow> \<exists>res p. out = Inr (res, Map.empty, p) \<and> (\<forall>b. \<not> live p b) \<and> (\<forall>w \<in> set (bp_workers p). w = Exited) \<and> \<not> host_data (bp_mem p ! 0)
       \<and> res_requests res = u64 (length w)
       \<and> ((\<forall>toks \<in> set w. blocks_needed (cfg_block_tokens c) (length toks) \<le> cfg_num_blocks c) \<longrightarrow> res_failures res = 0)"
proof -
  obtain t m where m: "CacheManager_owning aligned_alloc hw c = Inr m" "specs_ok [t] c (one_tier c)"
    "reachable_cache hw [t] (one_tier c) c Options_new m {#}" "cm_stats m = Stats_new" by (rule owning_ready [OF c al])
  note R = run_manager_ok [OF m(2,3) len]
  show "\<exists>out. run aligned_alloc hw c w out"
    using R manager_destroy(1) [OF m(2)] rn_run [OF m(1)] by blast
  assume "run aligned_alloc hw c w out"
  then show "\<exists>res p. out = Inr (res, Map.empty, p) \<and> (\<forall>b. \<not> live p b) \<and> (\<forall>w \<in> set (bp_workers p). w = Exited) \<and> \<not> host_data (bp_mem p ! 0)
       \<and> res_requests res = u64 (length w)
       \<and> ((\<forall>toks \<in> set w. blocks_needed (cfg_block_tokens c) (length toks) \<le> cfg_num_blocks c) \<longrightarrow> res_failures res = 0)"
  proof cases
    case (rn_refused e)
    then show ?thesis using m(1) by simp
  next
    case (rn_error cm e)
    then show ?thesis using R(2) m(1) by fastforce
  next
    case (rn_run cm m' d)
    have m': "reachable_cache hw [t] (one_tier c) c Options_new m' {#}"
      "counted (\<forall>toks \<in> set w. fits (one_tier c) c Options_new toks) (length w) (cm_stats m) (cm_stats m')"
      using R(2) [of "Inr m'"] rn_run(2,3) m(1) by auto
    obtain p where p: "d = Inr (Map.empty, p)" "\<forall>b. \<not> live p b" "\<forall>w \<in> set (bp_workers p). w = Exited" "\<not> host_data (bp_mem p ! 0)"
      using manager_destroy(2) [OF m(2) m'(1) rn_run(4)] by auto
    have "st_requests (cm_stats m') = u64 (length w)"
      "(\<forall>toks \<in> set w. blocks_needed (cfg_block_tokens c) (length toks) \<le> cfg_num_blocks c) \<longrightarrow> st_alloc_failures (cm_stats m') = 0"
      using m'(2) by (auto simp: counted_def m(4) Stats_new_def fits_def one_tier_def)
    then show ?thesis using rn_run(1) p by (simp add: result_of_def)
  qed
qed

text \<open>C17. \<^verbatim>\<open>run()\<close> of the benchmark, over a manager that owns its memory: however the worker threads are
  scheduled, the run ends without error, it has counted every request of the workload once, no request
  has been refused if each fits into the pool on its own, and after the destructor no node is
  left, no block is allocated, every worker has been joined and the arena is freed. If the allocator has no memory, the run ends with
  \<^verbatim>\<open>std::bad_alloc\<close> and nothing else.\<close>

theorem run_correct:
  assumes "cfg_ok c" and "\<forall>toks \<in> set w. length toks + cfg_block_tokens c < 2 ^ 64"
  shows "(allocates aligned_alloc (total_bytes c) \<longrightarrow> (\<exists>out. run aligned_alloc hw c w out)
       \<and> (\<forall>out. run aligned_alloc hw c w out \<longrightarrow> (\<exists>res p. out = Inr (res, Map.empty, p) \<and> (\<forall>b. \<not> live p b)
            \<and> (\<forall>w \<in> set (bp_workers p). w = Exited) \<and> \<not> host_data (bp_mem p ! 0) \<and> res_requests res = u64 (length w)
            \<and> ((\<forall>toks \<in> set w. blocks_needed (cfg_block_tokens c) (length toks) \<le> cfg_num_blocks c) \<longrightarrow> res_failures res = 0))))
     \<and> (aligned_alloc kArenaAlignment (round_up (total_bytes c) kArenaAlignment) = None \<longrightarrow>
          (\<forall>out. run aligned_alloc hw c w out \<longleftrightarrow> out = Inl BadAlloc))"
proof -
  have "CacheManager_owning aligned_alloc hw c = Inl BadAlloc" if none: "aligned_alloc kArenaAlignment (round_up (total_bytes c) kArenaAlignment) = None"
  proof -
    have tot: "total_bytes c = cfg_num_blocks c * block_bytes c" using assms(1) by (simp add: cfg_ok_def total_bytes_def u64_small)
    have "0 < total_bytes c" using tot assms(1) by (simp add: cfg_ok_def)
    moreover have "total_bytes c \<le> round_up (total_bytes c) kArenaAlignment"
      using round_up_correct [of "total_bytes c"] tot assms(1) by (simp add: cfg_ok_def)
    ultimately have "0 < round_up (total_bytes c) kArenaAlignment" by linarith
    then show ?thesis using none by (simp add: owning_tiered HostTier_new_def Let_def)
  qed
  then have "run aligned_alloc hw c w out \<longleftrightarrow> out = Inl BadAlloc"
    if "aligned_alloc kArenaAlignment (round_up (total_bytes c) kArenaAlignment) = None" for out
    using that by (auto intro: rn_refused elim: run.cases)
  then show ?thesis using run_ends [OF assms] by blast
qed

lemma demo_cfg_ok: "cfg_ok demo_cfg" "total_bytes demo_cfg = 8"
  by (simp_all add: cfg_ok_def demo_block_bytes total_bytes_def kArenaAlignment_def u64_def) (simp_all add: demo_cfg_def)

theorem run_correct_witness:
  "\<exists>out res p. run (\<lambda>_ n. Some (replicate n 0)) 1 demo_cfg [[1, 2, 3], [1, 2]] out \<and> out = Inr (res, Map.empty, p)
     \<and> res_requests res = 2 \<and> res_failures res = 0"
proof -
  have al: "allocates (\<lambda>_ n. Some (replicate n 0)) (total_bytes demo_cfg)" by (simp add: allocates_def)
  have len: "\<forall>toks \<in> set [[1, 2, 3], [1, 2] :: TokenId list]. length toks + cfg_block_tokens demo_cfg < 2 ^ 64" by (simp add: demo_cfg_def)
  have fit: "\<forall>toks \<in> set [[1, 2, 3], [1, 2] :: TokenId list]. blocks_needed (cfg_block_tokens demo_cfg) (length toks) \<le> cfg_num_blocks demo_cfg"
    by (simp add: demo_cfg_def blocks_needed_def)
  note R = run_correct [OF demo_cfg_ok(1) len, THEN conjunct1, THEN mp, OF al]
  obtain out where "run (\<lambda>_ n. Some (replicate n 0)) 1 demo_cfg [[1, 2, 3], [1, 2]] out" using R by blast
  then show ?thesis using R [THEN conjunct2] fit by (fastforce simp: u64_def)
qed

text \<open>C18. \<^verbatim>\<open>run_pipelined()\<close> with a depth of at least one can be run to its end, and however the workers are
  scheduled, a run that ends does so without error: it never touches the front of an empty window, and leaves the
  manager with no handle in use, so that what is allocated is what the index holds; every request is counted once and
  no handle is abandoned. (That every run ends is not claimed: \<^verbatim>\<open>wait_ready()\<close>, which the client calls, can miss
  its wake-up; \<open>Wait_Protocol\<close> has the proof.)\<close>

theorem run_pipelined_correct:
  assumes "specs_ok mem c specs" and "reachable_cache hw mem specs c opts m {#}" and "0 < depth" and "depth + 1 < 2 ^ 32"
    and "\<forall>toks \<in> set w. length toks + cfg_block_tokens c < 2 ^ 64"
  shows "(\<exists>out. run_pipelined depth m w [] out)
     \<and> (\<forall>out. run_pipelined depth m w [] out \<longrightarrow> (\<exists>m'. out = Inr m' \<and> reachable_cache hw mem specs c opts m' {#}
          \<and> (\<forall>b. live (cm_pool m') b \<longleftrightarrow> b \<in># tree_blocks (cm_tree m'))
          \<and> st_abandoned (cm_stats m') = st_abandoned (cm_stats m)
          \<and> (st_requests (cm_stats m) < 2 ^ 64 \<longrightarrow> st_requests (cm_stats m') = u64 (st_requests (cm_stats m) + length w))))"
proof -
  have w: "window_ok hw mem specs c opts m []" "length ([] :: window) < depth" using assms(2,3) by (simp_all add: window_ok_def)
  have "live (cm_pool m') b \<longleftrightarrow> b \<in># tree_blocks (cm_tree m')" if "reachable_cache hw mem specs c opts m' {#}" for m' b
    using coreD(3) [OF reachable_cacheD(4) [OF that assms(1)], of b] by (simp add: live_rcount)
  then show ?thesis
    using run_pipelined_returns [OF assms(1,4) w assms(5)] run_pipelined_ok [OF assms(1,4) _ w assms(5)] unfolding counted_def by blast
qed

theorem run_pipelined_correct_witness:
  "\<exists>m m'. reachable_cache 1 demo_mem demo_specs demo_cfg Options_new m {#}
     \<and> run_pipelined 2 m [[1, 2], [1, 2, 3], [4]] [] (Inr m') \<and> st_abandoned (cm_stats m') = st_abandoned (cm_stats m)"
proof -
  obtain m where m: "reachable_cache 1 demo_mem demo_specs demo_cfg Options_new m {#}" by (rule demo_manager)
  have len: "\<forall>toks \<in> set [[1, 2], [1, 2, 3], [4] :: TokenId list]. length toks + cfg_block_tokens demo_cfg < 2 ^ 64" by (simp add: demo_cfg_def)
  have two: "(0::nat) < 2" "(2::nat) + 1 < 2 ^ 32" by simp_all
  note R = run_pipelined_correct [OF demo_specs_ok m two len]
  obtain out where out: "run_pipelined 2 m [[1, 2], [1, 2, 3], [4]] [] out" using R by blast
  then obtain m' where "out = Inr m'" "st_abandoned (cm_stats m') = st_abandoned (cm_stats m)" using R by blast
  then show ?thesis using out m by blast
qed


subsection \<open>Workloads\<close>

text \<open>The workloads are what their comments say. A cold workload has the requested number of
  requests of the requested length. The requests with a shared prefix all begin with the same
  tokens. In a multi-turn workload every turn but the first of a conversation repeats the whole
  history of the turn before. The oversubscribed workload repeats one list of sequences pass after
  pass. Tokens are always below 32000.\<close>

theorem workloads_shape:
  "length (workload_cold n len) = n \<and> (\<forall>ts \<in> set (workload_cold n len). length ts = len \<and> set ts \<subseteq> {x. x < 32000})
   \<and> (\<exists>pre. length pre = k \<and> length (workload_shared_prefix n k len) = n
        \<and> (\<forall>ts \<in> set (workload_shared_prefix n k len). length ts = k + len \<and> take k ts = pre))
   \<and> length (workload_multi_turn n turns len) = n * turns
   \<and> (\<forall>c < n. \<forall>t < turns. length (workload_multi_turn n turns len ! (c * turns + t)) = (t + 1) * len
        \<and> (0 < t \<longrightarrow> take (t * len) (workload_multi_turn n turns len ! (c * turns + t)) = workload_multi_turn n turns len ! (c * turns + t - 1)))
   \<and> (\<exists>unique. length unique = n \<and> (\<forall>ts \<in> set unique. length ts = len) \<and> workload_oversubscribed n len k = concat (replicate k unique))"
proof (intro conjI)
  let ?r = "random_tokens (Lcg_new 2) k"
  have "workload_shared_prefix n k len = map ((@) (fst ?r)) (fst (sequence_loop n len [] (snd ?r)))"
    by (simp add: workload_shared_prefix_def split_def Let_def suffix_loop_eq)
  then show "\<exists>pre. length pre = k \<and> length (workload_shared_prefix n k len) = n
        \<and> (\<forall>ts \<in> set (workload_shared_prefix n k len). length ts = k + len \<and> take k ts = pre)"
    using sequence_loop_shape [of n len "snd ?r"] random_tokens_shape(1) [of "Lcg_new 2" k] by (intro exI [of _ "fst ?r"]) auto
  show "\<exists>unique. length unique = n \<and> (\<forall>ts \<in> set unique. length ts = len) \<and> workload_oversubscribed n len k = concat (replicate k unique)"
    using sequence_loop_shape [of n len "Lcg_new 4"]
    by (intro exI [of _ "fst (sequence_loop n len [] (Lcg_new 4))"]) (simp add: workload_oversubscribed_def split_def Let_def pass_loop_eq)
qed (use sequence_loop_shape [of n len "Lcg_new 1"] conversation_loop_shape [of n turns len "Lcg_new 3"]
     in \<open>simp_all add: workload_cold_def workload_multi_turn_def\<close>)

theorem workloads_shape_witness:
  "length (workload_multi_turn 2000 8 256 ! (1999 * 8 + 7)) = 2048"
proof -
  have "(1999::nat) < 2000" "(7::nat) < 8" by simp_all
  then have "length (workload_multi_turn 2000 8 256 ! (1999 * 8 + 7)) = (7 + 1) * 256"
    using workloads_shape [of 2000 256 1 8] by blast
  then show ?thesis by simp
qed

subsection \<open>The table\<close>

lemma bench_block_bytes: "block_bytes bench_cfg = 2097152"
  by (simp add: block_bytes_def bytes_per_token_def bench_cfg_def u64_def)

lemma bench_cfg_ok: "0 < n \<Longrightarrow> n \<le> 8192 \<Longrightarrow> cfg_ok (bench_cfg\<lparr>cfg_num_blocks := n\<rparr>)"
proof -
  assume "0 < n" "n \<le> 8192"
  moreover have "block_bytes (bench_cfg\<lparr>cfg_num_blocks := n\<rparr>) = 2097152"
    by (simp add: block_bytes_def bytes_per_token_def bench_cfg_def u64_def)
  ultimately show ?thesis by (simp add: cfg_ok_def kArenaAlignment_def) (simp add: bench_cfg_def)
qed

lemma main_lengths:
  assumes "w \<in> set main_workloads" and "toks \<in> set w"
  shows "length toks \<le> 2048"
proof -
  consider "w = workload_cold 20000 512" | "w = workload_shared_prefix 20000 1024 64" | "w = workload_multi_turn 2000 8 256"
    using assms(1) by (auto simp: main_workloads_def)
  then show ?thesis
  proof cases
    case 1
    then show ?thesis using sequence_loop_shape [of 20000 512 "Lcg_new 1"] assms(2) by (simp add: workload_cold_def)
  next
    case 2
    then show ?thesis
      using sequence_loop_shape [of 20000 64 "snd (random_tokens (Lcg_new 2) 1024)"] random_tokens_shape(1) [of "Lcg_new 2" 1024] assms(2)
      by (auto simp: workload_shared_prefix_def split_def Let_def suffix_loop_eq)
  next
    case 3
    then obtain i where i: "i < 2000 * 8" "toks = w ! i"
      using conversation_loop_shape [of 2000 8 256 "Lcg_new 3"] assms(2) by (metis in_set_conv_nth workload_multi_turn_def)
    have "i div 8 < 2000" "i mod 8 < 8" "i div 8 * 8 + i mod 8 = i" using i(1) by simp_all
    then have "length (w ! i) = (i mod 8 + 1) * 256"
      using conversation_loop_shape [of 2000 8 256 "Lcg_new 3"] 3 by (metis workload_multi_turn_def)
    then show ?thesis using i(2) \<open>i mod 8 < 8\<close> by simp
  qed
qed

lemma tiering_shape: "length (tiering_workload bench_cfg) = 640" "toks \<in> set (tiering_workload bench_cfg) \<Longrightarrow> length toks = 256"
proof -
  have bt: "cfg_block_tokens bench_cfg = 16" by (simp add: bench_cfg_def)
  have "tiering_workload bench_cfg = concat (replicate 5 (fst (sequence_loop 128 256 [] (Lcg_new 4))))"
    by (simp add: tiering_workload_def bt workload_oversubscribed_def split_def Let_def pass_loop_eq)
  then show "length (tiering_workload bench_cfg) = 640" "toks \<in> set (tiering_workload bench_cfg) \<Longrightarrow> length toks = 256"
    using sequence_loop_shape [of 128 256 "Lcg_new 4"] by (auto simp: length_concat sum_list_replicate split: if_splits)
qed

lemma tiering_ready:
  assumes al: "\<And>n. allocates aligned_alloc n"
  obtains mem m where "bindE (tiering_memory aligned_alloc bench_cfg) (\<lambda>mem. CacheManager_tiered hw mem tiering_specs bench_cfg opts) = Inr m"
    and "specs_ok mem bench_cfg tiering_specs" and "reachable_cache hw mem tiering_specs bench_cfg opts m {#}" and "cm_stats m = Stats_new"
proof -
  obtain t where t: "HostTier_new aligned_alloc (1024 * 2097152) = Inr t" "tier_ok t" "1024 * 2097152 \<le> ht_capacity t"
    by (rule HostTier_ready [OF al, of "1024 * 2097152"]) (simp_all add: kArenaAlignment_def)
  obtain t' where t': "HostTier_new aligned_alloc (2048 * 2097152) = Inr t'" "tier_ok t'" "2048 * 2097152 \<le> ht_capacity t'"
    by (rule HostTier_ready [OF al, of "2048 * 2097152"]) (simp_all add: kArenaAlignment_def)
  have mem: "tiering_memory aligned_alloc bench_cfg = Inr [t, t']"
    using t(1) t'(1) by (simp add: tiering_memory_def bench_block_bytes u64_def)
  have s: "specs_ok [t, t'] bench_cfg tiering_specs" using t(2,3) t'(2,3) by (simp add: specs_ok_def tiering_specs_def bench_block_bytes)
  obtain p where "pool_init hw [t, t'] bench_cfg tiering_specs = Inr p" using pool_init_ok [OF s, of hw] by metis
  then obtain m where m: "CacheManager_tiered hw [t, t'] tiering_specs bench_cfg opts = Inr m"
    by (simp add: CacheManager_tiered_def CacheManager_on_def BlockPool_tiered_def RadixTree_new_def bench_cfg_def)
  show thesis using that [of m "[t, t']"] mem m s rc_init [OF m] cache_init(6) [OF s m] by simp
qed

lemma tiered_row_ok:
  assumes al: "\<And>n. allocates aligned_alloc n" and row: "(opts, depth) \<in> set tiering_rows"
  shows "\<exists>out. tiered_row aligned_alloc hw bench_cfg opts depth out"
    and "tiered_row aligned_alloc hw bench_cfg opts depth out \<Longrightarrow> \<exists>m'. out = Inr m' \<and> st_requests (cm_stats m') = 640
           \<and> st_abandoned (cm_stats m') = 0 \<and> (depth = None \<longrightarrow> st_alloc_failures (cm_stats m') = 0)"
proof -
  obtain mem m where m: "bindE (tiering_memory aligned_alloc bench_cfg) (\<lambda>mem. CacheManager_tiered hw mem tiering_specs bench_cfg opts) = Inr m"
    "specs_ok mem bench_cfg tiering_specs" "reachable_cache hw mem tiering_specs bench_cfg opts m {#}" "cm_stats m = Stats_new"
    by (rule tiering_ready [OF al])
  have bt: "cfg_block_tokens bench_cfg = 16" by (simp add: bench_cfg_def)
  let ?w = "tiering_workload bench_cfg"
  have len: "\<forall>toks \<in> set ?w. length toks + cfg_block_tokens bench_cfg < 2 ^ 64" using tiering_shape(2) bt by simp
  have win: "window_ok hw mem tiering_specs bench_cfg opts m []" using m(3) by (simp add: window_ok_def)
  have cases: "depth = None \<and> \<not> op_async_promotion opts \<or> depth = Some 8"
    using row by (auto simp: tiering_rows_def Options_new_def)
  note R = run_manager_ok [OF m(2,3) len] and P = run_pipelined_ok [OF m(2) _ _ win _ len]
  have eight: "(8::nat) + 1 < 2 ^ 32" "length ([] :: window) < 8" by simp_all
  show "\<exists>out. tiered_row aligned_alloc hw bench_cfg opts depth out"
    using cases R(1) run_pipelined_returns [OF m(2) eight(1) win eight(2) len] tr_run [OF m(1)] tr_pipelined [OF m(1)] by blast
  have fit: "fits tiering_specs bench_cfg opts toks" if "toks \<in> set ?w" "\<not> op_async_promotion opts" for toks
    using tiering_shape(2) that by (simp add: fits_def bt tiering_specs_def blocks_needed_def)
  have fin: "st_requests s' = 640 \<and> st_abandoned s' = 0 \<and> (f \<longrightarrow> st_alloc_failures s' = 0)" if "counted f (length ?w) (cm_stats m) s'" for f s'
    using that by (simp add: counted_def m(4) Stats_new_def tiering_shape(1) u64_def)
  assume "tiered_row aligned_alloc hw bench_cfg opts depth out"
  then show "\<exists>m'. out = Inr m' \<and> st_requests (cm_stats m') = 640 \<and> st_abandoned (cm_stats m') = 0
     \<and> (depth = None \<longrightarrow> st_alloc_failures (cm_stats m') = 0)"
  proof cases
    case (tr_refused e)
    then show ?thesis using m(1) by simp
  next
    case (tr_run cm)
    then show ?thesis using R(2) [of out] m(1) fin cases fit by fastforce
  next
    case (tr_pipelined cm d)
    then have "run_pipelined 8 m ?w [] out" "depth = Some 8" using m(1) cases by auto
    then show ?thesis using P [OF eight(1) _ eight(2)] fin by fastforce
  qed
qed

text \<open>C38. The benchmark program's own table, at its own sizes, when the allocator delivers: each of the
  three workloads of \<^verbatim>\<open>main()\<close> and each row of \<^verbatim>\<open>bench_tiering()\<close> that serves one request at a time runs to its
  end without error under every schedule of the workers, with zero in the column of failed requests. The pipelined
  row with background promotion waits for its copies: it can be run to its end, and every run of it that ends has met no error,
  counted its 640 requests and abandoned none.\<close>

theorem benchmark_table:
  assumes "\<And>n. allocates aligned_alloc n"
  shows "(\<forall>w \<in> set main_workloads. (\<exists>out. run aligned_alloc hw bench_cfg w out)
         \<and> (\<forall>out. run aligned_alloc hw bench_cfg w out \<longrightarrow> (\<exists>res p. out = Inr (res, Map.empty, p) \<and> res_failures res = 0)))
     \<and> (\<exists>out. run aligned_alloc hw (bench_cfg\<lparr>cfg_num_blocks := 1024\<rparr>) (tiering_workload bench_cfg) out)
     \<and> (\<forall>out. run aligned_alloc hw (bench_cfg\<lparr>cfg_num_blocks := 1024\<rparr>) (tiering_workload bench_cfg) out \<longrightarrow>
          (\<exists>res p. out = Inr (res, Map.empty, p) \<and> res_requests res = 640 \<and> res_failures res = 0))
     \<and> (\<forall>(opts, depth) \<in> set tiering_rows. (\<exists>out. tiered_row aligned_alloc hw bench_cfg opts depth out)
         \<and> (\<forall>out. tiered_row aligned_alloc hw bench_cfg opts depth out \<longrightarrow> (\<exists>m'. out = Inr m' \<and> st_requests (cm_stats m') = 640
              \<and> st_abandoned (cm_stats m') = 0 \<and> (depth = None \<longrightarrow> st_alloc_failures (cm_stats m') = 0))))"
proof -
  have big: "bench_cfg\<lparr>cfg_num_blocks := 8192\<rparr> = bench_cfg" by (simp add: bench_cfg_def)
  have bt: "cfg_block_tokens (bench_cfg\<lparr>cfg_num_blocks := n\<rparr>) = 16" for n by (simp add: bench_cfg_def)
  have need: "blocks_needed 16 k \<le> 128" if "k \<le> 2048" for k
  proof -
    have "(k + 16 - 1) div 16 \<le> (2048 + 16 - 1) div 16" using that by (intro div_le_mono) simp
    then show ?thesis by (simp add: blocks_needed_def)
  qed
  have ends: "(\<exists>out. run aligned_alloc hw (bench_cfg\<lparr>cfg_num_blocks := n\<rparr>) w out)
      \<and> (\<forall>out. run aligned_alloc hw (bench_cfg\<lparr>cfg_num_blocks := n\<rparr>) w out \<longrightarrow>
           (\<exists>res p. out = Inr (res, Map.empty, p) \<and> res_requests res = u64 (length w) \<and> res_failures res = 0))"
    if n: "128 \<le> n" "n \<le> 8192" and w: "\<forall>toks \<in> set w. length toks \<le> 2048" for n w
  proof -
    have len: "\<forall>toks \<in> set w. length toks + cfg_block_tokens (bench_cfg\<lparr>cfg_num_blocks := n\<rparr>) < 2 ^ 64" using w bt by fastforce
    have fit: "\<forall>toks \<in> set w. blocks_needed (cfg_block_tokens (bench_cfg\<lparr>cfg_num_blocks := n\<rparr>)) (length toks) \<le> cfg_num_blocks (bench_cfg\<lparr>cfg_num_blocks := n\<rparr>)"
      using w need n(1) bt [of n] by fastforce
    have "cfg_ok (bench_cfg\<lparr>cfg_num_blocks := n\<rparr>)" by (rule bench_cfg_ok) (use n in simp_all)
    from run_ends [OF this len assms, of hw] show ?thesis using fit by blast
  qed
  have main: "(\<exists>out. run aligned_alloc hw bench_cfg w out)
       \<and> (\<forall>out. run aligned_alloc hw bench_cfg w out \<longrightarrow> (\<exists>res p. out = Inr (res, Map.empty, p) \<and> res_failures res = 0))"
    if "w \<in> set main_workloads" for w
  proof -
    have "(128::nat) \<le> 8192" "(8192::nat) \<le> 8192" "\<forall>toks \<in> set w. length toks \<le> 2048" using main_lengths [OF that] by auto
    from ends [OF this] show ?thesis unfolding big by blast
  qed
  have "(128::nat) \<le> 1024" "(1024::nat) \<le> 8192" "\<forall>toks \<in> set (tiering_workload bench_cfg). length toks \<le> 2048"
    using tiering_shape(2) by auto
  note single = ends [OF this, unfolded tiering_shape(1)]
  have u: "u64 640 = 640" by (simp add: u64_def)
  have rows: "\<forall>(opts, depth) \<in> set tiering_rows. (\<exists>out. tiered_row aligned_alloc hw bench_cfg opts depth out)
         \<and> (\<forall>out. tiered_row aligned_alloc hw bench_cfg opts depth out \<longrightarrow> (\<exists>m'. out = Inr m' \<and> st_requests (cm_stats m') = 640
              \<and> st_abandoned (cm_stats m') = 0 \<and> (depth = None \<longrightarrow> st_alloc_failures (cm_stats m') = 0)))"
    using tiered_row_ok [OF assms] by blast
  show ?thesis using main single [unfolded u] rows by blast
qed

theorem benchmark_table_witness:
  "\<exists>out res p. run (\<lambda>_ n. Some (replicate n 0)) 4 bench_cfg (workload_multi_turn 2000 8 256) out
     \<and> out = Inr (res, Map.empty, p) \<and> res_failures res = 0"
proof -
  have al: "allocates (\<lambda>_ n. Some (replicate n 0)) n" for n by (simp add: allocates_def)
  have w: "workload_multi_turn 2000 8 256 \<in> set main_workloads" by (simp add: main_workloads_def)
  note R = benchmark_table [OF al, of 4, THEN conjunct1, rule_format, OF w]
  show ?thesis using R by blast
qed

end
