(* ===== verification/Wait_Protocol.thy ===== *)
theory Wait_Protocol
  imports Kvs_Prelude
begin

section \<open>The wake-up protocol of the migration queue\<close>

text \<open>
  How \<^verbatim>\<open>wait_for_migrations()\<close> and \<^verbatim>\<open>worker_loop()\<close> (\<^verbatim>\<open>src/block_pool.cpp\<close>) synchronise: the mutex
  \<^verbatim>\<open>queue_mutex_\<close>, the condition variable \<^verbatim>\<open>queue_cv_\<close> and the \<^verbatim>\<open>done\<close> flags, with the data
  left out. A thread that waits evaluates its predicate with the mutex held and then gives
  up the mutex and goes to sleep in one step; \<^verbatim>\<open>notify_all()\<close> wakes the threads that are
  asleep, which then take the mutex and evaluate their predicate again. The worker stores
  \<^verbatim>\<open>done\<close> and notifies without the mutex. Sequentially consistent memory, no spurious wake-ups
  (the code must not depend on them), a fixed queue and no shutdown, since the one thread
  that adds jobs or destroys the pool is the one that waits.
\<close>

datatype loop_pc = W_Lock | W_Check | W_Asleep | W_Copy nat | W_Store nat | W_Notify

datatype wait_pc = S_Lock | S_Scan nat | S_Block | S_Asleep | S_Done

record wait_state =
  wt_locked :: bool
  wt_next :: nat
  wt_done :: "bool list"
  wt_loops :: "loop_pc list"
  wt_wait :: wait_pc

definition wait_start :: "nat \<Rightarrow> nat \<Rightarrow> wait_state" where
  "wait_start k n = \<lparr>wt_locked = False, wt_next = 0, wt_done = replicate n False, wt_loops = replicate k W_Lock, wt_wait = S_Lock\<rparr>"

definition wake_loop :: "loop_pc \<Rightarrow> loop_pc" where
  "wake_loop w = (if w = W_Asleep then W_Lock else w)"

definition wake_wait :: "wait_pc \<Rightarrow> wait_pc" where
  "wake_wait w = (if w = S_Asleep then S_Lock else w)"

text \<open>One step of worker \<open>i\<close> in \<^verbatim>\<open>worker_loop()\<close>.\<close>

inductive loop_step :: "nat \<Rightarrow> wait_state \<Rightarrow> wait_state \<Rightarrow> bool" for i where
  l_lock: "wt_loops s ! i = W_Lock \<Longrightarrow> \<not> wt_locked s \<Longrightarrow>
     loop_step i s (s\<lparr>wt_locked := True, wt_loops := (wt_loops s)[i := W_Check]\<rparr>)"
| l_sleep: "wt_loops s ! i = W_Check \<Longrightarrow> \<not> wt_next s < length (wt_done s) \<Longrightarrow>
     loop_step i s (s\<lparr>wt_locked := False, wt_loops := (wt_loops s)[i := W_Asleep]\<rparr>)"
| l_claim: "wt_loops s ! i = W_Check \<Longrightarrow> wt_next s < length (wt_done s) \<Longrightarrow>
     loop_step i s (s\<lparr>wt_locked := False, wt_next := wt_next s + 1, wt_loops := (wt_loops s)[i := W_Copy (wt_next s)]\<rparr>)"
| l_copy: "wt_loops s ! i = W_Copy j \<Longrightarrow> loop_step i s (s\<lparr>wt_loops := (wt_loops s)[i := W_Store j]\<rparr>)"
| l_store: "wt_loops s ! i = W_Store j \<Longrightarrow>
     loop_step i s (s\<lparr>wt_done := (wt_done s)[j := True], wt_loops := (wt_loops s)[i := W_Notify]\<rparr>)"
| l_notify: "wt_loops s ! i = W_Notify \<Longrightarrow>
     loop_step i s (s\<lparr>wt_loops := (map wake_loop (wt_loops s))[i := W_Lock], wt_wait := wake_wait (wt_wait s)\<rparr>)"

text \<open>One step of the scheduler thread in \<^verbatim>\<open>wait_for_migrations()\<close>.\<close>

inductive waiter_step :: "wait_state \<Rightarrow> wait_state \<Rightarrow> bool" where
  s_lock: "wt_wait s = S_Lock \<Longrightarrow> \<not> wt_locked s \<Longrightarrow> waiter_step s (s\<lparr>wt_locked := True, wt_wait := S_Scan 0\<rparr>)"
| s_next: "wt_wait s = S_Scan j \<Longrightarrow> j < length (wt_done s) \<Longrightarrow> wt_done s ! j \<Longrightarrow> waiter_step s (s\<lparr>wt_wait := S_Scan (j + 1)\<rparr>)"
| s_false: "wt_wait s = S_Scan j \<Longrightarrow> j < length (wt_done s) \<Longrightarrow> \<not> wt_done s ! j \<Longrightarrow> waiter_step s (s\<lparr>wt_wait := S_Block\<rparr>)"
| s_sleep: "wt_wait s = S_Block \<Longrightarrow> waiter_step s (s\<lparr>wt_locked := False, wt_wait := S_Asleep\<rparr>)"
| s_done: "wt_wait s = S_Scan j \<Longrightarrow> \<not> j < length (wt_done s) \<Longrightarrow> waiter_step s (s\<lparr>wt_locked := False, wt_wait := S_Done\<rparr>)"

inductive wait_reach :: "nat \<Rightarrow> nat \<Rightarrow> wait_state \<Rightarrow> bool" for k n where
  wa_start: "wait_reach k n (wait_start k n)"
| wa_loop: "wait_reach k n s \<Longrightarrow> i < length (wt_loops s) \<Longrightarrow> loop_step i s s' \<Longrightarrow> wait_reach k n s'"
| wa_waiter: "wait_reach k n s \<Longrightarrow> waiter_step s s' \<Longrightarrow> wait_reach k n s'"

definition stuck :: "wait_state \<Rightarrow> bool" where
  "stuck s \<longleftrightarrow> (\<forall>s'. \<not> waiter_step s s') \<and> (\<forall>i < length (wt_loops s). \<forall>s'. \<not> loop_step i s s')"

inductive_simps loop_step_simps: "loop_step i s s'"
inductive_simps waiter_step_simps: "waiter_step s s'"

subsection \<open>Invariant\<close>

fun holds :: "loop_pc \<Rightarrow> nat option" where
  "holds (W_Copy j) = Some j"
| "holds (W_Store j) = Some j"
| "holds _ = None"

definition inside :: "wait_pc \<Rightarrow> bool" where
  "inside w \<longleftrightarrow> w = S_Block \<or> (\<exists>j. w = S_Scan j)"

text \<open>
  The mutex is held only inside a critical section; a worker sleeps only when the queue is
  claimed; a claimed job is done or in a worker's hands; what the scan has passed is done.
\<close>

definition wait_inv :: "nat \<Rightarrow> nat \<Rightarrow> wait_state \<Rightarrow> bool" where
  "wait_inv k n s \<longleftrightarrow> length (wt_loops s) = k \<and> length (wt_done s) = n
     \<and> (wt_locked s \<longrightarrow> inside (wt_wait s) \<or> W_Check \<in> set (wt_loops s))
     \<and> (W_Asleep \<in> set (wt_loops s) \<longrightarrow> wt_next s = n) \<and> wt_next s \<le> n
     \<and> (\<forall>j < wt_next s. wt_done s ! j \<or> Some j \<in> holds ` set (wt_loops s))
     \<and> (\<forall>j. wt_wait s = S_Scan j \<longrightarrow> (\<forall>l < j. l < n \<longrightarrow> wt_done s ! l))
     \<and> (wt_wait s = S_Done \<longrightarrow> (\<forall>j < n. wt_done s ! j))"

lemma wake_wait_simps:
  "inside (wake_wait w) \<longleftrightarrow> inside w" "wake_wait w = S_Scan j \<longleftrightarrow> w = S_Scan j" "wake_wait w = S_Done \<longleftrightarrow> w = S_Done"
  by (auto simp: wake_wait_def inside_def)

lemma wait_inv_start: "wait_inv k n (wait_start k n)"
  by (simp add: wait_inv_def wait_start_def)

lemma wait_inv_waiter:
  assumes inv: "wait_inv k n s" and step: "waiter_step s s'"
  shows "wait_inv k n s'"
  using step
proof cases
  case s_lock
  then show ?thesis using inv by (simp add: wait_inv_def inside_def)
next
  case (s_next j)
  then show ?thesis using inv by (simp add: wait_inv_def inside_def less_Suc_eq)
next
  case (s_false j)
  then show ?thesis using inv by (simp add: wait_inv_def inside_def)
next
  case s_sleep
  then show ?thesis using inv by (simp add: wait_inv_def)
next
  case (s_done j)
  then show ?thesis using inv by (simp add: wait_inv_def)
qed

lemma update_set: "i < length xs \<Longrightarrow> set (xs[i := x]) \<subseteq> insert x (set xs)" "i < length xs \<Longrightarrow> x \<in> set (xs[i := x])"
  by (auto simp: set_update_subset_insert set_update_memI)

text \<open>What a worker lets go of, another still holds.\<close>

lemma holds_update:
  assumes "i < length xs" and "y \<in> set xs" and "y \<noteq> xs ! i"
  shows "y \<in> set (xs[i := x])"
  using assms by (metis in_set_conv_nth length_list_update nth_list_update_neq)

lemma held_update:
  assumes i: "i < length xs" and j: "Some j \<in> holds ` set xs" and x: "holds (xs ! i) = Some j \<Longrightarrow> holds x = Some j"
  shows "Some j \<in> holds ` set (xs[i := x])"
proof -
  obtain y where y: "y \<in> set xs" "holds y = Some j" using j by (metis (no_types) imageE)
  show ?thesis
  proof (cases "y = xs ! i")
    case True
    then show ?thesis using x y(2) set_update_memI [OF i] by (metis imageI)
  next
    case False
    then show ?thesis using holds_update [OF i y(1)] y(2) by (metis imageI)
  qed
qed

text \<open>A notification wakes every sleeper and leaves every claim where it is.\<close>

lemma notify_loops:
  fixes xs :: "loop_pc list"
  defines "ys \<equiv> map wake_loop xs"
  assumes i: "i < length xs" and pc: "xs ! i = W_Notify"
  shows "Some j \<in> holds ` set xs \<Longrightarrow> Some j \<in> holds ` set (ys[i := W_Lock])"
    and "W_Asleep \<notin> set (ys[i := W_Lock])"
    and "W_Check \<in> set xs \<Longrightarrow> W_Check \<in> set (ys[i := W_Lock])"
proof -
  have i': "i < length ys" "ys ! i = W_Notify" using i pc by (simp_all add: ys_def wake_loop_def)
  have hw: "holds (wake_loop w) = holds w" for w by (simp add: wake_loop_def)
  have "holds ` set ys = holds ` set xs" by (simp add: ys_def image_image hw)
  then show "Some j \<in> holds ` set (ys[i := W_Lock])" if "Some j \<in> holds ` set xs"
    using held_update [OF i'(1), of j W_Lock] that i'(2) by simp
  show "W_Asleep \<notin> set (ys[i := W_Lock])"
    using set_update_subset_insert [of ys i W_Lock] by (auto simp: ys_def wake_loop_def)
  assume "W_Check \<in> set xs"
  then have "W_Check \<in> set ys" by (force simp: ys_def wake_loop_def)
  then show "W_Check \<in> set (ys[i := W_Lock])" using holds_update [OF i'(1)] i'(2) by simp
qed

lemma wait_inv_loop:
  assumes inv: "wait_inv k n s" and i: "i < length (wt_loops s)" and step: "loop_step i s s'"
  shows "wait_inv k n s'"
proof -
  note sub = set_update_subset_insert [of "wt_loops s" i]
  note held = held_update [OF i]
  from step show ?thesis
  proof cases
    case l_lock
    have "W_Check \<in> set ((wt_loops s)[i := W_Check])" by (rule set_update_memI [OF i])
    moreover have "Some j \<in> holds ` set ((wt_loops s)[i := W_Check])" if "Some j \<in> holds ` set (wt_loops s)" for j
      using held [OF that] l_lock(2) by simp
    moreover have "W_Asleep \<in> set (wt_loops s)" if "W_Asleep \<in> set ((wt_loops s)[i := W_Check])" using sub that by blast
    ultimately show ?thesis using inv l_lock(1) unfolding wait_inv_def by simp blast
  next
    case l_sleep
    have "Some j \<in> holds ` set ((wt_loops s)[i := W_Asleep])" if "Some j \<in> holds ` set (wt_loops s)" for j
      using held [OF that] l_sleep(2) by simp
    then show ?thesis using inv l_sleep(1,3) unfolding wait_inv_def by simp metis
  next
    case l_claim
    have "Some j \<in> holds ` set ((wt_loops s)[i := W_Copy (wt_next s)])" if "Some j \<in> holds ` set (wt_loops s)" for j
      using held [OF that] l_claim(2) by simp
    moreover have "Some (wt_next s) \<in> holds ` set ((wt_loops s)[i := W_Copy (wt_next s)])"
      using set_update_memI [OF i, of "W_Copy (wt_next s)"] by (metis holds.simps(1) imageI)
    moreover have "W_Asleep \<notin> set ((wt_loops s)[i := W_Copy (wt_next s)])"
      using sub [of "W_Copy (wt_next s)"] inv l_claim(3) by (auto simp: wait_inv_def)
    ultimately show ?thesis using inv l_claim(1,3) unfolding wait_inv_def by (simp add: less_Suc_eq) blast
  next
    case (l_copy j)
    have "Some l \<in> holds ` set ((wt_loops s)[i := W_Store j])" if "Some l \<in> holds ` set (wt_loops s)" for l
      using held [OF that] l_copy(2) by simp
    moreover have "W_Asleep \<in> set (wt_loops s)" if "W_Asleep \<in> set ((wt_loops s)[i := W_Store j])" using sub that by blast
    moreover have "W_Check \<in> set ((wt_loops s)[i := W_Store j])" if "W_Check \<in> set (wt_loops s)" using holds_update [OF i that] l_copy(2) by simp
    ultimately show ?thesis using inv l_copy(1) unfolding wait_inv_def by simp blast
  next
    case (l_store j)
    have "Some l \<in> holds ` set ((wt_loops s)[i := W_Notify])" if "Some l \<in> holds ` set (wt_loops s)" "l \<noteq> j" for l
      using held [OF that(1)] that(2) l_store(2) by simp
    moreover have "W_Asleep \<in> set (wt_loops s)" if "W_Asleep \<in> set ((wt_loops s)[i := W_Notify])" using sub that by blast
    moreover have "W_Check \<in> set ((wt_loops s)[i := W_Notify])" if "W_Check \<in> set (wt_loops s)" using holds_update [OF i that] l_store(2) by simp
    moreover have "(wt_done s)[j := True] ! l \<longleftrightarrow> wt_done s ! l \<or> l = j" if "l < length (wt_done s)" for l using that by (cases "l = j") auto
    ultimately show ?thesis using inv l_store(1) unfolding wait_inv_def by simp (metis order_less_le_trans)
  next
    case l_notify
    show ?thesis using inv l_notify(1) notify_loops [OF i l_notify(2)] unfolding wait_inv_def by (simp add: wake_wait_simps) blast
  qed
qed

lemma wait_reach_inv: "wait_reach k n s \<Longrightarrow> wait_inv k n s"
  by (induction rule: wait_reach.induct) (auto intro: wait_inv_start wait_inv_loop wait_inv_waiter)

subsection \<open>Where it can stop\<close>

lemma loop_enabled:
  assumes "i < length (wt_loops s)" and "\<forall>s'. \<not> loop_step i s s'"
  shows "wt_loops s ! i = W_Asleep \<or> (wt_loops s ! i = W_Lock \<and> wt_locked s)"
proof (cases "wt_loops s ! i")
  case W_Check
  then show ?thesis using assms(2) l_sleep [of s i] l_claim [of s i] by (cases "wt_next s < length (wt_done s)") auto
qed (use assms(2) l_lock [of s i] l_copy [of s i] l_store [of s i] l_notify [of s i] in auto)

lemma waiter_enabled:
  assumes "\<forall>s'. \<not> waiter_step s s'"
  shows "wt_wait s = S_Asleep \<or> wt_wait s = S_Done \<or> (wt_wait s = S_Lock \<and> wt_locked s)"
proof (cases "wt_wait s")
  case (S_Scan j)
  then show ?thesis using assms s_next [of s j] s_false [of s j] s_done [of s j] by (cases "j < length (wt_done s)") auto
qed (use assms s_lock [of s] s_sleep [of s] in auto)

lemma stuck_all_done:
  assumes r: "wait_reach k n s" and k: "0 < k" and st: "stuck s"
  shows "(\<forall>j < n. wt_done s ! j) \<and> (wt_wait s = S_Done \<or> wt_wait s = S_Asleep)"
proof -
  note inv = wait_reach_inv [OF r, unfolded wait_inv_def]
  have loops: "w = W_Asleep \<or> w = W_Lock" if "w \<in> set (wt_loops s)" for w
    using that st loop_enabled unfolding stuck_def by (metis in_set_conv_nth)
  have "W_Check \<notin> set (wt_loops s)" using loops by blast
  moreover have "\<not> inside (wt_wait s)" using waiter_enabled [of s] st by (auto simp: stuck_def inside_def)
  ultimately have free: "\<not> wt_locked s" using inv by blast
  have i: "0 < length (wt_loops s)" using inv k by simp
  have "wt_loops s ! 0 = W_Asleep" using loop_enabled [OF i] st free i by (auto simp: stuck_def)
  then have next_n: "wt_next s = n" using inv nth_mem [OF i] by simp
  have "holds w = None" if "w \<in> set (wt_loops s)" for w using loops [OF that] by auto
  then have "\<forall>j < n. wt_done s ! j" using inv next_n by force
  moreover have "wt_wait s = S_Done \<or> wt_wait s = S_Asleep" using waiter_enabled [of s] st free by (auto simp: stuck_def)
  ultimately show ?thesis by blast
qed

text \<open>One worker, one job: the worker finishes between the waiter's check and its sleep.\<close>

definition lost :: wait_state where
  "lost = \<lparr>wt_locked = False, wt_next = 1, wt_done = [True], wt_loops = [W_Asleep], wt_wait = S_Asleep\<rparr>"

lemma lost_stuck: "stuck lost"
  by (auto simp: stuck_def lost_def loop_step_simps waiter_step_simps)

lemma lost_reachable: "wait_reach 1 1 lost"
proof -
  let ?s = "\<lambda>l x d w v. \<lparr>wt_locked = l, wt_next = x, wt_done = [d], wt_loops = [w], wt_wait = v\<rparr>"
  note loop = wa_loop [of 1 1 _ 0] and steps = loop_step_simps waiter_step_simps
  have "wait_reach 1 1 (?s False 0 False W_Lock S_Lock)" using wa_start [of 1 1] by (simp add: wait_start_def)
  then have "wait_reach 1 1 (?s True 0 False W_Check S_Lock)" by (rule loop) (simp_all add: steps)
  then have "wait_reach 1 1 (?s False 1 False (W_Copy 0) S_Lock)" by (rule loop) (simp_all add: steps)
  then have "wait_reach 1 1 (?s False 1 False (W_Store 0) S_Lock)" by (rule loop) (simp_all add: steps)
  then have "wait_reach 1 1 (?s True 1 False (W_Store 0) (S_Scan 0))" by (rule wa_waiter) (simp add: steps)
  then have "wait_reach 1 1 (?s True 1 False (W_Store 0) S_Block)" by (rule wa_waiter) (simp add: steps)
  then have "wait_reach 1 1 (?s True 1 True W_Notify S_Block)" by (rule loop) (simp_all add: steps)
  then have "wait_reach 1 1 (?s True 1 True W_Lock S_Block)" by (rule loop) (simp_all add: steps wake_wait_def)
  then have "wait_reach 1 1 (?s False 1 True W_Lock S_Asleep)" by (rule wa_waiter) (simp add: steps)
  then have "wait_reach 1 1 (?s True 1 True W_Check S_Asleep)" by (rule loop) (simp_all add: steps)
  then have "wait_reach 1 1 (?s False 1 True W_Asleep S_Asleep)" by (rule loop) (simp_all add: steps)
  then show ?thesis by (simp add: lost_def)
qed

text \<open>C20. \<^verbatim>\<open>wait_for_migrations()\<close> can hang. It returns only when every job is done, and with at
  least one worker the threads come to a stop only once every job is done; but
  the waiter can then be asleep for good: a worker that stores \<^verbatim>\<open>done\<close> and notifies between
  the waiter's check of the flags and its going to sleep notifies nobody, and nobody
  notifies again.\<close>

theorem wait_can_hang:
  "(\<forall>k n s. 0 < k \<longrightarrow> wait_reach k n s \<longrightarrow> (wt_wait s = S_Done \<longrightarrow> (\<forall>j < n. wt_done s ! j))
      \<and> (stuck s \<longrightarrow> (\<forall>j < n. wt_done s ! j) \<and> (wt_wait s = S_Done \<or> wt_wait s = S_Asleep)))
   \<and> (\<exists>s. wait_reach 1 1 s \<and> stuck s \<and> wt_wait s = S_Asleep \<and> wt_done s = [True])"
proof -
  have "\<forall>j < n. wt_done s ! j" if "wait_reach k n s" "wt_wait s = S_Done" for k n s
    using wait_reach_inv [OF that(1)] that(2) by (simp add: wait_inv_def)
  moreover have "wait_reach 1 1 lost \<and> stuck lost \<and> wt_wait lost = S_Asleep \<and> wt_done lost = [True]"
    using lost_reachable lost_stuck by (simp add: lost_def)
  ultimately show ?thesis using stuck_all_done by blast
qed

theorem wait_can_hang_witness:
  "\<exists>s. wait_reach 1 1 s \<and> stuck s \<and> wt_wait s = S_Asleep \<and> (\<forall>j < 1. wt_done s ! j)"
proof -
  obtain s where s: "wait_reach 1 1 s" "stuck s" "wt_wait s = S_Asleep" using wait_can_hang by blast
  have "\<forall>j < 1. wt_done s ! j" using conjunct1 [OF wait_can_hang] s(1,2) zero_less_one by blast
  then show ?thesis using s by blast
qed

end
