(* ===== verification/Cache_Statistics.thy ===== *)
theory Cache_Statistics
  imports Cache_Theorems
begin

section \<open>Statistics\<close>

text \<open>
  The counters of a manager against the history that led to its state, and the hit rate
  computed from them (\<^verbatim>\<open>Stats::hit_rate()\<close>).
\<close>

subsection \<open>Histories\<close>

text \<open>A history with the log of its requests: the tokens of each and the handle it returned, the latest first.\<close>

inductive cache_trace :: "nat \<Rightarrow> memory \<Rightarrow> TierSpec list \<Rightarrow> CacheConfig \<Rightarrow> Options \<Rightarrow> (TokenId list \<times> Allocation) list
    \<Rightarrow> CacheManager \<Rightarrow> handle multiset \<Rightarrow> bool"
  for hw mem specs c opts where
  ct_init: "CacheManager_tiered hw mem specs c opts = Inr m \<Longrightarrow> cache_trace hw mem specs c opts [] m {#}"
| ct_request: "cache_trace hw mem specs c opts reqs m hs \<Longrightarrow> cache_allowed m hs (Acquire toks) \<Longrightarrow> acquire m toks = Inr (a, m') \<Longrightarrow>
     cache_trace hw mem specs c opts ((toks, a) # reqs) m' (add_mset (a, toks) hs)"
| ct_other: "cache_trace hw mem specs c opts reqs m hs \<Longrightarrow> cache_allowed m hs oper \<Longrightarrow> cache_step oper m hs m' hs' \<Longrightarrow>
     (\<And>toks. oper \<noteq> Acquire toks) \<Longrightarrow> cache_trace hw mem specs c opts reqs m' hs'"

lemma trace_step:
  assumes t: "cache_trace hw mem specs c opts reqs m hs" and al: "cache_allowed m hs oper" and step: "cache_step oper m hs m' hs'"
  shows "\<exists>reqs'. cache_trace hw mem specs c opts reqs' m' hs'"
proof (cases "\<exists>toks. oper = Acquire toks")
  case True
  then obtain toks a where "oper = Acquire toks" "acquire m toks = Inr (a, m')" "hs' = add_mset (a, toks) hs"
    using step by (auto elim: cache_step_cases(1))
  then show ?thesis using ct_request [OF t, of toks a m'] al by blast
next
  case False
  then show ?thesis using ct_other [OF t al step] by blast
qed

lemma reachable_traced: "reachable_cache hw mem specs c opts m hs \<longleftrightarrow> (\<exists>reqs. cache_trace hw mem specs c opts reqs m hs)"
proof
  show "reachable_cache hw mem specs c opts m hs \<Longrightarrow> \<exists>reqs. cache_trace hw mem specs c opts reqs m hs"
    by (induction rule: reachable_cache.induct) (blast intro: ct_init trace_step)+
  assume "\<exists>reqs. cache_trace hw mem specs c opts reqs m hs"
  then obtain reqs where "cache_trace hw mem specs c opts reqs m hs" ..
  then show "reachable_cache hw mem specs c opts m hs"
    by (induction rule: cache_trace.induct) (blast intro: rc_init rc_step cs_acquire)+
qed

text \<open>What a log says of the requests: those granted and refused, the tokens of the granted and the cached among them.\<close>

definition granted_log :: "(TokenId list \<times> Allocation) list \<Rightarrow> (TokenId list \<times> Allocation) list" where
  "granted_log reqs = filter (\<lambda>e. al_ok (snd e)) reqs"

definition refused_log :: "(TokenId list \<times> Allocation) list \<Rightarrow> (TokenId list \<times> Allocation) list" where
  "refused_log reqs = filter (\<lambda>e. \<not> al_ok (snd e)) reqs"

definition log_tokens :: "(TokenId list \<times> Allocation) list \<Rightarrow> nat" where
  "log_tokens reqs = sum_list (map (\<lambda>e. length (fst e)) (granted_log reqs))"

definition log_hits :: "(TokenId list \<times> Allocation) list \<Rightarrow> nat" where
  "log_hits reqs = sum_list (map (\<lambda>e. al_cached_tokens (snd e)) (granted_log reqs))"

lemmas log_defs = granted_log_def refused_log_def log_tokens_def log_hits_def

subsection \<open>What one event counts\<close>

definition traffic :: "Stats \<Rightarrow> nat \<times> nat \<times> nat \<times> nat \<times> nat" where
  "traffic s = (st_requests s, st_served s, st_alloc_failures s, st_total_tokens s, st_hit_tokens s)"

lemma counters_traffic: "request_counters s' = request_counters s \<Longrightarrow> traffic s' = traffic s"
  by (simp add: request_counters_def traffic_def)

lemma other_traffic:
  assumes ok: "cache_ok m hs" and al: "cache_allowed m hs oper" and step: "cache_step oper m hs m' hs'"
    and other: "\<And>toks. oper \<noteq> Acquire toks"
  shows "traffic (cm_stats m') = traffic (cm_stats m)"
proof -
  have inv: "cache_inv m hs" "running (cm_pool m)" using ok by (simp_all add: cache_ok_def)
  show ?thesis
    using step
  proof cases
    case (cs_acquire toks a)
    then show ?thesis using other by simp
  next
    case (cs_release toks' a a' toks)
    have "request_counters (cm_stats m') = request_counters (cm_stats m)"
    proof (cases "al_ok a")
      case True
      then show ?thesis using release_ok [of m a toks hs' toks'] cs_release inv(1) al by auto
    next
      case False
      then show ?thesis using cs_release by (simp add: release_def)
    qed
    then show ?thesis by (rule counters_traffic)
  next
    case (cs_drop a toks)
    then show ?thesis using destroy_ok [of m a toks hs'] inv(1) by (auto simp: traffic_def)
  next
    case (cs_ready a toks r)
    then show ?thesis using ready_ok [OF inv(1), of a toks] by auto
  next
    case (cs_wait a toks)
    then show ?thesis using wait_ready_ok [OF _ inv(1) _ inv(2), of a m' toks] by auto
  next
    case (cs_fill b bytes p a toks)
    then show ?thesis by simp
  next
    case (cs_work i p)
    then show ?thesis by simp
  qed
qed

lemma request_traffic:
  assumes ok: "cache_ok m hs" and al: "cache_allowed m hs (Acquire toks)" and a: "acquire m toks = Inr (a, m')"
  shows "charged toks a (cm_stats m) (cm_stats m')" "al_cached_tokens a \<le> length toks"
proof -
  have q: "acquired m hs toks a m'" using step_acquire [OF ok al] a by auto
  then have "handle_ok (cm_tree m') (cm_pool m') (a, toks)" using cache_invD(3) [of m' "add_mset (a, toks) hs"] by (simp add: acquired_def)
  then show "al_cached_tokens a \<le> length toks" by (simp add: handle_ok_def)
  show "charged toks a (cm_stats m) (cm_stats m')" using q by (simp add: acquired_def)
qed

text \<open>The counters of a state against the log of its history, each modulo the width of its type.\<close>

definition tallied :: "(TokenId list \<times> Allocation) list \<Rightarrow> Stats \<Rightarrow> bool" where
  "tallied reqs s \<longleftrightarrow> log_hits reqs \<le> log_tokens reqs
     \<and> traffic s = (u64 (length reqs), u64 (length (granted_log reqs)), u64 (length (refused_log reqs)), u64 (log_tokens reqs), u64 (log_hits reqs))"

lemma tallied_charged:
  assumes t: "tallied reqs s" and ch: "charged toks a s s'" "al_cached_tokens a \<le> length toks"
  shows "tallied ((toks, a) # reqs) s'"
  using assms unfolding tallied_def charged_def traffic_def request_counters_def
  by (cases "al_ok a"; cases "toks = []") (auto simp: log_defs bump_def u64_def mod_Suc_eq mod_add_right_eq add.commute)

lemma trace_tallied:
  assumes "specs_ok mem c specs" and "cache_trace hw mem specs c opts reqs m hs"
  shows "tallied reqs (cm_stats m)"
  using assms(2)
proof (induction rule: cache_trace.induct)
  case (ct_init m)
  then show ?case using cache_init(6) [OF assms(1) ct_init] by (auto simp: tallied_def traffic_def log_defs Stats_new_def u64_def)
next
  case (ct_request reqs m hs toks a m')
  have ok: "cache_ok m hs" using reachable_cacheD(1) [OF _ assms(1)] reachable_traced ct_request.hyps(1) by blast
  show ?case by (rule tallied_charged [OF ct_request.IH request_traffic [OF ok ct_request.hyps(2,3)]])
next
  case (ct_other reqs m hs oper m' hs')
  have ok: "cache_ok m hs" using reachable_cacheD(1) [OF _ assms(1)] reachable_traced ct_other.hyps(1) by blast
  show ?case using ct_other.IH other_traffic [OF ok ct_other.hyps(2-4)] by (simp add: tallied_def)
qed

subsection \<open>The hit rate\<close>

lemma double_quotient:
  assumes "0 \<le> h" "0 < t"
  shows "\<bar>double (double h / double t) - h / t\<bar> \<le> h / t / 2 ^ 51"
proof -
  let ?q = "double h / double t" and ?u = "1 / 2 ^ 53 :: rat"
  note t = double_pos [OF assms(2)]
  note H = double_bounds [OF assms(1)] and T = double_bounds [OF less_imp_le [OF assms(2)]]
  have "?q \<le> (h * (1 + ?u)) / (t * (1 - ?u))" using H T assms by (intro frac_le) auto
  moreover have "(h * (1 - ?u)) / (t * (1 + ?u)) \<le> ?q" using H T assms t by (intro frac_le) auto
  ultimately have q: "?q \<le> h / t * ((1 + ?u) / (1 - ?u))" "h / t * ((1 - ?u) / (1 + ?u)) \<le> ?q" by simp_all
  have "0 \<le> ?q" by simp
  note r = double_bounds [OF this]
  have s: "0 \<le> h / t" using assms by simp
  have "double ?q \<le> h / t * ((1 + ?u) / (1 - ?u)) * (1 + ?u)" using r(2) mult_right_mono [OF q(1), of "1 + ?u"] by simp
  also have "\<dots> \<le> h / t * (1 + 4 * ?u)" unfolding mult.assoc by (intro mult_left_mono [OF _ s]) simp
  finally have up: "double ?q \<le> h / t * (1 + 4 * ?u)" .
  have "h / t * (1 - 4 * ?u) \<le> h / t * ((1 - ?u) / (1 + ?u) * (1 - ?u))" by (intro mult_left_mono [OF _ s]) simp
  also have "\<dots> \<le> double ?q" using r(1) mult_right_mono [OF q(2), of "1 - ?u"] by (simp add: mult.assoc)
  finally have lo: "h / t * (1 - 4 * ?u) \<le> double ?q" .
  have "h / t * (4 * ?u) = h / t / 2 ^ 51" by simp
  then show ?thesis using up lo by (simp add: abs_le_iff algebra_simps)
qed

lemma hit_rate_range:
  assumes "st_hit_tokens s \<le> st_total_tokens s"
  shows "0 \<le> hit_rate s" "hit_rate s \<le> 1"
proof -
  show "0 \<le> hit_rate s" by (simp add: hit_rate_def)
  let ?h = "double (of_nat (st_hit_tokens s))" and ?t = "double (of_nat (st_total_tokens s))"
  have "?h / ?t \<le> 1" using double_mono [of "of_nat (st_hit_tokens s)" "of_nat (st_total_tokens s)"] assms 
    by (cases "?t = 0") (simp_all add: divide_le_eq_1 order_less_le)
  from double_mono [OF this] show "hit_rate s \<le> 1" by (simp add: hit_rate_def)
qed

text \<open>C32. The statistics are those of the history. In every state, against the log of the requests made and the
  handles they returned, and modulo \<open>2 ^ 64\<close>: \<^verbatim>\<open>requests\<close> is their number, \<^verbatim>\<open>served\<close> the number of those granted,
  \<^verbatim>\<open>alloc_failures\<close> the number of those refused, \<^verbatim>\<open>total_tokens\<close> the tokens of the granted requests only, and \<^verbatim>\<open>hit_tokens\<close>
  the tokens their handles reported as cached. While fewer than \<open>2 ^ 64\<close> tokens have been granted, the hits never exceed the
  total, and \<^verbatim>\<open>hit_rate()\<close>, computed in \<^verbatim>\<open>double\<close>, lies between 0 and 1 and within a relative error of \<open>2 ^ (-51)\<close> of
  the exact ratio of the two sums.\<close>

theorem statistics_correct:
  assumes "specs_ok mem c specs" and "cache_trace hw mem specs c opts reqs m hs"
  defines "s \<equiv> cm_stats m"
  shows "st_requests s = u64 (length reqs) \<and> st_served s = u64 (length (granted_log reqs))
     \<and> st_alloc_failures s = u64 (length (refused_log reqs))
     \<and> st_total_tokens s = u64 (log_tokens reqs) \<and> st_hit_tokens s = u64 (log_hits reqs)
     \<and> (log_tokens reqs < 2 ^ 64 \<longrightarrow> st_hit_tokens s \<le> st_total_tokens s \<and> 0 \<le> hit_rate s \<and> hit_rate s \<le> 1
          \<and> \<bar>hit_rate s - of_nat (log_hits reqs) / of_nat (log_tokens reqs)\<bar> \<le> of_nat (log_hits reqs) / of_nat (log_tokens reqs) / 2 ^ 51)"
proof -
  have t: "log_hits reqs \<le> log_tokens reqs" "st_requests s = u64 (length reqs)" "st_served s = u64 (length (granted_log reqs))"
    "st_alloc_failures s = u64 (length (refused_log reqs))" "st_total_tokens s = u64 (log_tokens reqs)" "st_hit_tokens s = u64 (log_hits reqs)"
    using trace_tallied [OF assms(1,2)] by (simp_all add: tallied_def s_def traffic_def)
  have "st_hit_tokens s \<le> st_total_tokens s \<and> 0 \<le> hit_rate s \<and> hit_rate s \<le> 1
      \<and> \<bar>hit_rate s - of_nat (log_hits reqs) / of_nat (log_tokens reqs)\<bar> \<le> of_nat (log_hits reqs) / of_nat (log_tokens reqs) / 2 ^ 51"
    if "log_tokens reqs < 2 ^ 64"
  proof -
    have e: "st_hit_tokens s = log_hits reqs" "st_total_tokens s = log_tokens reqs" using t(1,5,6) that by (simp_all add: u64_small)
    have "\<bar>hit_rate s - of_nat (st_hit_tokens s) / of_nat (st_total_tokens s)\<bar> \<le> of_nat (st_hit_tokens s) / of_nat (st_total_tokens s) / 2 ^ 51"
      using double_quotient [of "of_nat (st_hit_tokens s)" "of_nat (st_total_tokens s)"] by (simp add: hit_rate_def)
    then show ?thesis using hit_rate_range [of s] t(1) unfolding e by blast
  qed
  then show ?thesis using t(2-6) by blast
qed

theorem statistics_correct_witness:
  "\<exists>m a hs. cache_trace 1 demo_mem demo_specs demo_cfg Options_new [([1, 2, 3], a)] m hs \<and> al_ok a \<and> st_requests (cm_stats m) = 1
     \<and> st_served (cm_stats m) = 1 \<and> st_alloc_failures (cm_stats m) = 0 \<and> st_total_tokens (cm_stats m) = 3
     \<and> 0 \<le> hit_rate (cm_stats m) \<and> hit_rate (cm_stats m) \<le> 1"
proof -
  obtain m where m: "CacheManager_tiered 1 demo_mem demo_specs demo_cfg Options_new = Inr m" "cm_cfg m = demo_cfg" "free0 (cm_pool m) = 2"
    by (rule demo_built)
  have al: "cache_allowed m {#} (Acquire [1, 2, 3])" by (simp add: m(2) demo_cfg_def)
  obtain a m' where a: "acquire m [1, 2, 3] = Inr (a, m')" "acquired m {#} [1, 2, 3] a m'"
    using step_acquire [OF reachable_cacheD(1) [OF rc_init [OF m(1)] demo_specs_ok] al] by blast
  have ok: "al_ok a" using a(2) m(2,3) by (auto simp: acquired_def refused_def blocks_needed_def demo_cfg_def split: if_splits)
  have tr: "cache_trace 1 demo_mem demo_specs demo_cfg Options_new [([1, 2, 3], a)] m' {#(a, [1, 2, 3])#}"
    by (rule ct_request [OF ct_init [OF m(1)] al a(1)])
  show ?thesis using statistics_correct [OF demo_specs_ok tr] tr ok by (auto simp: log_defs u64_def)
qed

end
