(* ===== verification/Cache_Watermark.thy ===== *)
theory Cache_Watermark
  imports Capacity_Theorems
begin

section \<open>The watermark\<close>

text \<open>
  What \<^verbatim>\<open>maintain()\<close> achieves: it queues background demotions of cold blocks until the compute
  slots that are free or about to be reach \<^verbatim>\<open>Options::spill_watermark\<close>, and no more than that.
\<close>

subsection \<open>Queueing demotions\<close>

lemma leaving_bound: "sys_inv p \<Longrightarrow> b \<in> leaving p t \<longleftrightarrow> loc_tier (bp_location p ! b) = t \<and> bound_for p b \<notin> {None, Some t}"
  using bound_None [OF sys_invD(5), of p b] by (auto simp: leaving_def goal_tier_def split: option.splits)

lemma leaving_queued:
  assumes "sys_inv p" "sys_inv (queued_pool p b 1)" "\<not> migrating p b" "loc_tier (bp_location p ! b) = 0"
  shows "leaving (queued_pool p b 1) 0 = insert b (leaving p 0)"
  using assms bound_None [OF sys_invD(5) [OF assms(1)], of b] by (auto simp: leaving_bound bound_queued split: if_splits)

text \<open>
  The loop over the victims queues a first part of them; it stops before the end only when
  the spill tier has no slot left.
\<close>

lemma queue_victims:
  assumes "sys_inv p" "1 < length (bp_tiers p)" "distinct bs" "\<forall>b \<in> set bs. demotable p b"
  shows "\<exists>k p'. k \<le> length bs \<and> move_all (\<lambda>p b. migrate_async p b 1) bs n p = Inr ((bump ^^ k) n, p') \<and> sys_inv p' \<and> view p' = view p
     \<and> free0 p' = free0 p \<and> leaving p' 0 = leaving p 0 \<union> set (take k bs) \<and> (k < length bs \<longrightarrow> tier_free p' 1 = Inr 0)"
  using assms
proof (induction bs arbitrary: n p)
  case (Cons b bs)
  note sys = Cons.prems(1) and two = Cons.prems(2)
  have b: "live p b" "\<not> migrating p b" "loc_tier (bp_location p ! b) = 0" using Cons.prems(4) by (auto simp: demotable_def live_rcount)
  obtain r p1 where m: "migrate_async p b 1 = Inr (r, p1)" "sys_inv p1" "view p1 = view p" "r \<longleftrightarrow> ts_free (bp_tiers p ! 1) \<noteq> []"
    "\<forall>c. c \<noteq> b \<longrightarrow> steady p p1 c" "\<not> r \<longrightarrow> p1 = p" "free0 p1 = free0 p" "length (bp_tiers p1) = length (bp_tiers p)"
    using migrate_async_status [OF sys b(1), of 1] two b(2,3) by (auto split: if_splits)
  show ?case
  proof (cases r)
    case False
    then show ?thesis using m two sys by (intro exI [of _ 0] exI [of _ p]) (simp add: tier_free_def)
  next
    case True
    then have q: "p1 = queued_pool p b 1" using migrate_async_True(4) [OF sys_invD(1) [OF sys]] m(1) by simp
    have "demotable p1 c" if c: "c \<in> set bs" for c
    proof -
      have s: "steady p p1 c" using m(5) c Cons.prems(3) by auto
      show ?thesis
        using Cons.prems(4) c s steady_migrating [OF s sys_invD(5) [OF sys] sys_invD(5) [OF m(2)]] view_rcount [OF m(3)]
        by (simp add: demotable_def steady_def)
    qed
    then obtain k p' where p': "k \<le> length bs" "move_all (\<lambda>p b. migrate_async p b 1) bs (bump n) p1 = Inr ((bump ^^ k) (bump n), p')"
      "sys_inv p'" "view p' = view p1" "free0 p' = free0 p1" "leaving p' 0 = leaving p1 0 \<union> set (take k bs)" "k < length bs \<longrightarrow> tier_free p' 1 = Inr 0"
      using Cons.IH [OF m(2), of "bump n"] m(8) two Cons.prems(3) by auto
    have "leaving p1 0 = insert b (leaving p 0)" using leaving_queued [OF sys _ b(2,3)] m(2) unfolding q by blast
    then show ?thesis using True m p' by (intro exI [of _ "Suc k"] exI [of _ p']) (simp add: funpow_swap1)
  qed
qed (auto intro!: exI [of _ 0])

subsection \<open>The theorem\<close>

lemma projected_fits:
  assumes sys: "sys_inv p"
  shows "u64 (free0 p + card (leaving p 0)) = free0 p + card (leaving p 0)"
proof -
  note inv = sys_invD(1) [OF sys]
  have "ts_num_blocks (bp_tiers p ! 0) \<le> sum_list (map ts_num_blocks (bp_tiers p))"
    using pool_invD(2) [OF inv] by (intro member_le_sum_list) simp_all
  then have "free0 p + card (leaving p 0) < 2 ^ 32"
    using slots_eq [OF sys, of 0] pool_invD(2) [OF inv] inv by (simp add: free0_def pool_inv_def slots_inv_def)
  then show ?thesis by (simp add: u64_small)
qed

lemma maintain_queues:
  assumes c: "core (cm_tree m) (cm_pool m) pins X"
  defines "w \<equiv> op_spill_watermark (cm_options m)" and "cold \<equiv> coldest (cm_tree m) (cm_pool m) (candidates (cm_tree m) [])"
    and "have \<equiv> free0 (cm_pool m) + card (leaving (cm_pool m) 0)"
  shows "\<exists>m' D. maintain m = Inr m' \<and> cm_tree m' = cm_tree m \<and> sys_inv (cm_pool m') \<and> view (cm_pool m') = view (cm_pool m)
     \<and> free0 (cm_pool m') = free0 (cm_pool m) \<and> leaving (cm_pool m') 0 = leaving (cm_pool m) 0 \<union> D \<and> D \<subseteq> cold \<and> finite D \<and> card D \<le> w - have
     \<and> st_background_demotions (cm_stats m') = (bump ^^ card D) (st_background_demotions (cm_stats m))
     \<and> (num_tiers (cm_pool m) < 2 \<longrightarrow> D = {})
     \<and> (2 \<le> num_tiers (cm_pool m) \<and> card D < w - have \<longrightarrow> D = cold \<or> tier_free (cm_pool m') 1 = Inr 0)"
proof (cases "num_tiers (cm_pool m) < 2 \<or> w = 0 \<or> w \<le> have")
  case True
  then have "maintain m = Inr m"
    by (auto simp: maintain_def num_free_eq [OF coreD(1) [OF c]] pending_departures_eq [OF coreD(1) [OF c]] Let_def w_def have_def
        projected_fits [OF coreD(1) [OF c]])
  then show ?thesis using True coreD(1) [OF c] by (intro exI [of _ m] exI [of _ "{}"]) auto
next
  case False
  note D = coreD [OF c]
  obtain vs where vs: "pick_demotion_victims (cm_tree m) (cm_pool m) (w - have) = Inr vs" "distinct vs" "length vs \<le> w - have"
    "set vs \<subseteq> cold" "length vs < w - have \<longrightarrow> set vs = cold"
    using pick_demotion_victims_ok [OF D(5,1,6)] unfolding picked_def cold_def by blast
  have two: "1 < length (bp_tiers (cm_pool m))" using False by (simp add: num_tiers_def)
  have "\<forall>b \<in> set vs. demotable (cm_pool m) b" using vs(4) by (auto simp: cold_def coldest_def)
  from queue_victims [OF D(1) two vs(2) this, of "st_background_demotions (cm_stats m)"]
  obtain k p' where p': "k \<le> length vs" "move_all (\<lambda>p b. migrate_async p b 1) vs (st_background_demotions (cm_stats m)) (cm_pool m)
      = Inr ((bump ^^ k) (st_background_demotions (cm_stats m)), p')"
    "sys_inv p'" "view p' = view (cm_pool m)" "free0 p' = free0 (cm_pool m)" "leaving p' 0 = leaving (cm_pool m) 0 \<union> set (take k vs)"
    "k < length vs \<longrightarrow> tier_free p' 1 = Inr 0" by blast
  have k: "card (set (take k vs)) = k" using p'(1) distinct_card [OF distinct_take [OF vs(2)], of k] by simp
  let ?m = "m\<lparr>cm_victims := vs, cm_pool := p', cm_stats := (cm_stats m)\<lparr>st_background_demotions := (bump ^^ k) (st_background_demotions (cm_stats m))\<rparr>\<rparr>"
  have "maintain m = Inr ?m"
    using False vs(1) p'(2) by (auto simp: maintain_def num_free_eq [OF D(1)] pending_departures_eq [OF D(1)] Let_def w_def have_def
        projected_fits [OF D(1)] demote_async_eq)
  moreover have "set (take k vs) = cold \<or> tier_free p' 1 = Inr 0" if "k < w - have"
    using that vs(5) p'(1,7) by (cases "k < length vs") auto
  moreover have "set (take k vs) \<subseteq> cold" using vs(4) set_take_subset by fastforce
  ultimately show ?thesis using False p' k vs(3) by (intro exI [of _ ?m] exI [of _ "set (take k vs)"]) (simp add: num_tiers_def)
qed

text \<open>C16. \<^verbatim>\<open>maintain()\<close> keeps the watermark. In every state a manager can reach it ends without error, changes
  no entry of the cache, no count and no byte, and takes no compute slot; it queues copies to the spill tier
  of some blocks of unpinned leaves that no handle references and that are not in flight already, and counts each.
  Never does it queue more than are missing from the watermark, in-flight demotions counted as free;
  with two tiers it queues fewer only if no such block is left or the spill tier is full.\<close>

theorem maintain_correct:
  assumes "specs_ok mem c specs" and "reachable_cache hw mem specs c opts m hs"
  shows "\<exists>free departing m' D. num_free (cm_pool m) = Inr free \<and> pending_departures (cm_pool m) 0 = Inr departing
     \<and> maintain m = Inr m' \<and> cm_tree m' = cm_tree m \<and> view (cm_pool m') = view (cm_pool m)
     \<and> num_free (cm_pool m') = Inr free \<and> pending_departures (cm_pool m') 0 = Inr (departing + card D)
     \<and> (\<forall>b \<in> D. migrating (cm_pool m') b \<and> \<not> migrating (cm_pool m) b) \<and> D \<subseteq> coldest (cm_tree m) (cm_pool m) (candidates (cm_tree m) [])
     \<and> st_background_demotions (cm_stats m') = (bump ^^ card D) (st_background_demotions (cm_stats m))
     \<and> card D \<le> op_spill_watermark opts - (free + departing) \<and> (length specs < 2 \<longrightarrow> D = {})
     \<and> (2 \<le> length specs \<and> card D < op_spill_watermark opts - (free + departing) \<longrightarrow>
          D = coldest (cm_tree m) (cm_pool m) (candidates (cm_tree m) []) \<or> tier_free (cm_pool m') 1 = Inr 0)"
proof -
  note R = reachable_cacheD [OF assms(2,1)] and sys = coreD(1) [OF reachable_cacheD(4) [OF assms(2,1)]]
  obtain m' D where m': "maintain m = Inr m'" "cm_tree m' = cm_tree m" "sys_inv (cm_pool m')" "view (cm_pool m') = view (cm_pool m)"
    "free0 (cm_pool m') = free0 (cm_pool m)" "leaving (cm_pool m') 0 = leaving (cm_pool m) 0 \<union> D"
    and D: "D \<subseteq> coldest (cm_tree m) (cm_pool m) (candidates (cm_tree m) [])" "finite D"
    and rest: "card D \<le> op_spill_watermark opts - (free0 (cm_pool m) + card (leaving (cm_pool m) 0))"
      "st_background_demotions (cm_stats m') = (bump ^^ card D) (st_background_demotions (cm_stats m))" "length specs < 2 \<longrightarrow> D = {}"
      "2 \<le> length specs \<and> card D < op_spill_watermark opts - (free0 (cm_pool m) + card (leaving (cm_pool m) 0)) \<longrightarrow>
          D = coldest (cm_tree m) (cm_pool m) (candidates (cm_tree m) []) \<or> tier_free (cm_pool m') 1 = Inr 0"
    using maintain_queues [OF R(4)] unfolding R(6) num_tiers_def reachable_slots(2) [OF assms] by blast
  have new: "\<not> migrating (cm_pool m) b" if "b \<in> D" for b using D(1) that by (auto simp: coldest_def demotable_def)
  then have "leaving (cm_pool m) 0 \<inter> D = {}" by (auto simp: leaving_def)
  then have "card (leaving (cm_pool m') 0) = card (leaving (cm_pool m) 0) + card D"
    unfolding m'(6) by (rule card_Un_disjoint [OF pending_departures_eq(2) [OF sys] D(2)])
  moreover have "migrating (cm_pool m') b" if "b \<in> D" for b
    using that m'(6) by (auto simp: leaving_def)
  ultimately show ?thesis
    using m'(1,2,4,5) D(1) rest new num_free_eq [OF sys] num_free_eq [OF m'(3)] pending_departures_eq(1) [OF sys] pending_departures_eq(1) [OF m'(3)]
    by - (intro exI conjI; (assumption | simp))
qed

theorem maintain_correct_witness:
  "\<exists>m m' D. CacheManager_tiered 1 demo_mem demo_specs demo_cfg (Options_new\<lparr>op_spill_watermark := 3\<rparr>) = Inr m \<and> maintain m = Inr m'
     \<and> view (cm_pool m') = view (cm_pool m) \<and> D \<subseteq> coldest (cm_tree m) (cm_pool m) (candidates (cm_tree m) []) \<and> card D \<le> 3"
proof -
  let ?opts = "Options_new\<lparr>op_spill_watermark := 3\<rparr>"
  obtain m where m: "CacheManager_tiered 1 demo_mem demo_specs demo_cfg ?opts = Inr m" by (rule demo_built)
  from maintain_correct [OF demo_specs_ok rc_init [OF m]] obtain f d m' D where "maintain m = Inr m'" "view (cm_pool m') = view (cm_pool m)"
    "D \<subseteq> coldest (cm_tree m) (cm_pool m) (candidates (cm_tree m) [])" "card D \<le> op_spill_watermark ?opts - (f + d)" by blast
  then show ?thesis using m by (intro exI [of _ m] exI [of _ m'] exI [of _ D]) simp
qed

end
