(* ===== verification/Promotion_Stall.thy ===== *)
theory Promotion_Stall
  imports Capacity_Theorems
begin

section \<open>A refusal by an idle cache\<close>

text \<open>
  The slots that cancelled promotions hold make \<open>refusal_means_full\<close> count more than the
  requests in use, and this theory shows that the term is needed: a cache of one compute slot and
  one spill slot with background promotion, in which one request after the other is served and
  released, refuses a request although no handle is in use. Each call is evaluated, on
  states written with the fixtures below.
\<close>

subsection \<open>A small cache\<close>

definition tight_cfg :: CacheConfig where
  "tight_cfg = \<lparr>cfg_num_blocks = 1, cfg_block_tokens = 1, cfg_num_layers = 1, cfg_num_kv_heads = 1,
               cfg_head_dim = 1, cfg_dtype_bytes = 1\<rparr>"

definition tight_mem :: memory where
  "tight_mem = replicate 2 \<lparr>ht_arena = Some [0, 0], ht_capacity = 2\<rparr>"

definition tight_specs :: "TierSpec list" where
  "tight_specs = [\<lparr>spec_tier = Some 0, spec_num_blocks = 1\<rparr>, \<lparr>spec_tier = Some 1, spec_num_blocks = 1\<rparr>]"

definition tight_options :: Options where
  "tight_options = \<lparr>op_spill_watermark = 0, op_async_promotion = True\<rparr>"

text \<open>Fixtures for the states of its pool, its tree and itself.\<close>

definition tight_pool :: "nat list \<Rightarrow> nat list \<Rightarrow> Location list \<Rightarrow> nat list \<Rightarrow> BlockId list \<Rightarrow> MigrationJob list
    \<Rightarrow> (BlockId \<times> nat) list \<Rightarrow> worker list \<Rightarrow> nat \<Rightarrow> BlockPool" where
  "tight_pool f0 f1 ls rs ids jobs ms ws next_ptr = \<lparr>bp_cfg = tight_cfg, bp_mem = tight_mem,
     bp_tiers = [\<lparr>ts_tier = 0, ts_num_blocks = 1, ts_free = f0\<rparr>, \<lparr>ts_tier = 1, ts_num_blocks = 1, ts_free = f1\<rparr>],
     bp_location = ls, bp_refcount = rs, bp_free_ids = ids, bp_bounce = [0, 0], bp_jobs = jobs, bp_migrating = ms,
     bp_workers = ws, bp_next_unclaimed = 0, bp_stopping = False, bp_hw = 1, bp_next_ptr = next_ptr\<rparr>"

definition tight_tree :: "(nat \<rightharpoonup> Node) \<Rightarrow> nat \<Rightarrow> nat \<Rightarrow> nat \<Rightarrow> nat \<Rightarrow> RadixTree" where
  "tight_tree nodes clock blocks num next_node = \<lparr>rt_nodes = nodes, rt_block_tokens = 1, rt_root = 0, rt_clock = clock,
     rt_stored_blocks = blocks, rt_num_nodes = num, rt_collisions = 0, rt_next = next_node\<rparr>"

definition tight_manager :: "BlockPool \<Rightarrow> RadixTree \<Rightarrow> Stats \<Rightarrow> BlockId list \<Rightarrow> CacheManager" where
  "tight_manager p t st vs = \<lparr>cm_cfg = tight_cfg, cm_pool = p, cm_tree = t, cm_stats = st, cm_options = tight_options, cm_victims = vs\<rparr>"

abbreviation leaf :: "TokenId \<Rightarrow> BlockId \<Rightarrow> nat \<Rightarrow> nat \<Rightarrow> Node" where
  "leaf t b l k \<equiv> \<lparr>nd_tokens = [t], nd_blocks = [b], nd_children = [], nd_parent = Some 0, nd_lock = l, nd_last = k\<rparr>"

abbreviation stem :: "(64 word \<times> nat) list \<Rightarrow> Node" where
  "stem kids \<equiv> \<lparr>nd_tokens = [], nd_blocks = [], nd_children = kids, nd_parent = None, nd_lock = 0, nd_last = 0\<rparr>"

abbreviation slot_in :: "nat \<Rightarrow> Location" where
  "slot_in t \<equiv> \<lparr>loc_tier = t, loc_slot = 0\<rparr>"

abbreviation promotion :: "bool \<Rightarrow> MigrationJob" where
  "promotion cancelled \<equiv> \<lparr>job_ptr = 0, job_id = 0, job_dst_tier = 0, job_dst_slot = 0, job_src = (1, 0), job_dst = (0, 0),
     job_bytes = 2, job_done = False, job_cancelled = cancelled\<rparr>"

abbreviation handed :: "nat \<Rightarrow> BlockId \<Rightarrow> nat option \<Rightarrow> Allocation" where
  "handed n b pin \<equiv> \<lparr>al_ok = True, al_cached_tokens = n, al_cached_blocks = n, al_blocks = [b], al_pinned = pin, al_owner = True\<rparr>"

text \<open>The pool and the tree when the last request comes, with its promotion still queued, and when it has been refused.\<close>

abbreviation stalled_pool :: BlockPool where
  "stalled_pool \<equiv> tight_pool [] [] [slot_in 1, slot_in 0] [1, 0] [1] [promotion False] [(0, 0)] [Waiting] 1"

abbreviation stalled_tree :: RadixTree where
  "stalled_tree \<equiv> tight_tree [0 \<mapsto> stem [(block_key [1] 1, 1)], 1 \<mapsto> leaf 1 0 0 (Suc (Suc 3))] (Suc (Suc 3)) 1 1 3"

abbreviation refused_pool :: BlockPool where
  "refused_pool \<equiv> tight_pool [] [0] [slot_in 1, slot_in 0] [0, 0] [1, 0] [promotion True] [] [Waiting] 1"

abbreviation refused_tree :: RadixTree where
  "refused_tree \<equiv> tight_tree [0 \<mapsto> stem []] (Suc (Suc 3)) 0 0 3"

lemma tight_bytes: "block_bytes tight_cfg = 2"
  by (simp add: block_bytes_def bytes_per_token_def tight_cfg_def u64_def)

lemma tight_bt: "cfg_block_tokens tight_cfg = 1"
  by (simp add: tight_cfg_def)

lemma tight_keys: "block_key [1] 1 \<noteq> block_key [2] 1" "block_key [2] 1 \<noteq> block_key [1] 1" "block_key [3] 1 \<noteq> block_key [1] 1"
  by (simp_all add: block_key_def fnv_token_def fnv_byte_def token_byte_def)

lemma tight_init: "CacheManager_tiered 1 tight_mem tight_specs tight_cfg tight_options =
   Inr (tight_manager (tight_pool [0] [0] [slot_in 0, slot_in 0] [0, 0] [1, 0] [] [] [] 0) (tight_tree [0 \<mapsto> fresh_node] 0 0 0 1) Stats_new [])"
  by (simp add: CacheManager_tiered_def CacheManager_on_def BlockPool_tiered_def pool_init_def tight_specs_def tight_mem_def
     init_tier_def capacity_bytes_def tight_bytes tight_bt u64_def u32_def RadixTree_new_def tight_pool_def tight_tree_def tight_manager_def)
   (simp add: replicate_Suc upt_rec numeral_2_eq_2 tight_mem_def)

text \<open>The operations unfolded, for the evaluation of single calls.\<close>

lemmas run_simps = acquire_def acquire_match_def drain_migrations_def match_prefix_def match_loop.simps node_at_def
  fresh_node_def count_promotions_def acquire_room_def num_free_def tier_free_def evict_until.simps acquire_take_def
  allocate_def pop_free_def maintain_def num_tiers_def Allocation_new_def
  Let_def release_def tree_insert_def insert_limit_def insert_loop.simps touch_def set_node_def incref_def drop_fresh_def
  release_blocks_def decref_def unpin_def disarm_def AList.update.simps
  pick_demotion_victims_def find_lru_leaf_def lru_candidate_def better_def pick_block_def block_tier_def locate_def refcount_def migrating_def
  migrate_def cancel_migration_def copy_block_def memcpy_def overlap_def mem_load_def mem_store_def arena_load_def
  arena_store_def splice_def host_data_def push_free_def
  common_blocks.simps lock_def unlock_def keep_block_def promote_block_def migrate_async_def ensure_worker_def job_at_def migration_target_def
  evict_def drop_leaf_def count_decref_def upd_job_def numeral_2_eq_2 numeral_3_eq_3

lemma tight_words: "u64 0 = 0" "u64 (Suc 0) = Suc 0" "u64 (Suc (Suc 0)) = Suc (Suc 0)" "u64 (Suc (Suc (Suc 0))) = Suc (Suc (Suc 0))"
  "u64 (Suc (Suc (Suc (Suc 0)))) = Suc (Suc (Suc (Suc 0)))" "u64 (Suc (Suc (Suc (Suc (Suc 0))))) = Suc (Suc (Suc (Suc (Suc 0))))"
  "u32 0 = 0" "u32 (Suc 0) = Suc 0" "u32 (Suc (Suc 0)) = Suc (Suc 0)" "sub64 (Suc (Suc (Suc 0))) (Suc 0) = Suc (Suc 0)"
  "sub64 (Suc (Suc 0)) (Suc 0) = Suc 0" "sub64 (Suc 0) (Suc 0) = 0" "sub64 (Suc 0) 0 = Suc 0" "sub64 0 0 = 0"
  "0 \<noteq> kInvalidBlock" "Suc 0 \<noteq> kInvalidBlock"
  by (simp_all add: u64_def u32_def sub64_def kInvalidBlock_def)

lemmas tight_simps = tight_words tight_bytes tight_bt tight_pool_def tight_tree_def tight_manager_def tight_options_def tight_mem_def tight_keys [unfolded One_nat_def]

subsection \<open>The calls\<close>

lemma first_acquire:
  "\<exists>st' vs'. acquire (tight_manager (tight_pool [0] [0] [slot_in 0, slot_in 0] [0, 0] [1, 0] [] [] [] 0)
       (tight_tree [0 \<mapsto> fresh_node] 0 0 0 1) st vs) [1] =
     Inr (handed 0 0 None,
       tight_manager (tight_pool [] [0] [slot_in 0, slot_in 0] [1, 0] [1] [] [] [] 0)
       (tight_tree [0 \<mapsto> fresh_node] 0 0 0 1) st' vs')"
  by (simp add: run_simps tight_simps)

lemma first_release:
  "\<exists>st' vs'. release (tight_manager (tight_pool [] [0] [slot_in 0, slot_in 0] [1, 0] [1] [] [] [] 0)
       (tight_tree [0 \<mapsto> fresh_node] 0 0 0 1) st vs) [1] (handed 0 0 None) =
     Inr (Allocation_new,
       tight_manager (tight_pool [] [0] [slot_in 0, slot_in 0] [1, 0] [1] [] [] [] 0)
       (tight_tree [1 \<mapsto> leaf 1 0 0 1, 0 \<mapsto> stem [(block_key [1] 1, 1)]] 1 1 1 2) st' vs')"
  by (simp add: run_simps tight_simps)

lemma second_acquire:
  "\<exists>st' vs'. acquire (tight_manager (tight_pool [] [0] [slot_in 0, slot_in 0] [1, 0] [1] [] [] [] 0)
       (tight_tree [1 \<mapsto> leaf 1 0 0 1, 0 \<mapsto> stem [(block_key [1] 1, 1)]] 1 1 1 2) st vs) [2] =
     Inr (handed 0 1 None,
       tight_manager (tight_pool [] [] [slot_in 1, slot_in 0] [1, 1] [] [] [] [] 0)
       (tight_tree [1 \<mapsto> leaf 1 0 0 1, 0 \<mapsto> stem [(block_key [1] 1, 1)]] 1 1 1 2) st' vs')"
  by (simp add: run_simps tight_simps)

lemma second_release:
  "\<exists>st' vs'. release (tight_manager (tight_pool [] [] [slot_in 1, slot_in 0] [1, 1] [] [] [] [] 0)
       (tight_tree [1 \<mapsto> leaf 1 0 0 1, 0 \<mapsto> stem [(block_key [1] 1, 1)]] 1 1 1 2) st vs) [2] (handed 0 1 None) =
     Inr (Allocation_new,
       tight_manager (tight_pool [] [] [slot_in 1, slot_in 0] [1, 1] [] [] [] [] 0)
       (tight_tree [1 \<mapsto> leaf 1 0 0 1, 2 \<mapsto> leaf 2 1 0 2, 0 \<mapsto> stem [(block_key [1] 1, 1), (block_key [2] 1, 2)]] 2 2 2 3) st' vs')"
  by (simp add: run_simps tight_simps)

lemma third_acquire:
  "\<exists>st' vs'. acquire (tight_manager (tight_pool [] [] [slot_in 1, slot_in 0] [1, 1] [] [] [] [] 0)
       (tight_tree [1 \<mapsto> leaf 1 0 0 1, 2 \<mapsto> leaf 2 1 0 2, 0 \<mapsto> stem [(block_key [1] 1, 1), (block_key [2] 1, 2)]] 2 2 2 3) st vs) [1] =
     Inr (handed 1 0 (Some 1),
       tight_manager stalled_pool
       (tight_tree [1 \<mapsto> leaf 1 0 1 3, 0 \<mapsto> stem [(block_key [1] 1, 1)]] 3 1 1 3) st' vs')"
  by (simp add: run_simps tight_simps)

lemma third_release:
  "\<exists>st' vs'. release (tight_manager stalled_pool
       (tight_tree [1 \<mapsto> leaf 1 0 1 3, 0 \<mapsto> stem [(block_key [1] 1, 1)]] 3 1 1 3) st vs) [1] (handed 1 0 (Some 1)) =
     Inr (Allocation_new, tight_manager stalled_pool stalled_tree st' vs')"
  by (simp add: run_simps tight_simps)

lemma fourth_acquire:
  "\<exists>st' vs'. acquire (tight_manager stalled_pool stalled_tree st vs) [3] =
     Inr (Allocation_new, tight_manager refused_pool refused_tree st' vs')"
  by (simp add: run_simps tight_simps)

subsection \<open>The history\<close>

text \<open>A sequence is served and released: the state between two sequences is again reached with no handle in use.\<close>

abbreviation tight_reach :: "BlockPool \<Rightarrow> RadixTree \<Rightarrow> bool" where
  "tight_reach p t \<equiv> \<exists>st vs. reachable_cache 1 tight_mem tight_specs tight_cfg tight_options (tight_manager p t st vs) {#}"

lemma one_sequence:
  assumes r: "tight_reach p t"
    and a: "\<And>st vs. \<exists>st' vs'. acquire (tight_manager p t st vs) [x] = Inr (a, tight_manager p1 t1 st' vs')"
    and b: "\<And>st vs. \<exists>st' vs'. release (tight_manager p1 t1 st vs) [x] a = Inr (a', tight_manager p2 t2 st' vs')"
  shows "tight_reach p2 t2"
proof -
  obtain st vs where "reachable_cache 1 tight_mem tight_specs tight_cfg tight_options (tight_manager p t st vs) {#}" using r by blast
  moreover obtain st1 vs1 where "acquire (tight_manager p t st vs) [x] = Inr (a, tight_manager p1 t1 st1 vs1)" using a by blast
  moreover have "cache_allowed (tight_manager p t st vs) {#} (Acquire [x])" by (simp add: tight_manager_def tight_cfg_def)
  ultimately have "reachable_cache 1 tight_mem tight_specs tight_cfg tight_options (tight_manager p1 t1 st1 vs1) {#(a, [x])#}"
    using rc_step cs_acquire by blast
  moreover obtain st2 vs2 where "release (tight_manager p1 t1 st1 vs1) [x] a = Inr (a', tight_manager p2 t2 st2 vs2)" using b by blast
  moreover have "cache_allowed (tight_manager p1 t1 st1 vs1) {#(a, [x])#} (Release (a, [x]) [x])"
    unfolding cache_allowed.simps agrees_def by simp (simp add: min_def)
  ultimately show ?thesis using rc_step cs_release by blast
qed

lemma tight_specs_ok: "specs_ok tight_mem tight_cfg tight_specs"
  by (simp add: specs_ok_def tight_specs_def tight_mem_def tight_bytes tier_ok_def)

lemmas tight_start = rc_init [OF tight_init]

lemma three_sequences: "tight_reach stalled_pool stalled_tree"
  by (rule one_sequence [OF one_sequence [OF one_sequence [OF _ first_acquire first_release] second_acquire second_release]
        third_acquire third_release]) (use tight_start in blast)

text \<open>C21. \<^verbatim>\<open>acquire()\<close> can refuse a request that fits into compute memory although no handle is in use. With one compute slot,
  one spill slot and background promotion: sequences \<^verbatim>\<open>[1]\<close>, \<^verbatim>\<open>[2]\<close>, \<^verbatim>\<open>[1]\<close> are served and released one after the
  other; the third is a hit whose promotion is still queued when \<^verbatim>\<open>[3]\<close> is requested. The request evicts
  the only entry of the cache, which cancels the promotion, but the compute slot reserved for it comes
  back only when a worker has passed the job and it is drained, so the request is refused with no block in use.\<close>

theorem idle_cache_refuses:
  "\<exists>m a m'. specs_ok tight_mem tight_cfg tight_specs
     \<and> reachable_cache 1 tight_mem tight_specs tight_cfg tight_options m {#}
     \<and> blocks_needed (cfg_block_tokens tight_cfg) (length [3 :: TokenId]) \<le> spec_num_blocks (tight_specs ! 0)
     \<and> acquire m [3] = Inr (a, m') \<and> \<not> al_ok a
     \<and> rt_stored_blocks (cm_tree m) = 1 \<and> rt_stored_blocks (cm_tree m') = 0 \<and> bp_refcount (cm_pool m') = [0, 0]"
proof -
  obtain st vs where r: "reachable_cache 1 tight_mem tight_specs tight_cfg tight_options
      (tight_manager stalled_pool stalled_tree st vs) {#}"
    using three_sequences by blast
  obtain st' vs' where a: "acquire (tight_manager stalled_pool stalled_tree st vs) [3] = Inr (Allocation_new,
       tight_manager refused_pool refused_tree st' vs')"
    using fourth_acquire by blast
  have fits: "blocks_needed (cfg_block_tokens tight_cfg) (length [3 :: TokenId]) \<le> spec_num_blocks (tight_specs ! 0)"
    by (simp add: tight_bt tight_specs_def blocks_needed_def)
  show ?thesis
    by (intro exI conjI, rule tight_specs_ok, rule r, rule fits, rule a)
       (simp_all add: Allocation_new_def tight_manager_def tight_tree_def tight_pool_def)
qed

end
